(* ===== verification/Prelude.thy ===== *)
theory Prelude
  imports Main "HOL-Library.Word" "HOL-Library.Monad_Syntax"
begin

unbundle bit_operations_syntax

text \<open>
  The C side of the model, shared by every component: the integer types at their width, the
  conversions the kernel relies on, the C expression \<open>1 << n\<close> of type \<open>int\<close>, and generic
  facts on words, lists and counted loops.

  Results. An operation that may fail to come back (a NULL dereference, a loop that never
  ends, a read of an argument that was not passed) has an \<open>option\<close> type: \<open>None\<close> is
  "the C code does not return normally", and a claim that it returns is a claim that the result
  is \<open>Some\<close>. The \<open>int8_t\<close> codes the code itself returns stay values (see \<open>rc\<close>).
\<close>

section \<open>Collections of rules\<close>

named_theorems c_arith \<comment> \<open>facts on C integer expressions\<close>
named_theorems frame_rules \<comment> \<open>what an operation leaves alone\<close>

section \<open>C integer types\<close>

type_synonym u8 = "8 word"
type_synonym u16 = "16 word"
type_synonym u32 = "32 word"
type_synonym u64 = "64 word"

text \<open>The return codes of the memory manager (\<open>int8_t\<close>: -1 failed, 0 success, 1 busy).\<close>

type_synonym rc = int

abbreviation (input) rc_fail :: rc where "rc_fail \<equiv> - 1"
abbreviation (input) rc_ok :: rc where "rc_ok \<equiv> 0"
abbreviation (input) rc_busy :: rc where "rc_busy \<equiv> 1"

text \<open>Conversion of an \<open>int\<close> to \<open>uint64_t\<close>: sign extension to 64 bits.\<close>

definition int_to_u64 :: "u32 \<Rightarrow> u64" where
  "int_to_u64 w = scast w"

text \<open>
  The expression \<open>1 << n\<close>, an \<open>int\<close> shift, converted to \<open>uint64_t\<close>. For \<open>n < 31\<close> C fixes
  the value; for \<open>n = 31\<close> GCC documents the two's complement result. For \<open>32 \<le> n\<close> the shift
  is undefined, and the value is whatever the compiler emitted: it is the parameter \<open>ov\<close> of
  every operation that can reach such a count.
\<close>

definition c_one_shl :: "(nat \<Rightarrow> u64) \<Rightarrow> nat \<Rightarrow> u64" where
  "c_one_shl ov n = (if n < 32 then int_to_u64 (push_bit n 1) else ov n)"

text \<open>
  Two values the over-wide shift takes in practice: the x86 \<open>SHL\<close> instruction reads its count
  modulo 32, and GCC folds a constant over-wide shift to 0.
\<close>

definition x86_ov :: "nat \<Rightarrow> u64" where
  "x86_ov n = int_to_u64 (push_bit (n mod 32) 1)"

definition fold_ov :: "nat \<Rightarrow> u64" where
  "fold_ov n = 0"

text \<open>What a mask for a bit of a bitmap word has to be at least: not empty.\<close>

definition ov_marks :: "(nat \<Rightarrow> u64) \<Rightarrow> bool" where
  "ov_marks ov \<longleftrightarrow> (\<forall>n < 64. c_one_shl ov n \<noteq> 0)"

lemma int_to_u64_eq_0_iff [simp]: "int_to_u64 w = 0 \<longleftrightarrow> w = 0"
proof
  assume "int_to_u64 w = 0"
  then have "\<forall>n < 32. \<not> bit (int_to_u64 w) n" by simp
  then have "\<forall>n < 32. \<not> bit w n"
    by (auto simp: int_to_u64_def bit_simps)
  then show "w = 0" by (intro bit_word_eqI) simp
qed (simp add: int_to_u64_def)

lemma push_bit_1_neq_0: "n < 32 \<Longrightarrow> (push_bit n 1 :: u32) \<noteq> 0"
proof
  assume "n < 32" and "(push_bit n 1 :: u32) = 0"
  then have "\<not> bit (push_bit n 1 :: u32) n" by simp
  with \<open>n < 32\<close> show False by (simp add: bit_simps)
qed

lemma c_one_shl_low: "n < 32 \<Longrightarrow> c_one_shl ov n \<noteq> 0"
  using push_bit_1_neq_0 [of n] by (simp add: c_one_shl_def)

lemma ov_marks_x86 [simp]: "ov_marks x86_ov"
  using push_bit_1_neq_0
  by (auto simp: ov_marks_def c_one_shl_def x86_ov_def)

lemma ov_marksD: "ov_marks ov \<Longrightarrow> n < 64 \<Longrightarrow> c_one_shl ov n \<noteq> 0"
  by (simp add: ov_marks_def)

lemma bit_c_one_shl:
  "n < 31 \<Longrightarrow> bit (c_one_shl ov n) k \<longleftrightarrow> k = n"
  by (auto simp: c_one_shl_def int_to_u64_def bit_simps min_def)

lemma c_one_shl_push: "n < 31 \<Longrightarrow> c_one_shl ov n = push_bit n 1"
  by (rule bit_word_eqI) (auto simp: bit_c_one_shl bit_simps)

section \<open>Words\<close>

lemma xor_eq_or_if_disjoint: "a AND b = 0 \<Longrightarrow> a XOR b = a OR b" for a b :: "'a::len word"
proof (rule bit_word_eqI)
  fix n assume d: "a AND b = 0" and "n < LENGTH('a)"
  then have "\<not> (bit a n \<and> bit b n)"
    by (metis bit_and_iff bit_0_eq bot_apply bot_bool_def)
  then show "bit (a XOR b) n = bit (a OR b) n"
    by (auto simp: bit_simps)
qed

lemma and_or_absorb_neq_0: "b AND m \<noteq> 0 \<Longrightarrow> (b OR c) AND m \<noteq> 0" for b :: "'a::len word"
proof
  assume "b AND m \<noteq> 0" and z: "(b OR c) AND m = 0"
  have "b AND m = b AND ((b OR c) AND m)"
    by (rule bit_word_eqI) (auto simp: bit_simps)
  with z have "b AND m = 0" by simp
  with \<open>b AND m \<noteq> 0\<close> show False by simp
qed

lemma or_and_self: "(b OR m) AND m = m" for b :: "'a::len word"
  by (rule bit_word_eqI) (auto simp: bit_simps)

lemma unat_word_less: "unat (w :: 'a::len word) < 2 ^ LENGTH('a)"
  by (metis unsigned_less)

lemma unat_u64_less [simp]: "unat (w :: u64) < 18446744073709551616"
  using unat_word_less [of w] by simp

lemma unat_drop_bit_div: "unat (drop_bit n w) = unat w div 2 ^ n" for w :: "'a::len word"
  by (metis drop_bit_eq_div unsigned_drop_bit_eq take_bit_nat_eq_self unat_word_less)

lemma unat_add_no_wrap:
  "unat a + unat b < 2 ^ LENGTH('a) \<Longrightarrow> unat (a + b) = unat a + unat b"
  for a b :: "'a::len word"
  by (simp add: unat_word_ariths)

lemma of_nat_inj_word:
  "m < 2 ^ LENGTH('a) \<Longrightarrow> n < 2 ^ LENGTH('a) \<Longrightarrow>
    (of_nat m :: 'a::len word) = of_nat n \<longleftrightarrow> m = n"
  by (auto simp: word_unat_eq_iff unat_of_nat take_bit_nat_eq_self)

lemma unat_of_nat_u64: "n < 2 ^ 64 \<Longrightarrow> unat (of_nat n :: u64) = n"
  by (simp add: unat_of_nat take_bit_nat_eq_self)

lemma of_nat_less_u64 [c_arith]: "n < 2 ^ 64 \<Longrightarrow> w < (of_nat n :: u64) \<longleftrightarrow> unat w < n"
  by (simp add: word_less_nat_alt unat_of_nat_u64)

lemma of_nat_div_u64 [c_arith]:
  "n < 2 ^ 64 \<Longrightarrow> m < 2 ^ 64 \<Longrightarrow> (of_nat n :: u64) div of_nat m = of_nat (n div m)"
  by (simp add: word_unat_eq_iff unat_div unat_of_nat_u64 le_less_trans [OF div_le_dividend])

lemma triple_div_u64:
  assumes "n < 2 ^ 64"
  shows "(of_nat n :: u64) = of_nat n div 3 * 3 \<longleftrightarrow> 3 dvd n"
proof -
  have "n div 3 * 3 < 2 ^ 64" using assms by (meson div_times_less_eq_dividend le_less_trans)
  moreover have "(of_nat n :: u64) div 3 * 3 = of_nat (n div 3 * 3)"
    using of_nat_div_u64 [OF assms, of 3] by simp
  moreover have "(of_nat n :: u64) = of_nat (n div 3 * 3) \<longleftrightarrow> n = n div 3 * 3"
    using assms calculation(1) by (intro of_nat_inj_word) simp_all
  moreover have "n = n div 3 * 3 \<longleftrightarrow> 3 dvd n"
    by (metis dvd_div_mult_self dvd_triv_right)
  ultimately show ?thesis by simp
qed

end
