(* ===== verification/LibC_String.thy ===== *)
theory LibC_String
  imports Prelude
begin

text \<open>
  \<open>libc/string\<close> (the C library linked into the kernel as libk) and the bootloader's own
  \<open>memcpy\<close>. Memory is a byte store indexed by 64-bit addresses; a pointer is an address and
  \<open>p[i]\<close> is the byte at \<open>p + i\<close>, with the wrap-around of 64-bit addresses.
\<close>

section \<open>The functions\<close>

type_synonym byte_mem = "u64 \<Rightarrow> u8"

text \<open>\<open>strlen\<close>: the loop counts up to the first NUL; a memory without one is never left.\<close>

partial_function (option) strlen_loop :: "byte_mem \<Rightarrow> u64 \<Rightarrow> u64 \<Rightarrow> u64 option" where
  "strlen_loop m str len =
     (if m (str + len) \<noteq> 0 then strlen_loop m str (len + 1) else Some len)"

declare strlen_loop.simps [code]

definition strlen :: "byte_mem \<Rightarrow> u64 \<Rightarrow> u64 option" where
  "strlen m str = strlen_loop m str 0"

text \<open>\<open>memcmp\<close>: the first differing byte decides.\<close>

fun memcmp_loop :: "byte_mem \<Rightarrow> u64 \<Rightarrow> u64 \<Rightarrow> nat list \<Rightarrow> int" where
  "memcmp_loop m a b [] = 0"
| "memcmp_loop m a b (i # is) =
     (if m (a + of_nat i) < m (b + of_nat i) then - 1
      else if m (a + of_nat i) > m (b + of_nat i) then 1
      else memcmp_loop m a b is)"

definition memcmp :: "byte_mem \<Rightarrow> u64 \<Rightarrow> u64 \<Rightarrow> u64 \<Rightarrow> int" where
  "memcmp m a b len = memcmp_loop m a b [0..<unat len]"

text \<open>
  \<open>memcpy\<close> of the kernel's libc. The body of the loop over \<open>i\<close> reads and writes index
  \<open>len\<close>, not \<open>i\<close>.
\<close>

definition memcpy :: "byte_mem \<Rightarrow> u64 \<Rightarrow> u64 \<Rightarrow> u64 \<Rightarrow> byte_mem" where
  "memcpy m dest source len =
     fold (\<lambda>i m. m(dest + len := m (source + len))) [0..<unat len] m"

text \<open>The assignment \<open>dest[i] = source[i]\<close>.\<close>

definition copy_byte :: "u64 \<Rightarrow> u64 \<Rightarrow> nat \<Rightarrow> byte_mem \<Rightarrow> byte_mem" where
  "copy_byte dest source i m = m(dest + of_nat i := m (source + of_nat i))"

text \<open>\<open>memcpy\<close> of the bootloader.\<close>

definition boot_memcpy :: "byte_mem \<Rightarrow> u64 \<Rightarrow> u64 \<Rightarrow> u64 \<Rightarrow> byte_mem" where
  "boot_memcpy m dest source sz =
     fold (copy_byte dest source) [0..<unat sz] m"

text \<open>\<open>memmove\<close>: upwards when the destination is below the source, downwards otherwise.\<close>

definition memmove :: "byte_mem \<Rightarrow> u64 \<Rightarrow> u64 \<Rightarrow> u64 \<Rightarrow> byte_mem" where
  "memmove m dest source len =
     (if dest < source
      then fold (copy_byte dest source) [0..<unat len] m
      else fold (\<lambda>i. copy_byte dest source (i - 1)) (rev [1..<unat len + 1]) m)"

definition memset :: "byte_mem \<Rightarrow> u64 \<Rightarrow> u32 \<Rightarrow> u64 \<Rightarrow> byte_mem" where
  "memset m dest byte len =
     fold (\<lambda>i m. m(dest + of_nat i := ucast byte)) [0..<unat len] m"

section \<open>Addresses of a region\<close>

text \<open>Within a region of at most \<open>2^64\<close> bytes the index determines the address.\<close>

lemma addr_inj: "i < 2 ^ 64 \<Longrightarrow> j < 2 ^ 64 \<Longrightarrow> (p + of_nat i :: u64) = p + of_nat j \<longleftrightarrow> i = j"
  using of_nat_inj_word [where 'a = 64] by simp

lemma unat_addr:
  "unat p + i < 2 ^ 64 \<Longrightarrow> unat (p + of_nat i :: u64) = unat p + i"
  by (subst unat_add_no_wrap) (simp_all add: unat_of_nat take_bit_nat_eq_self)

section \<open>strlen\<close>

definition c_string_at :: "byte_mem \<Rightarrow> u64 \<Rightarrow> u8 list \<Rightarrow> bool" where
  "c_string_at m p s \<longleftrightarrow> length s < 2 ^ 64 \<and> 0 \<notin> set s \<and>
     (\<forall>i < length s. m (p + of_nat i) = s ! i) \<and> m (p + of_nat (length s)) = 0"

lemma strlen_loop_from:
  assumes "c_string_at m p s" and "i \<le> length s"
  shows "strlen_loop m p (of_nat i) = Some (of_nat (length s))"
  using assms(2)
proof (induction "length s - i" arbitrary: i)
  case 0
  with assms(1) show ?case
    by (subst strlen_loop.simps) (simp add: c_string_at_def)
next
  case (Suc k)
  then have i: "i < length s" by simp
  then have "m (p + of_nat i) \<noteq> 0"
    using assms(1) by (metis c_string_at_def nth_mem)
  moreover have "strlen_loop m p (of_nat (Suc i)) = Some (of_nat (length s))"
    using Suc.hyps(1) [of "Suc i"] Suc.hyps(2) i by simp
  ultimately show ?case
    by (subst strlen_loop.simps) (simp add: add.commute)
qed

lemma strlen_c_string: "c_string_at m p s \<Longrightarrow> strlen m p = Some (of_nat (length s))"
  using strlen_loop_from [of m p s 0] by (simp add: strlen_def)

section \<open>Counted loops that store one byte per turn\<close>

text \<open>An ascending copy, as the bootloader's \<open>memcpy\<close> and \<open>memmove\<close> run it.\<close>

lemma copy_up:
  assumes "n < 2 ^ 64"
    and "\<And>i j. i < j \<Longrightarrow> j < n \<Longrightarrow> d + of_nat i \<noteq> s + of_nat j"
  shows "fold (copy_byte d s) [0..<n] m a =
    (if \<exists>i < n. a = d + of_nat i then m (s + (a - d)) else m (a :: u64) :: u8)"
  using assms
proof (induction n arbitrary: a)
  case 0
  then show ?case by simp
next
  case (Suc n)
  let ?f = "fold (copy_byte d s) [0..<n] m"
  have IH: "?f a = (if \<exists>i < n. a = d + of_nat i then m (s + (a - d)) else m a)" for a
    by (rule Suc.IH) (use Suc.prems in auto)
  have "\<not> (\<exists>i < n. s + of_nat n = d + of_nat i)"
    using Suc.prems(2) [of _ n] by (metis lessI)
  then have src: "?f (s + of_nat n) = m (s + of_nat n)"
    by (subst IH) auto
  have "fold (copy_byte d s) [0..<Suc n] m a =
      (if a = d + of_nat n then m (s + of_nat n) else ?f a)"
    using src by (simp add: copy_byte_def)
  then show ?case by (auto simp: IH less_Suc_eq simp del: upt_Suc)
qed

text \<open>A descending copy, as the other branch of \<open>memmove\<close> runs it.\<close>

lemma copy_down:
  assumes "n < 2 ^ 64"
    and "\<And>i j. i < j \<Longrightarrow> j < n \<Longrightarrow> d + of_nat j \<noteq> s + of_nat i"
  shows "fold (copy_byte d s) (rev [0..<n]) m a =
    (if \<exists>i < n. a = d + of_nat i then m (s + (a - d)) else m (a :: u64) :: u8)"
  using assms
proof (induction n arbitrary: m)
  case 0
  then show ?case by simp
next
  case (Suc n)
  let ?m = "copy_byte d s n m"
  have "fold (copy_byte d s) (rev [0..<Suc n]) m a = fold (copy_byte d s) (rev [0..<n]) ?m a"
    by simp
  also have "\<dots> = (if \<exists>i < n. a = d + of_nat i then ?m (s + (a - d)) else ?m a)"
    by (rule Suc.IH) (use Suc.prems in auto)
  also have "\<dots> = (if \<exists>i < Suc n. a = d + of_nat i then m (s + (a - d)) else m a)"
  proof (cases "\<exists>i < n. a = d + of_nat i")
    case True
    then obtain i where i: "i < n" "a = d + of_nat i" by auto
    then have "d + of_nat n \<noteq> s + of_nat i"
      using Suc.prems(2) [of i n] by simp
    then have "?m (s + (a - d)) = m (s + (a - d))"
      using i by (simp add: copy_byte_def)
    with True show ?thesis by (auto simp: less_Suc_eq)
  next
    case False
    then show ?thesis by (auto simp: copy_byte_def less_Suc_eq)
  qed
  finally show ?case .
qed

lemma fold_rev_shift:
  "fold (\<lambda>i. f (i - 1)) (rev [1..<n + 1]) m = fold f (rev [0..<n]) m"
proof -
  have "rev [1..<n + 1] = map Suc (rev [0..<n])"
    by (induction n) simp_all
  then show ?thesis by (simp add: fold_map comp_def)
qed

section \<open>memmove, memset, memcpy\<close>

definition fits :: "u64 \<Rightarrow> u64 \<Rightarrow> bool" where
  "fits p len \<longleftrightarrow> unat p + unat len \<le> 2 ^ 64"

lemma fits_addr: "fits p len \<Longrightarrow> i < unat len \<Longrightarrow> unat (p + of_nat i) = unat p + i"
  by (intro unat_addr) (simp add: fits_def)

lemma memmove_copies:
  assumes "fits dest len" and "fits source len"
  shows "memmove m dest source len a =
    (if \<exists>i < unat len. a = dest + of_nat i then m (source + (a - dest)) else m a)"
proof (cases "dest < source")
  case True
  have "dest + of_nat i \<noteq> source + of_nat j" if "i < j" "j < unat len" for i j
    using that assms True fits_addr [of dest len i] fits_addr [of source len j]
    by (auto simp: word_less_nat_alt word_unat_eq_iff)
  then have "fold (copy_byte dest source) [0..<unat len] m a =
      (if \<exists>i < unat len. a = dest + of_nat i then m (source + (a - dest)) else m a)"
    by (intro copy_up) simp_all
  with True show ?thesis by (simp add: memmove_def)
next
  case False
  have "dest + of_nat j \<noteq> source + of_nat i" if "i < j" "j < unat len" for i j
    using that assms False fits_addr [of dest len j] fits_addr [of source len i]
    by (auto simp: word_less_nat_alt word_unat_eq_iff)
  then have "fold (copy_byte dest source) (rev [0..<unat len]) m a =
      (if \<exists>i < unat len. a = dest + of_nat i then m (source + (a - dest)) else m a)"
    by (intro copy_down) (simp_all)
  with False show ?thesis
    by (simp only: memmove_def fold_rev_shift if_False)
qed

lemma boot_memcpy_copies:
  assumes "fits dest sz" and "fits source sz"
    and "\<And>i j. i < unat sz \<Longrightarrow> j < unat sz \<Longrightarrow> dest + of_nat i \<noteq> source + of_nat j"
  shows "boot_memcpy m dest source sz a =
    (if \<exists>i < unat sz. a = dest + of_nat i then m (source + (a - dest)) else m a)"
  using assms unfolding boot_memcpy_def
  by (intro copy_up) (simp_all)

lemma memset_fills:
  "memset m dest byte len a =
    (if \<exists>i < unat len. a = dest + of_nat i then ucast byte else m a)"
proof -
  have "fold (\<lambda>i m. m(dest + of_nat i := ucast byte)) [0..<n] m a =
      (if \<exists>i < n. a = dest + of_nat i then ucast byte else m a)" for n
    by (induction n) (auto simp: less_Suc_eq)
  then show ?thesis by (simp add: memset_def)
qed

lemma memcpy_only_at_len:
  "memcpy m dest source len = (if len = 0 then m else m(dest + len := m (source + len)))"
proof -
  have idem: "fold (\<lambda>i m. m(dest + len := m (source + len))) [0..<Suc n] m =
      m(dest + len := m (source + len))" for n
  proof (induction n)
    case (Suc n)
    then show ?case by (simp only: upt_Suc_append fold_append) auto
  qed simp
  show ?thesis
  proof (cases "len = 0")
    case False
    then obtain n where "unat len = Suc n"
      by (metis not0_implies_Suc unat_eq_zero)
    with idem [of n] False show ?thesis by (simp add: memcpy_def del: upt_Suc)
  qed (simp add: memcpy_def)
qed

section \<open>memcmp\<close>

text \<open>The comparison the C standard asks for: lexicographic, on unsigned bytes.\<close>

fun lex_cmp :: "u8 list \<Rightarrow> u8 list \<Rightarrow> int" where
  "lex_cmp (x # xs) (y # ys) = (if x < y then - 1 else if y < x then 1 else lex_cmp xs ys)"
| "lex_cmp _ _ = 0"

definition bytes_at :: "byte_mem \<Rightarrow> u64 \<Rightarrow> u64 \<Rightarrow> u8 list" where
  "bytes_at m p len = map (\<lambda>i. m (p + of_nat i)) [0..<unat len]"

lemma memcmp_lex: "memcmp m a b len = lex_cmp (bytes_at m a len) (bytes_at m b len)"
proof -
  have "memcmp_loop m a b is =
      lex_cmp (map (\<lambda>i. m (a + of_nat i)) is) (map (\<lambda>i. m (b + of_nat i)) is)" for "is"
    by (induction "is") auto
  then show ?thesis by (simp add: memcmp_def bytes_at_def)
qed

lemma lex_cmp_refl: "length xs = length ys \<Longrightarrow> lex_cmp xs ys = 0 \<longleftrightarrow> xs = ys"
  by (induction xs ys rule: list_induct2) auto

lemma lex_cmp_swap: "lex_cmp xs ys = - lex_cmp ys xs"
  by (induction xs ys rule: lex_cmp.induct) auto

section \<open>Properties\<close>

text \<open>C34: \<open>memmove\<close> copies right for every overlap: the destination region holds what the source
  region held before the call, and no other byte changes.\<close>

theorem memmove_overlap:
  assumes "fits dest len" and "fits source len"
  shows "bytes_at (memmove m dest source len) dest len = bytes_at m source len \<and>
    (\<forall>a. (\<forall>i < unat len. a \<noteq> dest + of_nat i) \<longrightarrow> memmove m dest source len a = m a)"
  using memmove_copies [OF assms, of m] by (auto simp: bytes_at_def)

theorem memmove_overlap_witness:
  "bytes_at (memmove (\<lambda>a. if a = 16 then 7 else 9) 17 16 3) 17 3 = [7, 9, 9]"
proof -
  have "fits 17 3" "fits 16 3" by (simp_all add: fits_def)
  from memmove_overlap [OF this, of "\<lambda>a. if a = 16 then 7 else 9"]
  show ?thesis by (simp add: bytes_at_def upt_rec)
qed

text \<open>The bootloader's \<open>memcpy\<close>, which loads the kernel's segments, copies the source region
  to a destination that does not overlap it and changes nothing else.\<close>

theorem boot_memcpy_region:
  assumes "fits dest sz" and "fits source sz"
    and "\<And>i j. i < unat sz \<Longrightarrow> j < unat sz \<Longrightarrow> dest + of_nat i \<noteq> source + of_nat j"
  shows "bytes_at (boot_memcpy m dest source sz) dest sz = bytes_at m source sz \<and>
    (\<forall>a. (\<forall>i < unat sz. a \<noteq> dest + of_nat i) \<longrightarrow> boot_memcpy m dest source sz a = m a)"
  using boot_memcpy_copies [OF assms, of m] by (auto simp: bytes_at_def)

theorem boot_memcpy_region_witness:
  "bytes_at (boot_memcpy ucast 64 3 2) 64 2 = [3, 4]"
proof -
  have "fits 64 2" "fits 3 2" by (simp_all add: fits_def)
  moreover have "(64 :: u64) + of_nat i \<noteq> 3 + of_nat j"
    if "i < unat (2 :: u64)" "j < unat (2 :: u64)" for i j
  proof -
    have "i = 0 \<or> i = 1" "j = 0 \<or> j = 1" using that by auto
    then show ?thesis by auto
  qed
  ultimately show ?thesis
    using boot_memcpy_region [of 64 2 3 ucast] by (simp add: bytes_at_def upt_rec)
qed

text \<open>C36: the kernel's \<open>memcpy\<close> copies nothing: the loop reads and writes index \<open>len\<close> in every
  turn, so the call changes at most the one byte after the destination region and leaves every
  byte it was asked to copy as it was.\<close>

theorem memcpy_copies_nothing:
  "memcpy m dest source len = (if len = 0 then m else m(dest + len := m (source + len))) \<and>
   bytes_at (memcpy m dest source len) dest len = bytes_at m dest len"
proof -
  have "dest + of_nat i \<noteq> dest + len" if "i < unat len" for i
  proof
    assume "dest + of_nat i = dest + len"
    then have "of_nat i = len" by simp
    then have "unat (of_nat i :: u64) = unat len" by simp
    with that unat_u64_less [of len] show False
      by (simp add: unat_of_nat take_bit_nat_eq_self)
  qed
  then show ?thesis by (auto simp: memcpy_only_at_len bytes_at_def)
qed

text \<open>C35: \<open>memcmp\<close> is the lexicographic comparison of the two regions as unsigned bytes: it
  returns 0 exactly when they are equal, and swapping the arguments negates the result.\<close>

theorem memcmp_order:
  "memcmp m a b len = lex_cmp (bytes_at m a len) (bytes_at m b len) \<and>
   (memcmp m a b len = 0 \<longleftrightarrow> bytes_at m a len = bytes_at m b len) \<and>
   memcmp m b a len = - memcmp m a b len"
  using lex_cmp_refl [of "bytes_at m a len" "bytes_at m b len"]
    lex_cmp_swap [of "bytes_at m b len" "bytes_at m a len"]
  by (simp add: memcmp_lex bytes_at_def)

text \<open>\<open>strlen\<close> of a NUL-terminated string ends and returns its length.\<close>

theorem strlen_terminated:
  assumes "c_string_at m p s"
  shows "strlen m p = Some (of_nat (length s))"
  by (rule strlen_c_string [OF assms])

theorem strlen_terminated_witness:
  "strlen (\<lambda>a. if a < 5 then 65 else 0) 2 = Some 3"
proof -
  have "c_string_at (\<lambda>a. if a < 5 then 65 else 0) 2 [65, 65, 65]"
    by (auto simp: c_string_at_def less_Suc_eq numeral_3_eq_3)
  from strlen_terminated [OF this] show ?thesis by simp
qed

end
