(* ===== verification/Printf.thy ===== *)
theory Printf
  imports LibC_String
begin

text \<open>
  \<open>libc/stdio/printf.c\<close>: the format interpreter every kernel message goes through. The
  position \<open>index\<close> in the format is represented by the rest of the format from there on;
  reading \<open>format[index]\<close> at the end gives the terminating NUL. A variable argument occupies
  one 64-bit slot, as in the SysV calling convention; asking for an argument that was not
  passed, dividing by 0, reading past a digit table and a loop that never ends are \<open>None\<close>.
\<close>

section \<open>State and directives\<close>

datatype FormatType =
    CharT | FloatExp | FloatFixed | FloatOpt | HexFloat | Int16 | Int10 | Int8 | Int2
  | UInt10 | StringT | Percent | NChars | FormatTypeMax

datatype Length =
    HalfHalf | Half | Long | LongLong | LongDouble | SizeT | IntMaxT | PtrDiffT | LengthMax

text \<open>What \<open>printf\<close> has done so far: the bytes given to \<open>putchar\<close>, \<open>num_chars_written\<close>, the
  arguments not yet taken, and memory (read by \<open>%s\<close>, written by \<open>%n\<close>).\<close>

record pf_state =
  out :: string
  num_chars_written :: u32
  va_list :: "u64 list"
  pmem :: byte_mem

text \<open>The local variables of one conversion.\<close>

record directive =
  format_type :: FormatType
  format_length :: Length
  format_width :: u64
  format_precision :: u64
  num_prefix :: bool
  left_aligned :: bool
  zero_fill :: bool
  prepend_pos :: bool
  prepend_space :: bool
  capitals :: bool
  thousands_separator :: bool

definition fresh_directive :: directive where
  "fresh_directive = \<lparr>format_type = FormatTypeMax, format_length = LengthMax,
     format_width = 0, format_precision = 0, num_prefix = False, left_aligned = False,
     zero_fill = False, prepend_pos = False, prepend_space = False, capitals = False,
     thousands_separator = False\<rparr>"

text \<open>\<open>putchar(c); num_chars_written++;\<close>\<close>

definition emit :: "char \<Rightarrow> pf_state \<Rightarrow> pf_state" where
  "emit c s = s\<lparr>out := out s @ [c], num_chars_written := num_chars_written s + 1\<rparr>"

text \<open>\<open>va_arg\<close>: the next slot.\<close>

definition va_arg :: "pf_state \<Rightarrow> (u64 \<times> pf_state) option" where
  "va_arg s = (case va_list s of [] \<Rightarrow> None | a # as \<Rightarrow> Some (a, s\<lparr>va_list := as\<rparr>))"

text \<open>The NUL that terminates the format.\<close>

abbreviation NUL :: char where "NUL \<equiv> CHR 0x00"

definition at :: "string \<Rightarrow> char" where
  "at fmt = (case fmt of [] \<Rightarrow> NUL | c # _ \<Rightarrow> c)"

section \<open>Parsing a conversion\<close>

text \<open>The flags field.\<close>

fun parse_flags :: "string \<Rightarrow> directive \<Rightarrow> directive \<times> string" where
  "parse_flags [] d = (d, [])"
| "parse_flags (c # cs) d =
     (if c = CHR ''-'' then parse_flags cs (d\<lparr>left_aligned := True\<rparr>)
      else if c = CHR ''+'' then parse_flags cs (d\<lparr>prepend_pos := True\<rparr>)
      else if c = CHR '' '' then parse_flags cs (d\<lparr>prepend_space := True\<rparr>)
      else if c = CHR ''0'' then parse_flags cs (d\<lparr>zero_fill := True\<rparr>)
      else if c = CHR 0x27 then parse_flags cs (d\<lparr>thousands_separator := True\<rparr>)
      else if c = CHR ''#'' then parse_flags cs (d\<lparr>num_prefix := True\<rparr>)
      else (d, c # cs))"

definition is_digit :: "char \<Rightarrow> bool" where
  "is_digit c \<longleftrightarrow> 48 \<le> (of_char c :: nat) \<and> (of_char c :: nat) \<le> 57"

fun parse_digits :: "u64 \<Rightarrow> string \<Rightarrow> u64 \<times> string" where
  "parse_digits acc [] = (acc, [])"
| "parse_digits acc (c # cs) =
     (if is_digit c then parse_digits (acc * 10 + of_nat (of_char c - 48)) cs
      else (acc, c # cs))"

text \<open>The width: \<open>*\<close> takes an \<open>unsigned int\<close> argument.\<close>

definition parse_width ::
    "string \<Rightarrow> directive \<Rightarrow> pf_state \<Rightarrow> (directive \<times> string \<times> pf_state) option" where
  "parse_width fmt d s =
     (if at fmt = CHR ''*''
      then do {
        (a, s) \<leftarrow> va_arg s;
        Some (d\<lparr>format_width := ucast (ucast a :: u32)\<rparr>, tl fmt, s)
      }
      else let (w, fmt) = parse_digits (format_width d) fmt
           in Some (d\<lparr>format_width := w\<rparr>, fmt, s))"

definition parse_precision :: "string \<Rightarrow> directive \<Rightarrow> directive \<times> string" where
  "parse_precision fmt d =
     (if at fmt = CHR ''.''
      then let (p, fmt) = parse_digits (format_precision d) (tl fmt)
           in (d\<lparr>format_precision := p\<rparr>, fmt)
      else (d, fmt))"

definition parse_length :: "string \<Rightarrow> directive \<Rightarrow> directive \<times> string" where
  "parse_length fmt d =
     (if at fmt = CHR ''h'' then
        (if at (tl fmt) = CHR ''h'' then (d\<lparr>format_length := HalfHalf\<rparr>, tl (tl fmt))
         else (d\<lparr>format_length := Half\<rparr>, tl fmt))
      else if at fmt = CHR ''l'' then
        (if at (tl fmt) = CHR ''l'' then (d\<lparr>format_length := LongLong\<rparr>, tl (tl fmt))
         else (d\<lparr>format_length := Long\<rparr>, tl fmt))
      else if at fmt = CHR ''L'' then (d\<lparr>format_length := LongDouble\<rparr>, tl fmt)
      else if at fmt = CHR ''z'' then (d\<lparr>format_length := SizeT\<rparr>, tl fmt)
      else if at fmt = CHR ''j'' then (d\<lparr>format_length := IntMaxT\<rparr>, tl fmt)
      else if at fmt = CHR ''t'' then (d\<lparr>format_length := PtrDiffT\<rparr>, tl fmt)
      else (d, fmt))"

text \<open>The conversion character itself is not consumed: the main loop steps over it.\<close>

definition parse_conversion :: "char \<Rightarrow> directive \<Rightarrow> directive" where
  "parse_conversion c d =
     (if c = CHR ''%'' then d\<lparr>format_type := Percent\<rparr>
      else if c = CHR ''d'' \<or> c = CHR ''i'' then d\<lparr>format_type := Int10\<rparr>
      else if c = CHR ''u'' then d\<lparr>format_type := UInt10\<rparr>
      else if c = CHR ''f'' then d\<lparr>format_type := FloatFixed\<rparr>
      else if c = CHR ''F'' then d\<lparr>format_type := FloatFixed, capitals := True\<rparr>
      else if c = CHR ''e'' then d\<lparr>format_type := FloatExp\<rparr>
      else if c = CHR ''E'' then d\<lparr>format_type := FloatExp, capitals := True\<rparr>
      else if c = CHR ''g'' then d\<lparr>format_type := FloatOpt\<rparr>
      else if c = CHR ''G'' then d\<lparr>format_type := FloatOpt, capitals := True\<rparr>
      else if c = CHR ''x'' then d\<lparr>format_type := Int16\<rparr>
      else if c = CHR ''X'' then d\<lparr>format_type := Int16, capitals := True\<rparr>
      else if c = CHR ''o'' then d\<lparr>format_type := Int8\<rparr>
      else if c = CHR ''b'' then d\<lparr>format_type := Int2\<rparr>
      else if c = CHR ''s'' then d\<lparr>format_type := StringT\<rparr>
      else if c = CHR ''c'' then d\<lparr>format_type := CharT\<rparr>
      else if c = CHR ''a'' then d\<lparr>format_type := HexFloat\<rparr>
      else if c = CHR ''A'' then d\<lparr>format_type := HexFloat, capitals := True\<rparr>
      else if c = CHR ''n'' then d\<lparr>format_type := NChars\<rparr>
      else d)"

section \<open>Fetching an integer argument\<close>

text \<open>An \<open>int\<close> argument is the low half of its slot.\<close>

definition low_int :: "u64 \<Rightarrow> u32" where
  "low_int a = ucast a"

text \<open>
  \<open>%d\<close>: sign and magnitude. The \<open>h\<close> and \<open>hh\<close> forms negate in \<open>int\<close> before widening,
  the others in 64 bits (negation of the most negative value is taken as two's complement).
\<close>

definition fetch_signed :: "Length \<Rightarrow> u64 \<Rightarrow> bool \<times> u64" where
  "fetch_signed len a =
     (if len = HalfHalf \<or> len = Half then
        (let num_in = low_int a in
         if sint num_in < 0 then (True, scast (- num_in)) else (False, scast num_in))
      else if len = Long \<or> len = LongLong \<or> len = SizeT \<or> len = IntMaxT \<or> len = PtrDiffT then
        (if sint a < 0 then (True, - a) else (False, a))
      else
        (let num_in = scast (low_int a) :: u64 in
         if sint num_in < 0 then (True, - num_in) else (False, num_in)))"

text \<open>\<open>%u\<close>: an unsigned value.\<close>

definition fetch_unsigned :: "Length \<Rightarrow> u64 \<Rightarrow> u64" where
  "fetch_unsigned len a =
     (if len = Long \<or> len = LongLong \<or> len = SizeT \<or> len = IntMaxT \<or> len = PtrDiffT then a
      else ucast (low_int a))"

text \<open>\<open>%x %o %b\<close>: fetched as a signed type and converted to \<open>unsigned long long\<close>.\<close>

definition fetch_bits :: "Length \<Rightarrow> u64 \<Rightarrow> u64" where
  "fetch_bits len a =
     (if len = Long \<or> len = LongLong \<or> len = SizeT \<or> len = IntMaxT \<or> len = PtrDiffT then a
      else scast (low_int a))"

section \<open>Padding\<close>

text \<open>\<open>while ((signed long long) (format_width - exp) > 0)\<close>: pad on the left.\<close>

lemma sint_minus_1: "0 < sint (x :: u64) \<Longrightarrow> sint (x - 1) = sint x - 1"
proof -
  assume "0 < sint x"
  moreover have "sint x < 2 ^ 63" using sint_less [of x] by simp
  ultimately show ?thesis
    by (simp add: sint_word_ariths signed_take_bit_int_eq_self_iff)
qed

function pad_left ::
    "bool \<Rightarrow> char \<Rightarrow> u64 \<Rightarrow> u64 \<Rightarrow> pf_state \<Rightarrow> u64 \<times> pf_state" where
  "pad_left separators zfill_char width e s =
     (if 0 < sint (width - e)
      then let s = (if separators \<and> e = (e div 3) * 3 \<and> e \<noteq> 0 then emit CHR '','' s else s)
           in pad_left separators zfill_char width (e + 1) (emit zfill_char s)
      else (e, s))"
  by pat_completeness auto
termination
proof (relation "measure (\<lambda>(p, z, w, e, s). nat (sint (w - e)))")
  fix separators zfill_char and width e :: u64 and s x
  assume "0 < sint (width - e)"
  then have "sint (width - (e + 1)) = sint (width - e) - 1"
    using sint_minus_1 [of "width - e"] by (simp add: algebra_simps)
  with \<open>0 < sint (width - e)\<close>
  show "((separators, zfill_char, width, e + 1, emit zfill_char x),
      (separators, zfill_char, width, e, s)) \<in> measure (\<lambda>(p, z, w, e, s). nat (sint (w - e)))"
    by simp
qed simp

declare pad_left.simps [simp del]

text \<open>\<open>while (exp > 0) putchar(' ')\<close> with nothing that changes \<open>exp\<close>.\<close>

partial_function (option) pad_right_spin :: "u64 \<Rightarrow> pf_state \<Rightarrow> pf_state option" where
  "pad_right_spin e s = (if e > 0 then pad_right_spin e (emit CHR '' '' s) else Some s)"

declare pad_right_spin.simps [code]

text \<open>The hexadecimal case does count \<open>exp\<close> down.\<close>

function pad_right_count :: "u64 \<Rightarrow> pf_state \<Rightarrow> pf_state" where
  "pad_right_count e s = (if e > 0 then pad_right_count (e - 1) (emit CHR '' '' s) else s)"
  by pat_completeness auto
termination
  by (relation "measure (\<lambda>(e, s). unat e)") (auto simp: word_greater_zero_iff unat_minus_one unat_gt_0)

declare pad_right_count.simps [simp del]

section \<open>Decimal output\<close>

text \<open>Find the power of ten above the number: \<open>exp\<close> digits, \<open>val = 10 ^ exp\<close>.\<close>

partial_function (option) dec_scale :: "u64 \<Rightarrow> u64 \<Rightarrow> u64 \<Rightarrow> (u64 \<times> u64) option" where
  "dec_scale num e val =
     (let e = e + 1; val = val * 10
      in if val > num then Some (e, val) else dec_scale num e val)"

declare dec_scale.simps [code]

text \<open>Print the digits from the top; \<open>num / val\<close> with \<open>val = 0\<close> traps.\<close>

function dec_digits ::
    "bool \<Rightarrow> u64 \<Rightarrow> u64 \<Rightarrow> u64 \<Rightarrow> pf_state \<Rightarrow> (u64 \<times> pf_state) option" where
  "dec_digits separators num e val s =
     (if val > 1
      then
        let val = val div 10; e = e - 1
        in if val = 0 then None
           else
             let s = emit (char_of (unat (48 + num div val))) s;
                 num = num mod val;
                 s = (if separators \<and> e = (e div 3) * 3 \<and> e \<noteq> 0 then emit CHR '','' s else s)
             in dec_digits separators num e val s
      else Some (e, s))"
  by pat_completeness auto
termination
  by (relation "measure (\<lambda>(p, n, e, v, s). unat v)") (auto simp: unat_div word_less_nat_alt)

declare dec_digits.simps [simp del]

definition zfill :: "directive \<Rightarrow> char" where
  "zfill d = (if zero_fill d then CHR ''0'' else CHR '' '')"

text \<open>
  From the scale to the trailing padding, the same statements in the \<open>Int10\<close> and \<open>UInt10\<close>
  cases. The local \<open>first\<close> is true throughout, so the separator inside the padding loop is
  never written.
\<close>

definition print_decimal :: "directive \<Rightarrow> u64 \<Rightarrow> u64 \<Rightarrow> pf_state \<Rightarrow> pf_state option" where
  "print_decimal d width num s =
     do {
       (e, val) \<leftarrow> dec_scale num 0 1;
       let first = True;
       let (e, s) = (if \<not> left_aligned d
                     then pad_left (\<not> first \<and> thousands_separator d) (zfill d) width e s
                     else (e, s));
       (e, s) \<leftarrow> dec_digits (thousands_separator d) num e val s;
       if left_aligned d then pad_right_spin e s else Some s
     }"

definition shrink_width :: "u64 \<Rightarrow> u64" where
  "shrink_width width = (if width > 0 then width - 1 else width)"

definition print_int10 :: "directive \<Rightarrow> pf_state \<Rightarrow> pf_state option" where
  "print_int10 d s =
     do {
       (a, s) \<leftarrow> va_arg s;
       let (negative, num) = fetch_signed (format_length d) a;
       let (width, s) =
         (if negative then (shrink_width (format_width d), emit CHR ''-'' s)
          else if prepend_pos d then (shrink_width (format_width d), emit CHR ''+'' s)
          else if prepend_space d then (shrink_width (format_width d), emit CHR '' '' s)
          else (format_width d, s));
       print_decimal d width num s
     }"

definition print_uint10 :: "directive \<Rightarrow> pf_state \<Rightarrow> pf_state option" where
  "print_uint10 d s =
     do {
       (a, s) \<leftarrow> va_arg s;
       print_decimal d (format_width d) (fetch_unsigned (format_length d) a) s
     }"

section \<open>Hexadecimal, octal and binary output\<close>

text \<open>\<open>while (val < limit) { exp++; val <<= shift; if (val > num) break; }\<close>\<close>

partial_function (option) bit_scale ::
    "u64 \<Rightarrow> nat \<Rightarrow> u64 \<Rightarrow> u64 \<Rightarrow> u64 \<Rightarrow> (u64 \<times> u64) option" where
  "bit_scale limit shift num e val =
     (if val < limit
      then let e = e + 1; val = push_bit shift val
           in if val > num then Some (e, val) else bit_scale limit shift num e val
      else Some (e, val))"

declare bit_scale.simps [code]

text \<open>Indexing a digit string: one past the end is its NUL, further is out of bounds.\<close>

definition digit_of :: "string \<Rightarrow> u64 \<Rightarrow> char option" where
  "digit_of chars i =
     (if unat i < length chars then Some (chars ! unat i)
      else if unat i = length chars then Some NUL else None)"

text \<open>\<open>if (val < num)\<close>: the digit above the largest scale the loop can reach.\<close>

definition top_digit ::
    "string \<Rightarrow> u64 \<Rightarrow> u64 \<Rightarrow> u64 \<Rightarrow> pf_state \<Rightarrow> (u64 \<times> u64 \<times> pf_state) option" where
  "top_digit chars num e val s =
     (if val < num
      then do {
        c \<leftarrow> digit_of chars (num div val);
        Some (num mod val, e + 1, emit c s)
      }
      else Some (num, e, s))"

function bit_digits ::
    "string \<Rightarrow> nat \<Rightarrow> u64 \<Rightarrow> u64 \<Rightarrow> pf_state \<Rightarrow> pf_state option" where
  "bit_digits chars shift num val s =
     (if val > 1 \<and> shift > 0
      then
        let val = drop_bit shift val
        in if val = 0 then None
           else (case digit_of chars (num div val) of
                   None \<Rightarrow> None
                 | Some c \<Rightarrow> bit_digits chars shift (num mod val) val (emit c s))
      else Some s)"
  by pat_completeness auto
termination
proof (relation "measure (\<lambda>(c, k, n, v, s). unat v)", goal_cases)
  case (2 chars shift num val s x c)
  have "unat (drop_bit shift val) = unat val div 2 ^ shift"
    by (rule unat_drop_bit_div)
  moreover have "(1 :: nat) < 2 ^ shift"
    using 2 by (intro one_less_power) auto
  then have "unat val div 2 ^ shift < unat val"
    using 2 by (intro div_less_dividend) (auto simp: word_less_nat_alt)
  ultimately show ?case using 2 by simp
qed simp

declare bit_digits.simps [simp del]

definition hex_chars :: "bool \<Rightarrow> string" where
  "hex_chars upper = (if upper then ''0123456789ABCDEF'' else ''0123456789abcdef'')"

definition print_hex :: "directive \<Rightarrow> u64 \<Rightarrow> pf_state \<Rightarrow> pf_state option" where
  "print_hex d num s =
     do {
       let (width, s) =
         (if num_prefix d
          then (if format_width d = 1 then 0
                else if format_width d > 1 then format_width d - 2 else format_width d,
                emit (if capitals d then CHR ''X'' else CHR ''x'') (emit CHR ''0'' s))
          else (format_width d, s));
       (e, val) \<leftarrow> bit_scale (push_bit 60 1) 4 num 0 1;
       (num, e, s) \<leftarrow> top_digit (hex_chars (capitals d)) num e val s;
       let (e, s) = (if \<not> left_aligned d then pad_left False (zfill d) width e s else (e, s));
       s \<leftarrow> bit_digits (hex_chars (capitals d)) 4 num val s;
       Some (if left_aligned d then pad_right_count e s else s)
     }"

definition print_oct :: "directive \<Rightarrow> u64 \<Rightarrow> pf_state \<Rightarrow> pf_state option" where
  "print_oct d num s =
     do {
       let (width, s) =
         (if num_prefix d
          then (if format_width d > 0 then format_width d - 1 else format_width d,
                emit CHR ''0'' s)
          else (format_width d, s));
       (e, val) \<leftarrow> bit_scale (push_bit 63 1) 3 num 0 1;
       (num, e, s) \<leftarrow> top_digit ''01234567'' num e val s;
       let (e, s) = (if \<not> left_aligned d then pad_left False (zfill d) width e s else (e, s));
       s \<leftarrow> (if num = 0 then Some (emit CHR ''0'' s) else bit_digits ''01234567'' 3 num val s);
       if left_aligned d then pad_right_spin e s else Some s
     }"

text \<open>
  Binary: the limit is the \<open>int\<close> expression \<open>1 << 63\<close>, so it depends on the compiler
  (\<open>ov\<close>, see \<open>c_one_shl\<close>).
\<close>

definition print_bin :: "(nat \<Rightarrow> u64) \<Rightarrow> directive \<Rightarrow> u64 \<Rightarrow> pf_state \<Rightarrow> pf_state option" where
  "print_bin ov d num s =
     do {
       let (width, s) =
         (if num_prefix d
          then (if format_width d > 1 then format_width d - 1 else 0,
                emit CHR ''b'' (emit CHR ''0'' s))
          else (format_width d, s));
       (e, val) \<leftarrow> bit_scale (c_one_shl ov 63) 1 num 0 1;
       (num, e, s) \<leftarrow> top_digit ''01'' num e val s;
       let (e, s) = (if \<not> left_aligned d then pad_left False (zfill d) width e s else (e, s));
       s \<leftarrow> (if num = 0 then Some (emit CHR ''0'' s) else bit_digits ''01'' 1 num val s);
       if left_aligned d then pad_right_spin e s else Some s
     }"

definition print_bits :: "(nat \<Rightarrow> u64) \<Rightarrow> directive \<Rightarrow> pf_state \<Rightarrow> pf_state option" where
  "print_bits ov d s =
     do {
       (a, s) \<leftarrow> va_arg s;
       let num = fetch_bits (format_length d) a;
       (case format_type d of
          Int16 \<Rightarrow> print_hex d num s
        | Int8 \<Rightarrow> print_oct d num s
        | Int2 \<Rightarrow> print_bin ov d num s
        | _ \<Rightarrow> Some s)
     }"

section \<open>The other conversions\<close>

definition print_char :: "pf_state \<Rightarrow> pf_state option" where
  "print_char s = do { (a, s) \<leftarrow> va_arg s; Some (emit (char_of (unat (low_int a))) s) }"

definition print_string :: "pf_state \<Rightarrow> pf_state option" where
  "print_string s =
     do {
       (str, s) \<leftarrow> va_arg s;
       len \<leftarrow> strlen (pmem s) str;
       Some (fold (\<lambda>i s. emit (char_of (unat (pmem s (str + of_nat i)))) s) [0..<unat len] s)
     }"

text \<open>\<open>*n = num_chars_written\<close>: a 32-bit little-endian store.\<close>

definition store_int :: "byte_mem \<Rightarrow> u64 \<Rightarrow> u32 \<Rightarrow> byte_mem" where
  "store_int m p v = m(p := ucast v, p + 1 := ucast (drop_bit 8 v),
     p + 2 := ucast (drop_bit 16 v), p + 3 := ucast (drop_bit 24 v))"

definition print_nchars :: "pf_state \<Rightarrow> pf_state option" where
  "print_nchars s =
     do {
       (n, s) \<leftarrow> va_arg s;
       Some (s\<lparr>pmem := store_int (pmem s) n (num_chars_written s)\<rparr>)
     }"

text \<open>The dispatch on \<open>format_type\<close>; the floating-point conversions take no argument.\<close>

definition convert :: "(nat \<Rightarrow> u64) \<Rightarrow> directive \<Rightarrow> pf_state \<Rightarrow> pf_state option" where
  "convert ov d s =
     (case format_type d of
        CharT \<Rightarrow> print_char s
      | FloatExp \<Rightarrow> Some s
      | FloatFixed \<Rightarrow> Some s
      | FloatOpt \<Rightarrow> Some s
      | HexFloat \<Rightarrow> Some s
      | Int10 \<Rightarrow> print_int10 d s
      | UInt10 \<Rightarrow> print_uint10 d s
      | Int16 \<Rightarrow> print_bits ov d s
      | Int8 \<Rightarrow> print_bits ov d s
      | Int2 \<Rightarrow> print_bits ov d s
      | StringT \<Rightarrow> print_string s
      | Percent \<Rightarrow> Some (emit CHR ''%'' s)
      | NChars \<Rightarrow> print_nchars s
      | FormatTypeMax \<Rightarrow> Some s)"

section \<open>The main loop\<close>

text \<open>The text after a \<open>%\<close> up to and excluding the conversion character.\<close>

definition parse_directive ::
    "string \<Rightarrow> pf_state \<Rightarrow> (directive \<times> string \<times> pf_state) option" where
  "parse_directive fmt s =
     do {
       let (d, fmt) = parse_flags fmt fresh_directive;
       (d, fmt, s) \<leftarrow> parse_width fmt d s;
       let (d, fmt) = parse_precision fmt d;
       let (d, fmt) = parse_length fmt d;
       Some (parse_conversion (at fmt) d, fmt, s)
     }"

lemma parse_flags_length: "parse_flags fmt d = (d', fmt') \<Longrightarrow> length fmt' \<le> length fmt"
  by (induction fmt d rule: parse_flags.induct) (auto split: if_splits)

lemma parse_digits_length: "parse_digits w fmt = (w', fmt') \<Longrightarrow> length fmt' \<le> length fmt"
  by (induction w fmt rule: parse_digits.induct) (auto split: if_splits)

lemma parse_width_length:
  "parse_width fmt d s = Some (d', fmt', s') \<Longrightarrow> length fmt' \<le> length fmt"
  by (auto simp: parse_width_def Option.bind_eq_Some_conv split: if_splits prod.splits
      dest: parse_digits_length)

lemma parse_precision_length:
  "parse_precision fmt d = (d', fmt') \<Longrightarrow> length fmt' \<le> length fmt"
  by (auto simp: parse_precision_def split: if_splits prod.splits dest: parse_digits_length)

lemma parse_length_length: "parse_length fmt d = (d', fmt') \<Longrightarrow> length fmt' \<le> length fmt"
  by (auto simp: parse_length_def split: if_splits)

lemma parse_directive_length:
  assumes "parse_directive fmt s = Some (d', fmt', s')"
  shows "length fmt' \<le> length fmt"
proof -
  obtain d1 f1 where 1: "parse_flags fmt fresh_directive = (d1, f1)" by fastforce
  then obtain d2 f2 s2 where 2: "parse_width f1 d1 s = Some (d2, f2, s2)"
    using assms by (auto simp: parse_directive_def Option.bind_eq_Some_conv)
  obtain d3 f3 where 3: "parse_precision f2 d2 = (d3, f3)" by fastforce
  obtain d4 f4 where 4: "parse_length f3 d3 = (d4, f4)" by fastforce
  have "fmt' = f4"
    using assms by (simp add: parse_directive_def 1 2 3 4)
  then show ?thesis
    using parse_flags_length [OF 1] parse_width_length [OF 2] parse_precision_length [OF 3]
      parse_length_length [OF 4] by simp
qed

text \<open>The loop over the format, with the backslash escape of \<open>%\<close>.\<close>

function printf_loop :: "(nat \<Rightarrow> u64) \<Rightarrow> string \<Rightarrow> pf_state \<Rightarrow> pf_state option" where
  "printf_loop ov [] s = Some s"
| "printf_loop ov (c # cs) s =
     (if c = CHR 0x5C \<and> at cs = CHR ''%'' then printf_loop ov (tl cs) (emit CHR ''%'' s)
      else if c \<noteq> CHR ''%'' then printf_loop ov cs (emit c s)
      else (case parse_directive cs s of
              None \<Rightarrow> None
            | Some (d, fmt, s) \<Rightarrow>
                (case convert ov d s of
                   None \<Rightarrow> None
                 | Some s \<Rightarrow> printf_loop ov (tl fmt) s)))"
  by pat_completeness auto
termination
  by (relation "measure (\<lambda>(ov, fmt, s). length fmt)") (auto dest: parse_directive_length)

text \<open>\<open>printf\<close> returns the count; the bytes written and memory are its effects.\<close>

definition printf ::
    "(nat \<Rightarrow> u64) \<Rightarrow> byte_mem \<Rightarrow> string \<Rightarrow> u64 list \<Rightarrow> (u32 \<times> string \<times> byte_mem) option" where
  "printf ov m fmt args =
     map_option (\<lambda>s. (num_chars_written s, out s, pmem s))
       (printf_loop ov fmt \<lparr>out = [], num_chars_written = 0, va_list = args, pmem = m\<rparr>)"

text \<open>\<open>puts\<close> goes through \<open>printf\<close>; its string is the argument of \<open>%s\<close>.\<close>

definition puts ::
    "(nat \<Rightarrow> u64) \<Rightarrow> byte_mem \<Rightarrow> u64 \<Rightarrow> (u32 \<times> string \<times> byte_mem) option" where
  "puts ov m str = printf ov m (''%s'' @ [CHR 0x0A]) [str]"

end
