(* ===== verification/Printf_Numbers.thy ===== *)
theory Printf_Numbers
  imports Printf
begin

text \<open>
  What the number loops of \<open>printf\<close> write: the reference notation (digits of a number in a
  base, separators, padding) and the lemmas that each loop produces it, on which the properties
  of the conversions rest.
\<close>

section \<open>Writing a string\<close>

definition emits :: "string \<Rightarrow> pf_state \<Rightarrow> pf_state" where
  "emits cs s = fold emit cs s"

lemma emits_Nil [simp]: "emits [] s = s"
  by (simp add: emits_def)

lemma emit_emits: "emit c s = emits [c] s"
  by (simp add: emits_def)

lemma emits_emits [simp]: "emits b (emits a s) = emits (a @ b) s"
  by (simp add: emits_def)

lemma emits_out: "out (emits cs s) = out s @ cs"
  by (induction cs arbitrary: s) (simp_all add: emits_def emit_def)

lemma emits_count: "num_chars_written (emits cs s) = num_chars_written s + of_nat (length cs)"
  by (induction cs arbitrary: s) (simp_all add: emits_def emit_def algebra_simps)

lemma emits_rest [simp]: "va_list (emits cs s) = va_list s" "pmem (emits cs s) = pmem s"
  by (induction cs arbitrary: s) (simp_all add: emits_def emit_def)

section \<open>Digits in a base\<close>

text \<open>\<open>radix chars b k n\<close>: the \<open>k\<close> low digits of \<open>n\<close> in base \<open>b\<close>, most significant first.\<close>

definition radix :: "string \<Rightarrow> nat \<Rightarrow> nat \<Rightarrow> nat \<Rightarrow> string" where
  "radix chars b k n = map (\<lambda>i. chars ! (n div b ^ i mod b)) (rev [0..<k])"

function ndigits :: "nat \<Rightarrow> nat \<Rightarrow> nat" where
  "ndigits b n = (if b < 2 \<or> n < b then 1 else Suc (ndigits b (n div b)))"
  by pat_completeness auto
termination by (relation "measure snd") auto

declare ndigits.simps [simp del]

lemma ndigits_pos: "0 < ndigits b n"
  by (subst ndigits.simps) simp

lemma ndigits_upper: "2 \<le> b \<Longrightarrow> n < b ^ ndigits b n"
proof (induction b n rule: ndigits.induct)
  case (1 b n)
  show ?case
  proof (cases "n < b")
    case True
    then show ?thesis by (subst ndigits.simps) simp
  next
    case False
    with 1 have "n div b < b ^ ndigits b (n div b)" by simp
    then have "n < b ^ Suc (ndigits b (n div b))"
      using "1.prems" by (simp add: div_less_iff_less_mult mult.commute)
    with False "1.prems" show ?thesis by (subst ndigits.simps) simp
  qed
qed

lemma ndigits_lower: "2 \<le> b \<Longrightarrow> 1 < ndigits b n \<Longrightarrow> b ^ (ndigits b n - 1) \<le> n"
proof (induction b n rule: ndigits.induct)
  case (1 b n)
  then have nb: "\<not> n < b" by (auto simp: ndigits.simps [of b n])
  have eq: "ndigits b n = Suc (ndigits b (n div b))"
    using nb "1.prems" by (simp add: ndigits.simps [of b n])
  show ?case
  proof (cases "1 < ndigits b (n div b)")
    case True
    with 1 nb have "b ^ (ndigits b (n div b) - 1) \<le> n div b" by simp
    then have "b ^ (ndigits b (n div b) - 1) * b \<le> n"
      using "1.prems" by (simp add: less_eq_div_iff_mult_less_eq)
    then have "b ^ Suc (ndigits b (n div b) - 1) \<le> n" by (simp add: mult.commute)
    with True eq show ?thesis by simp
  next
    case False
    with ndigits_pos [of b "n div b"] have "ndigits b (n div b) = 1" by simp
    with nb eq show ?thesis by simp
  qed
qed

lemma ndigits_unique:
  assumes "2 \<le> b" and "n < b ^ Suc k" and "k = 0 \<or> b ^ k \<le> n"
  shows "ndigits b n = Suc k"
proof (rule ccontr)
  assume ne: "ndigits b n \<noteq> Suc k"
  show False
  proof (cases "ndigits b n < Suc k")
    case True
    then have "b ^ ndigits b n \<le> b ^ k" using assms(1) by (intro power_increasing) auto
    moreover have "0 < k" using True ndigits_pos [of b n] by simp
    ultimately have "n < b ^ k" using assms(1) ndigits_upper [of b n] by linarith
    with assms(3) \<open>0 < k\<close> show False by auto
  next
    case False
    with ne have "Suc k \<le> ndigits b n - 1" by simp
    then have "b ^ Suc k \<le> b ^ (ndigits b n - 1)" using assms(1) by (intro power_increasing) auto
    moreover have "1 < ndigits b n" using \<open>Suc k \<le> ndigits b n - 1\<close> by simp
    ultimately show False using assms ndigits_lower [of b n] by simp
  qed
qed

lemma radix_Suc: "radix chars b (Suc k) n = chars ! (n div b ^ k mod b) # radix chars b k n"
  by (simp add: radix_def)

lemma radix_0 [simp]: "radix chars b 0 n = []"
  by (simp add: radix_def)

lemma radix_length [simp]: "length (radix chars b k n) = k"
  by (simp add: radix_def)

lemma mod_pow_div: "0 < b \<Longrightarrow> (n mod b ^ Suc i) div b ^ i = n div b ^ i mod (b :: nat)"
  using mod_mult2_eq [of n "b ^ i" b] by (simp add: mult.commute)

lemma div_pow_mod: "0 < b \<Longrightarrow> i < k \<Longrightarrow> (n mod b ^ k) div b ^ i mod b = n div b ^ i mod (b :: nat)"
proof -
  assume b: "0 < b" and "i < k"
  then have dvd: "b ^ Suc i dvd b ^ k" by (intro le_imp_power_dvd) simp
  have "(n mod b ^ k) div b ^ i mod b = (n mod b ^ k) mod b ^ Suc i div b ^ i"
    by (rule mod_pow_div [OF b, symmetric])
  also have "\<dots> = n mod b ^ Suc i div b ^ i"
    by (simp only: mod_mod_cancel [OF dvd])
  also have "\<dots> = n div b ^ i mod b" by (rule mod_pow_div [OF b])
  finally show ?thesis .
qed

lemma radix_mod: "0 < b \<Longrightarrow> radix chars b k (n mod b ^ k) = radix chars b k n"
  by (simp add: radix_def div_pow_mod)

text \<open>Leading zeros.\<close>

lemma radix_leading:
  assumes "0 < b" and "n < b ^ k" and "k \<le> m"
  shows "radix chars b m n = replicate (m - k) (chars ! 0) @ radix chars b k n"
  using assms(3)
proof (induction m)
  case 0
  then show ?case by simp
next
  case (Suc m)
  show ?case
  proof (cases "k = Suc m")
    case False
    with Suc.prems have "k \<le> m" by simp
    then have "b ^ k \<le> b ^ m" using assms(1) by (intro power_increasing) simp_all
    then have "n div b ^ m mod b = 0" using assms(2) by simp
    with \<open>k \<le> m\<close> Suc.IH show ?thesis by (simp add: radix_Suc Suc_diff_le)
  qed simp
qed

text \<open>Reading the digits back gives the number: the notation loses nothing.\<close>

definition digit_value :: "string \<Rightarrow> char \<Rightarrow> nat" where
  "digit_value chars c = length (takeWhile (\<lambda>x. x \<noteq> c) chars)"

definition read_radix :: "string \<Rightarrow> nat \<Rightarrow> string \<Rightarrow> nat" where
  "read_radix chars b cs = foldl (\<lambda>n c. n * b + digit_value chars c) 0 cs"

lemma digit_value_nth: "distinct chars \<Longrightarrow> i < length chars \<Longrightarrow> digit_value chars (chars ! i) = i"
  unfolding digit_value_def
proof (induction chars arbitrary: i)
  case (Cons x xs)
  then show ?case by (cases i) auto
qed simp

lemma read_radix_from:
  assumes "distinct chars" and "b \<le> length chars" and "0 < b"
  shows "foldl (\<lambda>n c. n * b + digit_value chars c) a (radix chars b k n) = a * b ^ k + n mod b ^ k"
proof (induction k arbitrary: a)
  case 0
  then show ?case by simp
next
  case (Suc k)
  let ?d = "n div b ^ k mod b"
  have "?d < length chars" using assms by (meson less_le_trans mod_less_divisor)
  then have "digit_value chars (chars ! ?d) = ?d" using assms(1) by (rule digit_value_nth [rotated])
  moreover have "n mod b ^ Suc k = b ^ k * ?d + n mod b ^ k"
    using mod_mult2_eq [of n "b ^ k" b] by (simp add: mult.commute)
  ultimately show ?case by (simp add: radix_Suc Suc.IH algebra_simps)
qed

lemma read_radix_radix:
  "distinct chars \<Longrightarrow> b \<le> length chars \<Longrightarrow> 0 < b \<Longrightarrow> n < b ^ k \<Longrightarrow>
    read_radix chars b (radix chars b k n) = n"
  by (simp add: read_radix_def read_radix_from)

section \<open>Padding\<close>

lemma pad_left_plain:
  "pad_left False z w e s =
    (e + of_nat (nat (sint (w - e))), emits (replicate (nat (sint (w - e))) z) s)"
proof (induction "nat (sint (w - e))" arbitrary: e s)
  case 0
  then show ?case by (subst pad_left.simps) simp
next
  case (Suc n)
  then have pos: "0 < sint (w - e)" by simp
  then have "sint (w - (e + 1)) = sint (w - e) - 1"
    using sint_minus_1 [of "w - e"] by (simp add: algebra_simps)
  with Suc.hyps(2) have n: "n = nat (sint (w - (e + 1)))" by simp
  show ?case
    by (subst pad_left.simps)
      (simp add: pos Suc.hyps(1) [OF n] n [symmetric] Suc.hyps(2) [symmetric] emit_emits)
qed

lemma pad_right_count_emits: "pad_right_count e s = emits (replicate (unat e) CHR '' '') s"
proof (induction "unat e" arbitrary: e s)
  case 0
  then have "e = 0" by (simp add: word_unat_eq_iff)
  then show ?case by (subst pad_right_count.simps) simp
next
  case (Suc n)
  then have "e \<noteq> 0" by auto
  with Suc have "n = unat (e - 1)" by (simp add: unat_minus_one)
  with Suc \<open>e \<noteq> 0\<close> show ?case
    by (subst pad_right_count.simps) (simp add: word_neq_0_conv emit_emits flip: Suc.hyps(2))
qed

lemma pad_right_spin_Some:
  assumes "pad_right_spin e s = Some r"
  shows "e = 0"
  by (rule pad_right_spin.raw_induct [where P = "\<lambda>e s r. e = 0", OF _ assms])
    (auto simp: word_greater_zero_iff split: if_splits)

lemma pad_right_spin_diverges: "e \<noteq> 0 \<Longrightarrow> pad_right_spin e s = None"
  using pad_right_spin_Some by (cases "pad_right_spin e s") auto

lemma pad_right_spin_0 [simp]: "pad_right_spin 0 s = Some s"
  by (subst pad_right_spin.simps) simp

section \<open>The decimal loops\<close>

lemma dec_digit_char: "d < 10 \<Longrightarrow> char_of (48 + d) = ''0123456789'' ! d"
proof -
  have "\<forall>d \<in> set [0..<10]. char_of (48 + d) = ''0123456789'' ! d" by code_simp
  moreover assume "d < 10"
  ultimately show ?thesis by simp
qed

lemma pow10_u64: "k \<le> 19 \<Longrightarrow> (10 :: nat) ^ k < 2 ^ 64"
  using power_increasing [of k 19 "10 :: nat"] by simp

lemma dec_scale_from:
  assumes "unat num < 10 ^ 19" and "k = 0 \<or> 10 ^ k \<le> unat num"
  shows "dec_scale num (of_nat k) (of_nat (10 ^ k)) =
    Some (of_nat (ndigits 10 (unat num)), of_nat (10 ^ ndigits 10 (unat num)))"
  using assms(2)
proof (induction "19 - k" arbitrary: k)
  case 0
  then have "10 ^ 19 \<le> (10 :: nat) ^ k" by (intro power_increasing) simp_all
  with 0 assms(1) show ?case by auto
next
  case (Suc m)
  then have k: "Suc k \<le> 19" by simp
  have step: "of_nat (10 ^ k) * 10 = (of_nat (10 ^ Suc k) :: u64)" "of_nat k + 1 = (of_nat (Suc k) :: u64)"
    by (simp_all add: mult.commute)
  have gt: "num < of_nat (10 ^ Suc k) \<longleftrightarrow> unat num < 10 ^ Suc k"
    by (rule of_nat_less_u64 [OF pow10_u64 [OF k]])
  show ?case
  proof (cases "unat num < 10 ^ Suc k")
    case True
    then have "ndigits 10 (unat num) = Suc k"
      using Suc.prems by (intro ndigits_unique) simp_all
    with True show ?thesis
      by (subst dec_scale.simps) (simp only: Let_def step gt if_True)
  next
    case False
    then have "dec_scale num (of_nat (Suc k)) (of_nat (10 ^ Suc k)) =
        Some (of_nat (ndigits 10 (unat num)), of_nat (10 ^ ndigits 10 (unat num)))"
      using Suc.hyps k by (intro Suc.hyps(1)) simp_all
    with False show ?thesis
      by (subst dec_scale.simps) (simp only: Let_def step gt if_False)
  qed
qed

lemma dec_scale_start:
  "unat num < 10 ^ 19 \<Longrightarrow> dec_scale num 0 1 =
    Some (of_nat (ndigits 10 (unat num)), of_nat (10 ^ ndigits 10 (unat num)))"
  using dec_scale_from [of num 0] by simp

text \<open>
  The digits with the separators the code writes: after a digit, a comma when the counter
  \<open>exp\<close> is a positive multiple of 3; \<open>c\<close> is the excess of \<open>exp\<close> over the number of digits.
\<close>

definition sep_radix :: "bool \<Rightarrow> nat \<Rightarrow> nat \<Rightarrow> nat \<Rightarrow> string" where
  "sep_radix sep c k n =
     concat (map (\<lambda>i. ''0123456789'' ! (n div 10 ^ i mod 10) #
       (if sep \<and> 3 dvd i + c \<and> i + c \<noteq> 0 then '','' else [])) (rev [0..<k]))"

lemma sep_radix_plain: "sep_radix False c k n = radix ''0123456789'' 10 k n"
  by (simp add: sep_radix_def radix_def concat_map_singleton)

lemma sep_radix_Suc:
  "sep_radix sep c (Suc k) n = ''0123456789'' ! (n div 10 ^ k mod 10) #
     (if sep \<and> 3 dvd k + c \<and> k + c \<noteq> 0 then '','' else []) @ sep_radix sep c k n"
  by (simp add: sep_radix_def)

lemma sep_radix_mod: "sep_radix sep c k (n mod 10 ^ k) = sep_radix sep c k n"
  unfolding sep_radix_def
  by (intro arg_cong [where f = concat] map_cong) (simp_all add: div_pow_mod)

lemma dec_digits_emits:
  assumes "unat num < 10 ^ k" and "k \<le> 19" and "k + c < 2 ^ 64"
  shows "dec_digits sep num (of_nat (k + c)) (of_nat (10 ^ k)) s =
    Some (of_nat c, emits (sep_radix sep c k (unat num)) s)"
  using assms
proof (induction k arbitrary: num s)
  case 0
  then show ?case by (subst dec_digits.simps) (simp add: sep_radix_def)
next
  case (Suc k)
  let ?v = "of_nat (10 ^ k) :: u64"
  let ?q = "unat num div 10 ^ k"
  have pow: "(10 :: nat) ^ Suc k < 2 ^ 64" "(10 :: nat) ^ k < 2 ^ 64"
    using Suc.prems(2) pow10_u64 [of "Suc k"] pow10_u64 [of k] by simp_all
  have div10: "of_nat (10 ^ Suc k) div 10 = ?v"
    using of_nat_div_u64 [OF pow(1), of 10] by simp
  have gt1: "(of_nat (10 ^ Suc k) :: u64) > 1"
    using one_less_power [of "10 :: nat" "Suc k"]
    by (subst of_nat_less_u64 [OF pow(1)]) (simp del: power_Suc)
  have v0: "?v \<noteq> 0" using pow(2) of_nat_inj_word [of "10 ^ k" 0, where 'a = 64] by simp
  have e1: "of_nat (Suc k + c) - 1 = (of_nat (k + c) :: u64)" by simp
  have q: "?q < 10" using Suc.prems(1) by (simp add: div_less_iff_less_mult)
  have "unat (num div ?v) = ?q"
    by (simp only: unat_div unat_of_nat_u64 [OF pow(2)])
  then have "unat (48 + num div ?v) = 48 + ?q"
    using q by (subst unat_add_no_wrap) simp_all
  then have digit: "char_of (unat (48 + num div ?v)) = ''0123456789'' ! (?q mod 10)"
    using q dec_digit_char [of ?q] by simp
  have rem: "unat (num mod ?v) = unat num mod 10 ^ k"
    by (simp only: unat_mod unat_of_nat_u64 [OF pow(2)])
  have comma: "(of_nat (k + c) :: u64) = of_nat (k + c) div 3 * 3 \<and> (of_nat (k + c) :: u64) \<noteq> 0
      \<longleftrightarrow> 3 dvd k + c \<and> k + c \<noteq> 0"
  proof -
    have "k + c < 2 ^ 64" using Suc.prems(3) by simp
    then show ?thesis
      using triple_div_u64 [of "k + c"] of_nat_inj_word [of "k + c" 0, where 'a = 64] by simp
  qed
  have IH: "dec_digits sep (num mod ?v) (of_nat (k + c)) ?v s' =
      Some (of_nat c, emits (sep_radix sep c k (unat num)) s')" for s'
  proof -
    have "unat (num mod ?v) < 10 ^ k" by (simp only: rem mod_less_divisor zero_less_power zero_less_numeral)
    then have "dec_digits sep (num mod ?v) (of_nat (k + c)) ?v s' =
        Some (of_nat c, emits (sep_radix sep c k (unat (num mod ?v))) s')"
      using Suc.prems by (intro Suc.IH) simp_all
    then show ?thesis by (simp only: rem sep_radix_mod)
  qed
  show ?case
    by (subst dec_digits.simps)
      (simp only: Let_def div10 gt1 v0 e1 digit comma IH if_True if_False, auto simp: sep_radix_Suc emit_emits)
qed

section \<open>The loops in a power-of-two base\<close>

lemma pow2_u64: "k \<le> 63 \<Longrightarrow> (2 :: nat) ^ k < 2 ^ 64"
  by (intro power_strict_increasing) simp_all

lemma push_bit_pow: "push_bit b (of_nat (2 ^ k) :: u64) = of_nat (2 ^ (k + b))"
  by (simp add: push_bit_eq_mult power_add)

lemma drop_bit_pow: "k + b \<le> 63 \<Longrightarrow> drop_bit b (of_nat (2 ^ (k + b)) :: u64) = of_nat (2 ^ k)"
proof -
  assume k: "k + b \<le> 63"
  then have "unat (of_nat (2 ^ (k + b)) :: u64) = 2 ^ (k + b)" "unat (of_nat (2 ^ k) :: u64) = 2 ^ k"
    by (simp_all only: unat_of_nat_u64 [OF pow2_u64])
  then show ?thesis
    by (simp only: word_unat_eq_iff unat_drop_bit_div) (simp add: power_add)
qed

lemma pow_mult_b: "(2 :: nat) ^ (b * k) = (2 ^ b) ^ k"
  by (rule power_mult)

text \<open>
  The scale loop stops at the number's own length or, at the latest, after \<open>N\<close> steps, where
  the limit of the loop is reached.
\<close>

lemma bit_scale_from:
  assumes "0 < b" and "0 < N" and "b * N \<le> 63"
    and below: "\<And>j. j < N \<Longrightarrow> of_nat (2 ^ (b * j)) < limit"
    and stop: "limit \<le> of_nat (2 ^ (b * N)) \<or> unat num < 2 ^ (b * N)"
    and "k \<le> N" and "k = 0 \<or> 2 ^ (b * k) \<le> unat num"
  shows "bit_scale limit b num (of_nat k) (of_nat (2 ^ (b * k))) =
    Some (of_nat (min N (ndigits (2 ^ b) (unat num))),
      of_nat (2 ^ (b * min N (ndigits (2 ^ b) (unat num)))))"
  using assms(6,7)
proof (induction "N - k" arbitrary: k)
  case 0
  then have k: "k = N" and le: "2 ^ (b * N) \<le> unat num" using assms(2) by simp_all
  then have lim: "\<not> of_nat (2 ^ (b * N)) < limit" using stop by simp
  have "N < ndigits (2 ^ b) (unat num)"
  proof (rule ccontr)
    assume "\<not> N < ndigits (2 ^ b) (unat num)"
    then have "(2 ^ b) ^ ndigits (2 ^ b) (unat num) \<le> (2 ^ b :: nat) ^ N"
      by (intro power_increasing) simp_all
    moreover have "(2 :: nat) \<le> 2 ^ b" using assms(1) by (cases b) simp_all
    then have "unat num < (2 ^ b) ^ ndigits (2 ^ b) (unat num)" by (rule ndigits_upper)
    moreover have "(2 ^ b) ^ N \<le> unat num" using le by (simp only: pow_mult_b)
    ultimately show False by linarith
  qed
  then have "min N (ndigits (2 ^ b) (unat num)) = N" by simp
  with k lim show ?case by (subst bit_scale.simps) simp
next
  case (Suc m)
  then have k: "k < N" by simp
  then have bk: "b * k + b \<le> 63"
    using assms(3) by (metis Suc_leI le_trans mult_Suc_right mult_le_mono2 add.commute)
  let ?v = "of_nat (2 ^ (b * Suc k)) :: u64"
  have step: "push_bit b (of_nat (2 ^ (b * k))) = ?v" "of_nat k + 1 = (of_nat (Suc k) :: u64)"
    by (simp_all only: push_bit_pow) (simp_all add: add.commute)
  have gt: "num < ?v \<longleftrightarrow> unat num < 2 ^ (b * Suc k)"
    using bk by (intro of_nat_less_u64 pow2_u64) (simp add: add.commute)
  have base: "(2 :: nat) \<le> 2 ^ b" using assms(1) by (cases b) simp_all
  show ?case
  proof (cases "unat num < 2 ^ (b * Suc k)")
    case True
    then have "ndigits (2 ^ b) (unat num) = Suc k"
      using Suc.prems base by (intro ndigits_unique) (simp_all only: pow_mult_b)
    moreover from this k have "min N (ndigits (2 ^ b) (unat num)) = Suc k" by simp
    ultimately show ?thesis using True
      by (subst bit_scale.simps) (simp only: Let_def step gt below [OF k] if_True)
  next
    case False
    then have "bit_scale limit b num (of_nat (Suc k)) ?v =
        Some (of_nat (min N (ndigits (2 ^ b) (unat num))),
          of_nat (2 ^ (b * min N (ndigits (2 ^ b) (unat num)))))"
      using Suc.hyps k by (intro Suc.hyps(1)) simp_all
    with False show ?thesis
      by (subst bit_scale.simps) (simp only: Let_def step gt below [OF k] if_True if_False)
  qed
qed

lemma digit_of_nth: "unat i < length chars \<Longrightarrow> digit_of chars i = Some (chars ! unat i)"
  by (simp add: digit_of_def)

lemma bit_digits_emits:
  assumes "0 < b" and "length chars = 2 ^ b"
    and "unat num < 2 ^ (b * k)" and "b * k \<le> 63"
  shows "bit_digits chars b num (of_nat (2 ^ (b * k))) s =
    Some (emits (radix chars (2 ^ b) k (unat num)) s)"
  using assms(3,4)
proof (induction k arbitrary: num s)
  case 0
  then show ?case by (subst bit_digits.simps) simp
next
  case (Suc k)
  let ?v = "of_nat (2 ^ (b * k)) :: u64"
  let ?q = "unat num div 2 ^ (b * k)"
  have bk: "b * k + b \<le> 63" using Suc.prems(2) by (simp add: add.commute)
  have pow: "(2 :: nat) ^ (b * k) < 2 ^ 64" using bk by (intro pow2_u64) simp
  have drop: "drop_bit b (of_nat (2 ^ (b * Suc k))) = ?v"
    using drop_bit_pow [OF bk] by (simp add: add.commute)
  have "(1 :: nat) < 2 ^ (b * Suc k)" using assms(1) by (intro one_less_power) simp_all
  moreover have "(2 :: nat) ^ (b * Suc k) < 2 ^ 64" using Suc.prems(2) by (rule pow2_u64)
  ultimately have gt1: "(of_nat (2 ^ (b * Suc k)) :: u64) > 1"
    using of_nat_less_u64 [of "2 ^ (b * Suc k)" 1] by (simp del: mult_Suc_right)
  have v0: "?v \<noteq> 0" using pow of_nat_inj_word [of "2 ^ (b * k)" 0, where 'a = 64] by simp
  have q: "?q < 2 ^ b" using Suc.prems(1) by (simp add: div_less_iff_less_mult power_add)
  have "unat (num div ?v) = ?q"
    by (simp only: unat_div unat_of_nat_u64 [OF pow])
  then have digit: "digit_of chars (num div ?v) = Some (chars ! (?q mod 2 ^ b))"
    using q assms(2) by (simp add: digit_of_nth)
  have rem: "unat (num mod ?v) = unat num mod 2 ^ (b * k)"
    by (simp only: unat_mod unat_of_nat_u64 [OF pow])
  then have "bit_digits chars b (num mod ?v) ?v s' =
      Some (emits (radix chars (2 ^ b) k (unat num mod 2 ^ (b * k))) s')" for s'
    using Suc.IH [of "num mod ?v" s'] bk by simp
  then have IH: "bit_digits chars b (num mod ?v) ?v s' =
      Some (emits (radix chars (2 ^ b) k (unat num)) s')" for s'
    by (simp only: pow_mult_b) (simp add: radix_mod)
  show ?case
    by (subst bit_digits.simps)
      (use assms(1) in \<open>simp only: Let_def drop gt1 v0 digit IH if_True if_False option.case
        simp_thms, simp add: radix_Suc emit_emits flip: pow_mult_b\<close>)
qed

end
