(* ===== verification/Printf_Props.thy ===== *)
theory Printf_Props
  imports Printf_Numbers
begin

text \<open>
  The properties of \<open>printf\<close>: what each conversion writes, that the returned count is the
  number of characters written, and the arguments for which a conversion goes wrong.
\<close>

section \<open>Whole conversions in terms of the reference notation\<close>

abbreviation "dec_chars \<equiv> ''0123456789''"

lemma print_decimal_emits:
  assumes "unat num < 10 ^ 19" and "\<not> left_aligned d" and "\<not> thousands_separator d"
  shows "print_decimal d width num s =
    Some (emits (replicate (nat (sint (width - of_nat (ndigits 10 (unat num))))) (zfill d) @
      radix dec_chars 10 (ndigits 10 (unat num)) (unat num)) s)"
proof -
  let ?n = "ndigits 10 (unat num)"
  let ?p = "nat (sint (width - of_nat ?n))"
  have len: "?n \<le> 19"
  proof (rule ccontr)
    assume "\<not> ?n \<le> 19"
    then have "10 ^ 19 \<le> (10 :: nat) ^ (?n - 1)" by (intro power_increasing) simp_all
    with \<open>\<not> ?n \<le> 19\<close> ndigits_lower [of 10 "unat num"] assms(1) show False by simp
  qed
  have "?p < 2 ^ 63"
    using sint_less [of "width - of_nat ?n"] by simp
  then have "?n + ?p < 2 ^ 64" using len by simp
  moreover have "unat num < 10 ^ ?n" by (rule ndigits_upper) simp
  ultimately have "dec_digits False num (of_nat (?n + ?p)) (of_nat (10 ^ ?n)) s' =
      Some (of_nat ?p, emits (radix dec_chars 10 ?n (unat num)) s')" for s'
    using dec_digits_emits [of num ?n ?p False s'] len by (simp add: sep_radix_plain)
  with assms(2,3) show ?thesis
    by (simp add: print_decimal_def dec_scale_start [OF assms(1)] pad_left_plain)
qed

lemma ndigits_hex: "ndigits 16 n \<le> 15 \<longleftrightarrow> n < 2 ^ 60"
proof
  assume "ndigits 16 n \<le> 15"
  then have "(16 :: nat) ^ ndigits 16 n \<le> 16 ^ 15" by (intro power_increasing) simp_all
  with ndigits_upper [of 16 n] show "n < 2 ^ 60" by simp
next
  assume n: "n < 2 ^ 60"
  show "ndigits 16 n \<le> 15"
  proof (rule ccontr)
    assume "\<not> ndigits 16 n \<le> 15"
    then have "(16 :: nat) ^ 15 \<le> 16 ^ (ndigits 16 n - 1)" by (intro power_increasing) simp_all
    with \<open>\<not> ndigits 16 n \<le> 15\<close> ndigits_lower [of 16 n] n show False by simp
  qed
qed

lemma bit_scale_hex:
  "bit_scale (push_bit 60 1) 4 num 0 1 =
    Some (of_nat (min 15 (ndigits 16 (unat num))), of_nat (2 ^ (4 * min 15 (ndigits 16 (unat num)))))"
proof -
  have "of_nat (2 ^ (4 * j)) < (push_bit 60 1 :: u64)" if "j < 15" for j
  proof -
    have "(2 :: nat) ^ (4 * j) < 2 ^ 60" using that by (intro power_strict_increasing) simp_all
    then have "unat (of_nat (2 ^ (4 * j)) :: u64) < 2 ^ 60"
      by (subst unat_of_nat_u64) simp_all
    then show ?thesis by (simp only: word_less_nat_alt) simp
  qed
  moreover have "push_bit 60 1 \<le> (of_nat (2 ^ (4 * 15)) :: u64)" by simp
  ultimately show ?thesis
    using bit_scale_from [of 4 15 "push_bit 60 1" num 0] by simp
qed

definition hex_prefix :: "directive \<Rightarrow> string" where
  "hex_prefix d = (if num_prefix d then [CHR ''0'', if capitals d then CHR ''X'' else CHR ''x''] else [])"

definition hex_width :: "directive \<Rightarrow> u64" where
  "hex_width d =
     (if num_prefix d
      then (if format_width d = 1 then 0
            else if format_width d > 1 then format_width d - 2 else format_width d)
      else format_width d)"

lemma print_hex_unfold:
  "print_hex d num s =
     do {
       (e, val) \<leftarrow> bit_scale (push_bit 60 1) 4 num 0 1;
       (num, e, s) \<leftarrow> top_digit (hex_chars (capitals d)) num e val (emits (hex_prefix d) s);
       let (e, s) = (if \<not> left_aligned d then pad_left False (zfill d) (hex_width d) e s else (e, s));
       s \<leftarrow> bit_digits (hex_chars (capitals d)) 4 num val s;
       Some (if left_aligned d then pad_right_count e s else s)
     }"
proof -
  have "(if num_prefix d
      then (if format_width d = 1 then 0
            else if format_width d > 1 then format_width d - 2 else format_width d,
            emit (if capitals d then CHR ''X'' else CHR ''x'') (emit CHR ''0'' s))
      else (format_width d, s)) = (hex_width d, emits (hex_prefix d) s)"
    by (simp add: hex_prefix_def hex_width_def emit_emits)
  then show ?thesis by (simp only: print_hex_def Let_def prod.case)
qed

lemma hex_chars_length: "length (hex_chars u) = 2 ^ 4"
  by (simp add: hex_chars_def)

lemma print_hex_small:
  assumes "unat num < 2 ^ 60" and "\<not> left_aligned d"
  shows "print_hex d num s =
    Some (emits (hex_prefix d @
      replicate (nat (sint (hex_width d - of_nat (ndigits 16 (unat num))))) (zfill d) @
      radix (hex_chars (capitals d)) 16 (ndigits 16 (unat num)) (unat num)) s)"
proof -
  let ?n = "ndigits 16 (unat num)"
  have n: "?n \<le> 15" using assms(1) by (simp add: ndigits_hex)
  then have "min 15 ?n = ?n" by simp
  then have scale: "bit_scale (push_bit 60 1) 4 num 0 1 = Some (of_nat ?n, of_nat (2 ^ (4 * ?n)))"
    by (simp only: bit_scale_hex)
  have lt: "unat num < 2 ^ (4 * ?n)"
    using ndigits_upper [of 16 "unat num"] by (simp add: power_mult)
  have "(2 :: nat) ^ (4 * ?n) < 2 ^ 64" using n by (intro power_strict_increasing) simp_all
  with lt have "\<not> of_nat (2 ^ (4 * ?n)) < num"
    by (simp add: word_less_nat_alt unat_of_nat_u64 del: of_nat_power of_nat_numeral)
  then have top: "top_digit (hex_chars (capitals d)) num e (of_nat (2 ^ (4 * ?n))) s' =
      Some (num, e, s')" for e s'
    by (simp only: top_digit_def if_False)
  have "bit_digits (hex_chars (capitals d)) 4 num (of_nat (2 ^ (4 * ?n))) s' =
      Some (emits (radix (hex_chars (capitals d)) 16 ?n (unat num)) s')" for s'
    using bit_digits_emits [of 4 "hex_chars (capitals d)" num ?n s'] hex_chars_length lt n
    by simp
  with assms(2) show ?thesis
    by (simp only: print_hex_unfold scale top Option.bind.simps prod.case pad_left_plain
        emits_emits if_True if_False not_False_eq_True Let_def append_assoc)
qed

lemma print_hex_big:
  assumes "2 ^ 60 < unat num" and "\<not> left_aligned d"
  shows "print_hex d num s =
    Some (emits (hex_prefix d @ [hex_chars (capitals d) ! (unat num div 2 ^ 60)] @
      replicate (nat (sint (hex_width d - 16))) (zfill d) @
      radix (hex_chars (capitals d)) 16 15 (unat num)) s)"
proof -
  let ?v = "of_nat (2 ^ (4 * 15)) :: u64"
  let ?c = "hex_chars (capitals d)"
  have "\<not> ndigits 16 (unat num) \<le> 15" using assms(1) by (simp add: ndigits_hex)
  then have "min 15 (ndigits 16 (unat num)) = 15" by simp
  then have scale: "bit_scale (push_bit 60 1) 4 num 0 1 = Some (of_nat 15, ?v)"
    by (simp only: bit_scale_hex)
  have v: "unat ?v = 2 ^ 60" by (subst unat_of_nat_u64) simp_all
  have lt: "?v < num" using assms(1) by (simp only: word_less_nat_alt v)
  have "unat num < 2 ^ 64" using unat_word_less [of num] by simp
  then have "unat num div 2 ^ 60 < 16" by (simp add: div_less_iff_less_mult)
  moreover have "unat (num div ?v) = unat num div 2 ^ 60" by (simp only: unat_div v)
  moreover have "length ?c = 16" using hex_chars_length by simp
  ultimately have "digit_of ?c (num div ?v) = Some (?c ! (unat num div 2 ^ 60))"
    by (simp add: digit_of_nth)
  then have top: "top_digit ?c num (of_nat 15) ?v s' =
      Some (num mod ?v, 16, emits [?c ! (unat num div 2 ^ 60)] s')" for s'
    by (simp only: top_digit_def lt if_True Option.bind.simps emit_emits) simp
  have rem: "unat (num mod ?v) = unat num mod 2 ^ 60" by (simp only: unat_mod v)
  have "bit_digits ?c 4 (num mod ?v) ?v s' =
      Some (emits (radix ?c (2 ^ 4) 15 (unat (num mod ?v))) s')" for s'
  proof (rule bit_digits_emits)
    show "unat (num mod ?v) < 2 ^ (4 * 15)" by (simp only: rem) simp
  qed (simp_all add: hex_chars_length)
  moreover have "radix ?c (2 ^ 4) 15 (unat (num mod ?v)) = radix ?c 16 15 (unat num)"
    using radix_mod [of 16 ?c 15 "unat num"] by (simp only: rem) simp
  ultimately have digits: "bit_digits ?c 4 (num mod ?v) ?v s' =
      Some (emits (radix ?c 16 15 (unat num)) s')" for s'
    by (simp only:)
  from assms(2) show ?thesis
    by (simp only: print_hex_unfold scale top digits Option.bind.simps prod.case pad_left_plain
        emits_emits if_True if_False not_False_eq_True Let_def append_assoc)
qed

text \<open>The format of every address the kernel prints.\<close>

lemma parse_hex64:
  "parse_directive ''#018llx'' s =
    Some (fresh_directive\<lparr>num_prefix := True, zero_fill := True, format_width := 18,
      format_length := LongLong, format_type := Int16\<rparr>, ''x'', s)"
  by (simp add: parse_directive_def parse_width_def parse_precision_def parse_length_def
      parse_conversion_def at_def is_digit_def fresh_directive_def)

lemma printf_loop_percent:
  "printf_loop ov (CHR ''%'' # cs) s =
    (case parse_directive cs s of
       None \<Rightarrow> None
     | Some (d, fmt, s) \<Rightarrow>
         (case convert ov d s of None \<Rightarrow> None | Some s \<Rightarrow> printf_loop ov (tl fmt) s))"
  by simp

lemma printf_hex64_convert:
  "printf ov m ''%#018llx'' [v] = map_option (\<lambda>s. (num_chars_written s, out s, pmem s))
    (print_hex (fresh_directive\<lparr>num_prefix := True, zero_fill := True, format_width := 18,
      format_length := LongLong, format_type := Int16\<rparr>) v
      \<lparr>out = [], num_chars_written = 0, va_list = [], pmem = m\<rparr>)"
  by (simp only: printf_def printf_loop_percent parse_hex64)
    (simp add: convert_def print_bits_def va_arg_def fetch_bits_def option.case_eq_if
      split: option.splits)

lemma printf_hex64_core:
  assumes "v \<noteq> 2 ^ 60"
  shows "map_option (\<lambda>s. (num_chars_written s, out s, pmem s))
      (print_hex (fresh_directive\<lparr>num_prefix := True, zero_fill := True, format_width := 18,
        format_length := LongLong, format_type := Int16\<rparr>) v
        \<lparr>out = [], num_chars_written = 0, va_list = [], pmem = m\<rparr>) =
    Some (18, ''0x'' @ radix ''0123456789abcdef'' 16 16 (unat v), m)"
proof -
  let ?d = "fresh_directive\<lparr>num_prefix := True, zero_fill := True, format_width := 18,
    format_length := LongLong, format_type := Int16\<rparr>"
  let ?n = "ndigits 16 (unat v)"
  have d: "hex_prefix ?d = ''0x''" "hex_width ?d = 16" "\<not> left_aligned ?d" "zfill ?d = CHR ''0''"
    "hex_chars (capitals ?d) = ''0123456789abcdef''"
    by (simp_all add: fresh_directive_def hex_prefix_def hex_width_def zfill_def hex_chars_def)
  have "print_hex ?d v s = Some (emits (''0x'' @ radix ''0123456789abcdef'' 16 16 (unat v)) s)" for s
  proof (cases "unat v < 2 ^ 60")
    case True
    then have n: "?n \<le> 15" by (simp add: ndigits_hex)
    then have "(16 :: u64) - of_nat ?n = of_nat (16 - ?n)" by simp
    then have "sint ((16 :: u64) - of_nat ?n) = int (16 - ?n)"
      by (simp only:) (simp add: signed_of_nat signed_take_bit_int_eq_self_iff)
    then have "replicate (nat (sint (16 - of_nat ?n :: u64))) CHR ''0'' =
        replicate (16 - ?n) (''0123456789abcdef'' ! 0)" by simp
    moreover have "radix ''0123456789abcdef'' 16 16 (unat v) =
        replicate (16 - ?n) (''0123456789abcdef'' ! 0) @ radix ''0123456789abcdef'' 16 ?n (unat v)"
      using n by (intro radix_leading ndigits_upper) simp_all
    ultimately show ?thesis using print_hex_small [OF True d(3), of s] by (simp only: d)
  next
    case False
    moreover have "unat v \<noteq> 2 ^ 60"
    proof
      assume "unat v = 2 ^ 60"
      then have "v = 2 ^ 60" by (simp add: word_unat_eq_iff)
      with assms show False by simp
    qed
    ultimately have big: "2 ^ 60 < unat v" by simp
    have "unat v < 2 ^ 64" using unat_word_less [of v] by simp
    then have "unat v div 2 ^ 60 < 16" by (simp add: div_less_iff_less_mult)
    then have "radix ''0123456789abcdef'' 16 16 (unat v) =
        ''0123456789abcdef'' ! (unat v div 2 ^ 60) # radix ''0123456789abcdef'' 16 15 (unat v)"
      using radix_Suc [of "''0123456789abcdef''" 16 15 "unat v"] by simp
    then show ?thesis using print_hex_big [OF big d(3), of s] by (simp only: d) simp
  qed
  then show ?thesis
    by (simp add: emits_out emits_count)
qed


text \<open>C14: \<open>printf("%#018llx", v)\<close>, the format of every address the kernel prints, writes \<open>0x\<close>
  and the sixteen hexadecimal digits of \<open>v\<close>, returns 18 and leaves memory alone, for every 64-bit
  \<open>v\<close> but \<open>2 ^ 60\<close>.\<close>

theorem printf_hex64:
  assumes "v \<noteq> 2 ^ 60"
  shows "printf ov m ''%#018llx'' [v] =
    Some (18, ''0x'' @ radix ''0123456789abcdef'' 16 16 (unat v), m)"
  using printf_hex64_core [OF assms] by (simp only: printf_hex64_convert)

theorem printf_hex64_witness:
  "printf x86_ov (\<lambda>_. 0) ''%#018llx'' [0xB8000] =
    Some (18, ''0x'' @ radix ''0123456789abcdef'' 16 16 0xB8000, \<lambda>_. 0)"
proof -
  have "(0xB8000 :: u64) \<noteq> 2 ^ 60" by simp
  from printf_hex64 [OF this, of x86_ov "\<lambda>_. 0"] show ?thesis by simp
qed

section \<open>The address format loses nothing, except at one value\<close>

text \<open>The text after \<open>0x\<close> reads back, in base 16, as the printed value: no two 64-bit
  values other than \<open>2 ^ 60\<close> print the same.\<close>

theorem printf_hex64_reads_back:
  assumes "v \<noteq> 2 ^ 60" and "printf ov m ''%#018llx'' [v] = Some (n, txt, m')"
  shows "read_radix ''0123456789abcdef'' 16 (drop 2 txt) = unat v"
proof -
  have "printf ov m ''%#018llx'' [v] = Some (18, ''0x'' @ radix ''0123456789abcdef'' 16 16 (unat v), m)"
    using printf_hex64_core [OF assms(1)] by (simp only: printf_hex64_convert)
  with assms(2) have "drop 2 txt = radix ''0123456789abcdef'' 16 16 (unat v)" by auto
  moreover have "unat v < 16 ^ 16" using unat_word_less [of v] by simp
  ultimately show ?thesis by (simp add: read_radix_radix)
qed

theorem printf_hex64_reads_back_witness:
  "read_radix ''0123456789abcdef'' 16 (radix ''0123456789abcdef'' 16 16 0xB8000) = 0xB8000"
proof -
  have ne: "(0xB8000 :: u64) \<noteq> 2 ^ 60" by simp
  have "printf x86_ov (\<lambda>_. 0) ''%#018llx'' [0xB8000] =
      Some (18, ''0x'' @ radix ''0123456789abcdef'' 16 16 (unat (0xB8000 :: u64)), \<lambda>_. 0)"
    using printf_hex64_core [OF ne] by (simp only: printf_hex64_convert)
  from printf_hex64_reads_back [OF ne this] show ?thesis by simp
qed

section \<open>The value the hexadecimal loop mishandles\<close>

text \<open>For \<open>2 ^ 60\<close> the scale stops at the number itself, the first digit is read one past
  the digit table and the text starts with a NUL instead of \<open>1\<close>.\<close>

theorem printf_hex_pow60:
  "printf ov m ''%llx'' [2 ^ 60] = Some (15, NUL # replicate 14 CHR ''0'', m)"
proof -
  let ?d = "fresh_directive\<lparr>format_length := LongLong, format_type := Int16\<rparr>"
  let ?v = "of_nat (2 ^ (4 * 15)) :: u64"
  have parse: "parse_directive ''llx'' s = Some (?d, ''x'', s)" for s
    by (simp add: parse_directive_def parse_width_def parse_precision_def parse_length_def
        parse_conversion_def at_def is_digit_def fresh_directive_def)
  have d: "hex_prefix ?d = []" "hex_width ?d = 0" "\<not> left_aligned ?d" "hex_chars (capitals ?d) = ''0123456789abcdef''"
    by (simp_all add: fresh_directive_def hex_prefix_def hex_width_def hex_chars_def)
  have u: "unat (2 ^ 60 :: u64) = 2 ^ 60" by simp
  then have "\<not> ndigits 16 (unat (2 ^ 60 :: u64)) \<le> 15" by (simp only: ndigits_hex less_irrefl not_False_eq_True)
  then have "min 15 (ndigits 16 (unat (2 ^ 60 :: u64))) = 15" by simp
  then have scale: "bit_scale (push_bit 60 1) 4 (2 ^ 60) 0 1 = Some (of_nat 15, ?v)"
    by (simp only: bit_scale_hex)
  have v: "?v = 2 ^ 60" by simp
  have top: "top_digit c (2 ^ 60) (of_nat 15) ?v s = Some (2 ^ 60, of_nat 15, s)" for c s
    by (simp add: top_digit_def)
  have low: "bit_digits ''0123456789abcdef'' 4 0 (of_nat (2 ^ (4 * 14))) s =
      Some (emits (radix ''0123456789abcdef'' (2 ^ 4) 14 (unat (0 :: u64))) s)" for s
    by (rule bit_digits_emits) simp_all
  have zeros: "radix ''0123456789abcdef'' (2 ^ 4) 14 (unat (0 :: u64)) = replicate 14 CHR ''0''"
    by (simp add: radix_def map_replicate_const)
  have first: "bit_digits ''0123456789abcdef'' 4 (2 ^ 60) ?v s =
      bit_digits ''0123456789abcdef'' 4 0 (of_nat (2 ^ (4 * 14))) (emit NUL s)" for s
    by (subst bit_digits.simps) (simp add: digit_of_def)
  have "print_hex ?d (2 ^ 60) s = Some (emits (NUL # replicate 14 CHR ''0'') s)" for s
    by (simp only: print_hex_unfold d scale top first low zeros Option.bind.simps prod.case
        pad_left_plain if_True if_False not_False_eq_True Let_def emit_emits emits_emits) simp
  then show ?thesis
    by (simp only: printf_def printf_loop_percent parse)
      (simp add: convert_def print_bits_def va_arg_def fetch_bits_def fresh_directive_def
        emits_out emits_count)
qed

section \<open>Decimal conversions\<close>

text \<open>Signed decimal notation.\<close>

definition dec_of_int :: "int \<Rightarrow> string" where
  "dec_of_int i = (if i < 0 then ''-'' else []) @
     radix dec_chars 10 (ndigits 10 (nat \<bar>i\<bar>)) (nat \<bar>i\<bar>)"

lemma parse_d: "parse_directive ''d'' s = Some (fresh_directive\<lparr>format_type := Int10\<rparr>, ''d'', s)"
  by (simp add: parse_directive_def parse_width_def parse_precision_def parse_length_def
      parse_conversion_def at_def is_digit_def fresh_directive_def)

lemma sint_widen: "sint (scast (w :: u32) :: u64) = sint w"
  by (simp add: sint_up_scast is_up)

lemma sint_u32_bounds: "- (2 ^ 31) \<le> sint (w :: u32)" "sint (w :: u32) < 2 ^ 31"
  using sint_greater_eq [of w] sint_less [of w] by simp_all

text \<open>The magnitude \<open>printf\<close> prints for a plain \<open>%d\<close> is exact, \<open>INT_MIN\<close> included.\<close>

lemma fetch_signed_int:
  "fetch_signed LengthMax a =
    (sint (low_int a) < 0, (if sint (low_int a) < 0 then - scast (low_int a) else scast (low_int a)))"
  by (simp add: fetch_signed_def Let_def sint_widen)

lemma unat_of_int_u64: "0 \<le> i \<Longrightarrow> i < 2 ^ 64 \<Longrightarrow> unat (word_of_int i :: u64) = nat i"
  by (simp add: unat_eq_nat_uint uint_word_of_int take_bit_int_eq_self)

lemma u64_of_sint: "(x :: u64) = word_of_int (sint x)"
  by simp

lemma unat_sint_nonneg: "0 \<le> sint (x :: u64) \<Longrightarrow> unat x = nat (sint x)"
  using sint_less [of x] by (subst (1) u64_of_sint) (rule unat_of_int_u64, simp_all)

lemma unat_uminus_sint: "sint (x :: u64) < 0 \<Longrightarrow> unat (- x) = nat (- sint x)"
proof -
  assume neg: "sint x < 0"
  have "- x = word_of_int (- sint x)" by simp
  moreover have "- sint x < 2 ^ 64" using sint_greater_eq [of x] by simp
  ultimately show ?thesis using neg by (simp only:) (rule unat_of_int_u64, simp_all)
qed

lemma fetch_signed_magnitude:
  "fetch_signed LengthMax a = (neg, num) \<Longrightarrow>
    neg = (sint (low_int a) < 0) \<and> unat num = nat \<bar>sint (low_int a)\<bar>"
  using unat_sint_nonneg [of "scast (low_int a)"] unat_uminus_sint [of "scast (low_int a)"]
  by (auto simp: fetch_signed_int sint_widen split: if_splits)

lemma sint_minus_small: "n \<le> 19 \<Longrightarrow> nat (sint (0 - of_nat n :: u64)) = 0"
proof -
  assume n: "n \<le> 19"
  have "sint (0 - of_nat n :: u64) = - int n"
    using n by (simp add: sint_word_ariths signed_of_nat signed_take_bit_int_eq_self_iff
        signed_take_bit_int_eq_self)
  then show ?thesis by simp
qed

lemma ndigits_10_le: "n < 10 ^ 19 \<Longrightarrow> ndigits 10 n \<le> 19"
proof (rule ccontr)
  assume n: "n < 10 ^ 19" and "\<not> ndigits 10 n \<le> 19"
  then have "10 ^ 19 \<le> (10 :: nat) ^ (ndigits 10 n - 1)" by (intro power_increasing) simp_all
  with \<open>\<not> ndigits 10 n \<le> 19\<close> ndigits_lower [of 10 n] n show False by simp
qed

text \<open>C15: \<open>printf("%d", n)\<close> writes the decimal notation of \<open>n\<close>, sign included, for every
  \<open>int\<close> value (\<open>INT_MIN\<close> too) and returns its length.\<close>

theorem printf_d:
  "printf ov m ''%d'' [a] =
    Some (of_nat (length (dec_of_int (sint (low_int a)))), dec_of_int (sint (low_int a)), m)"
proof -
  let ?i = "sint (low_int a)"
  let ?d = "fresh_directive\<lparr>format_type := Int10\<rparr>"
  obtain neg num where fetch: "fetch_signed LengthMax a = (neg, num)" by fastforce
  then have neg: "neg = (?i < 0)" and num: "unat num = nat \<bar>?i\<bar>"
    using fetch_signed_magnitude by blast+
  have small: "unat num < 10 ^ 19"
    using sint_u32_bounds [of "low_int a"] by (simp add: num nat_less_iff abs_if)
  have d: "\<not> left_aligned ?d" "\<not> thousands_separator ?d" "format_length ?d = LengthMax"
    "format_width ?d = 0" "\<not> prepend_pos ?d" "\<not> prepend_space ?d" "format_type ?d = Int10"
    by (simp_all add: fresh_directive_def)
  have dec: "print_decimal ?d 0 num s =
      Some (emits (radix dec_chars 10 (ndigits 10 (nat \<bar>?i\<bar>)) (nat \<bar>?i\<bar>)) s)" for s
    using print_decimal_emits [OF small d(1,2), of 0 s] ndigits_10_le [OF small]
    by (simp only: sint_minus_small replicate_0 append_Nil num)
  have "print_int10 ?d \<lparr>out = [], num_chars_written = 0, va_list = [a], pmem = m\<rparr> =
      Some (emits (dec_of_int ?i) \<lparr>out = [], num_chars_written = 0, va_list = [], pmem = m\<rparr>)"
    by (simp only: print_int10_def va_arg_def pf_state.simps list.case Option.bind.simps prod.case
        d fetch Let_def if_False neg)
      (simp add: dec shrink_width_def dec_of_int_def emit_emits)
  then show ?thesis
    by (simp only: printf_def printf_loop_percent parse_d)
      (simp add: convert_def d emits_out emits_count)
qed

section \<open>The returned count\<close>

text \<open>Every step of \<open>printf\<close> writes some characters and counts exactly these.\<close>

definition counts :: "pf_state \<Rightarrow> pf_state \<Rightarrow> bool" where
  "counts s t \<longleftrightarrow> (\<exists>cs. out t = out s @ cs \<and>
     num_chars_written t = num_chars_written s + of_nat (length cs))"

named_theorems counting

lemma counts_refl [counting, intro]: "counts s s"
  by (simp add: counts_def)

lemma counts_trans [trans]: "counts s t \<Longrightarrow> counts t u \<Longrightarrow> counts s u"
  by (auto simp: counts_def add.assoc)

lemma counts_emit [counting]: "counts s t \<Longrightarrow> counts s (emit c t)"
  by (auto simp: counts_def emit_def algebra_simps)

lemma counts_va_arg: "va_arg s = Some (a, t) \<Longrightarrow> counts s t"
  by (auto simp: va_arg_def counts_def split: list.splits)

lemma counts_dec_digits: "dec_digits p n e v s = Some (e', t) \<Longrightarrow> counts s t"
proof (induction p n e v s rule: dec_digits.induct)
  case (1 p n e v s)
  show ?case
  proof (cases "v > 1 \<and> v div 10 \<noteq> 0")
    case True
    let ?v = "v div 10" and ?e = "e - 1"
    let ?s = "emit (char_of (unat (48 + n div ?v))) s"
    let ?t = "if p \<and> ?e = (?e div 3) * 3 \<and> ?e \<noteq> 0 then emit CHR '','' ?s else ?s"
    have "dec_digits p (n mod ?v) ?e ?v ?t = Some (e', t)"
      using "1.prems" True by (simp add: dec_digits.simps [of p n e v s] Let_def)
    with True "1.IH" [of ?v ?e ?s "n mod ?v" ?t] have "counts ?t t" by simp
    moreover have "counts s ?t" by (auto intro: counting)
    ultimately show ?thesis by (blast intro: counts_trans)
  next
    case False
    then show ?thesis
      using "1.prems" by (auto simp: dec_digits.simps [of p n e v s] Let_def split: if_splits)
  qed
qed

lemma counts_bit_digits: "bit_digits c b n v s = Some t \<Longrightarrow> counts s t"
proof (induction c b n v s rule: bit_digits.induct)
  case (1 c b n v s)
  show ?case
  proof (cases "v > 1 \<and> b > 0 \<and> drop_bit b v \<noteq> 0")
    case True
    then obtain d where d: "digit_of c (n div drop_bit b v) = Some d"
      using "1.prems" by (auto simp: bit_digits.simps [of c b n v s] Let_def split: option.splits)
    then have "bit_digits c b (n mod drop_bit b v) (drop_bit b v) (emit d s) = Some t"
      using "1.prems" True by (simp add: bit_digits.simps [of c b n v s] Let_def)
    with True d "1.IH" [of "drop_bit b v" d] have "counts (emit d s) t" by simp
    moreover have "counts s (emit d s)" by (auto intro: counting)
    ultimately show ?thesis by (blast intro: counts_trans)
  next
    case False
    then show ?thesis
      using "1.prems" by (auto simp: bit_digits.simps [of c b n v s] Let_def split: if_splits)
  qed
qed

lemma counts_emits: "counts s (emits cs s)"
  by (auto simp: counts_def emits_out emits_count)

lemma counts_pad_right_count: "counts s (pad_right_count e s)"
  by (simp add: pad_right_count_emits counts_emits)

lemma counts_pad_right_spin: "pad_right_spin e s = Some t \<Longrightarrow> counts s t"
  using pad_right_spin_Some [of e s t] by auto

lemma counts_top_digit: "top_digit c n e v s = Some (n', e', t) \<Longrightarrow> counts s t"
  by (auto simp: top_digit_def Option.bind_eq_Some_conv split: if_splits intro: counting)

lemma counts_after_emits: "counts (emits cs s) t \<Longrightarrow> counts s t"
  by (rule counts_trans [OF counts_emits])

lemma counts_after_emit: "counts (emit c s) t \<Longrightarrow> counts s t"
  by (simp add: emit_emits counts_after_emits)

lemmas counts_dests = counts_va_arg counts_dec_digits counts_bit_digits counts_pad_right_spin
  counts_top_digit counts_after_emits counts_after_emit

lemma counts_print_decimal: "print_decimal d w n s = Some t \<Longrightarrow> counts s t"
  by (auto simp: print_decimal_def Option.bind_eq_Some_conv Let_def pad_left_plain split: if_splits
      dest!: counts_dests intro: counts_trans)

lemma counts_print_int10: "print_int10 d s = Some t \<Longrightarrow> counts s t"
  by (auto simp: print_int10_def Option.bind_eq_Some_conv Let_def split: if_splits prod.splits
      dest!: counts_va_arg counts_print_decimal counts_after_emit intro: counts_trans)

lemma counts_print_uint10: "print_uint10 d s = Some t \<Longrightarrow> counts s t"
  by (auto simp: print_uint10_def Option.bind_eq_Some_conv
      dest!: counts_va_arg counts_print_decimal intro: counts_trans)

lemma counts_print_hex: "print_hex d n s = Some t \<Longrightarrow> counts s t"
  by (auto simp: print_hex_unfold Option.bind_eq_Some_conv Let_def pad_left_plain split: if_splits
      dest!: counts_dests intro: counts_trans counts_pad_right_count)

lemma counts_print_oct: "print_oct d n s = Some t \<Longrightarrow> counts s t"
  by (auto simp: print_oct_def Option.bind_eq_Some_conv Let_def pad_left_plain emit_emits
      split: if_splits dest!: counts_dests intro: counts_trans counts_emits)

lemma counts_print_bin: "print_bin ov d n s = Some t \<Longrightarrow> counts s t"
  by (auto simp: print_bin_def Option.bind_eq_Some_conv Let_def pad_left_plain emit_emits
      split: if_splits dest!: counts_dests intro: counts_trans counts_emits)

lemma counts_print_bits: "print_bits ov d s = Some t \<Longrightarrow> counts s t"
  by (cases "format_type d")
    (auto simp: print_bits_def Option.bind_eq_Some_conv Let_def
      dest!: counts_va_arg counts_print_hex counts_print_oct counts_print_bin intro: counts_trans)

definition text_at :: "byte_mem \<Rightarrow> u64 \<Rightarrow> nat \<Rightarrow> string" where
  "text_at m p n = map (\<lambda>i. char_of (unat (m (p + of_nat i)))) [0..<n]"

lemma fold_emit_text:
  "fold (\<lambda>i s. emit (char_of (unat (pmem s (p + of_nat i)))) s) [0..<n] s =
    emits (text_at (pmem s) p n) s"
  by (induction n) (simp_all add: text_at_def emit_emits)

lemma print_string_emits:
  "print_string s =
    do { (p, s) \<leftarrow> va_arg s; len \<leftarrow> strlen (pmem s) p; Some (emits (text_at (pmem s) p (unat len)) s) }"
  by (simp add: print_string_def fold_emit_text)

lemma counts_convert: "convert ov d s = Some t \<Longrightarrow> counts s t"
proof -
  have char: "print_char s = Some t \<Longrightarrow> counts s t"
    by (auto simp: print_char_def Option.bind_eq_Some_conv dest!: counts_va_arg intro: counting)
  have str: "print_string s = Some t \<Longrightarrow> counts s t"
    by (auto simp: print_string_emits Option.bind_eq_Some_conv dest!: counts_va_arg
        intro: counts_trans counts_emits)
  have n: "print_nchars s = Some t \<Longrightarrow> counts s t"
    by (auto simp: print_nchars_def Option.bind_eq_Some_conv counts_def dest!: counts_va_arg)
  assume "convert ov d s = Some t"
  with char str n show ?thesis
    by (cases "format_type d")
      (auto simp: convert_def dest: counts_print_int10 counts_print_uint10 counts_print_bits
        intro: counting)
qed

lemma counts_parse_width: "parse_width fmt d s = Some (d', fmt', t) \<Longrightarrow> counts s t"
  by (auto simp: parse_width_def Option.bind_eq_Some_conv Let_def case_prod_unfold
      split: if_splits dest: counts_va_arg)

lemma counts_parse: "parse_directive fmt s = Some (d, fmt', t) \<Longrightarrow> counts s t"
  by (auto simp: parse_directive_def Option.bind_eq_Some_conv Let_def case_prod_unfold
      dest: counts_parse_width)

lemma counts_printf_loop: "printf_loop ov fmt s = Some t \<Longrightarrow> counts s t"
proof (induction ov fmt s rule: printf_loop.induct)
  case (1 ov s)
  then show ?case by auto
next
  case (2 ov c cs s)
  consider (esc) "c = CHR 0x5C \<and> at cs = CHR ''%''"
    | (lit) "\<not> (c = CHR 0x5C \<and> at cs = CHR ''%'')" "c \<noteq> CHR ''%''"
    | (conv) "\<not> (c = CHR 0x5C \<and> at cs = CHR ''%'')" "c = CHR ''%''" by blast
  then show ?case
  proof cases
    case esc
    with 2 have "counts (emit CHR ''%'' s) t" by simp
    then show ?thesis by (rule counts_after_emit)
  next
    case lit
    with 2 have "counts (emit c s) t" by simp
    then show ?thesis by (rule counts_after_emit)
  next
    case conv
    with "2.prems" obtain d fmt u v where p: "parse_directive cs s = Some (d, fmt, u)"
      and c: "convert ov d u = Some v" and l: "printf_loop ov (tl fmt) v = Some t"
      by (auto split: option.splits)
    have "counts v t" using "2.IH"(3) conv p c l by auto
    moreover have "counts s u" using p by (rule counts_parse)
    moreover have "counts u v" using c by (rule counts_convert)
    ultimately show ?thesis by (blast intro: counts_trans)
  qed
qed

text \<open>Whatever the format and the arguments, when \<open>printf\<close> returns, the value it returns is
  the number of characters it wrote (as an \<open>int\<close>).\<close>

theorem printf_count:
  assumes "printf ov m fmt args = Some (n, txt, m')"
  shows "n = of_nat (length txt)"
proof -
  let ?s = "\<lparr>out = [], num_chars_written = 0, va_list = args, pmem = m\<rparr>"
  obtain t where t: "printf_loop ov fmt ?s = Some t" "n = num_chars_written t" "txt = out t"
    using assms by (auto simp: printf_def)
  from t(1) have "counts ?s t" by (rule counts_printf_loop)
  with t(2,3) show ?thesis by (auto simp: counts_def)
qed

theorem printf_count_witness:
  "(2 :: u32) = of_nat (length ''ab'')"
proof -
  have "printf x86_ov (\<lambda>_. 0) ''ab'' [] = Some (2, ''ab'', \<lambda>_. 0)"
    by (simp add: printf_def emit_def)
  from printf_count [OF this] show ?thesis by simp
qed

text \<open>A format without \<open>%\<close> is written out as it is, with any arguments.\<close>

theorem printf_literal:
  assumes "CHR ''%'' \<notin> set fmt"
  shows "printf ov m fmt args = Some (of_nat (length fmt), fmt, m)"
proof -
  have "printf_loop ov fmt s = Some (emits fmt s)" for s
    using assms
  proof (induction fmt arbitrary: s)
    case (Cons c cs)
    then have "at cs \<noteq> CHR ''%''" by (cases cs) (auto simp: at_def)
    with Cons show ?case by (auto simp: emit_emits)
  qed simp
  then show ?thesis by (simp add: printf_def emits_out emits_count)
qed

theorem printf_literal_witness:
  "printf x86_ov (\<lambda>_. 0) ''kernel panic!'' [] = Some (13, ''kernel panic!'', \<lambda>_. 0)"
proof -
  have "CHR ''%'' \<notin> set ''kernel panic!''" by simp
  from printf_literal [OF this, of x86_ov "\<lambda>_. 0" "[]"] show ?thesis by simp
qed

text \<open>\<open>%s\<close> writes the C string its argument points to, up to and excluding the NUL.\<close>

theorem printf_s:
  assumes "c_string_at m p txt"
  shows "printf ov m ''%s'' [p] =
    Some (of_nat (length txt), map (\<lambda>b. char_of (unat b)) txt, m)"
proof -
  have parse: "parse_directive ''s'' s = Some (fresh_directive\<lparr>format_type := StringT\<rparr>, ''s'', s)" for s
    by (simp add: parse_directive_def parse_width_def parse_precision_def parse_length_def
        parse_conversion_def at_def is_digit_def fresh_directive_def)
  have len: "length txt < 2 ^ 64" and bytes: "\<forall>i < length txt. m (p + of_nat i) = txt ! i"
    using assms by (simp_all add: c_string_at_def)
  have "text_at m p (length txt) = map (\<lambda>b. char_of (unat b)) txt"
    using bytes by (auto simp: text_at_def intro: nth_equalityI)
  then show ?thesis
    by (simp only: printf_def printf_loop_percent parse)
      (simp add: convert_def fresh_directive_def print_string_emits va_arg_def
        strlen_c_string [OF assms] unat_of_nat_u64 [OF len] emits_out emits_count)
qed

theorem printf_s_witness:
  "printf x86_ov ((\<lambda>_. 0)(16 := 79, 17 := 75)) ''%s'' [16] =
    Some (2, ''OK'', (\<lambda>_. 0)(16 := 79, 17 := 75))"
proof -
  have "c_string_at ((\<lambda>_. 0)(16 := 79, 17 := 75)) 16 [79, 75]"
    by (auto simp: c_string_at_def less_Suc_eq)
  moreover have "map (\<lambda>b :: u8. char_of (unat b)) [79, 75] = ''OK''" by code_simp
  ultimately show ?thesis
    using printf_s [of "(\<lambda>_. 0)(16 := 79, 17 := 75)" 16 "[79, 75]" x86_ov] by simp
qed

section \<open>Arguments for which a conversion goes wrong\<close>

lemma dec_scale_max: "dec_scale num e v = Some r \<Longrightarrow> num \<noteq> - 1"
proof -
  assume "dec_scale num e v = Some r"
  then show ?thesis
  proof (rule dec_scale.raw_induct [where P = "\<lambda>num e v r. num \<noteq> - 1", rotated])
    fix f and num e v :: u64 and r
    assume IH: "\<And>num e v r. f num e v = Some r \<Longrightarrow> num \<noteq> - 1"
      and eq: "(let e = e + 1; v = v * 10 in if v > num then Some (e, v) else f num e v) = Some r"
    show "num \<noteq> - 1"
    proof (cases "v * 10 > num")
      case True
      then show ?thesis using word_order.extremum_strict [of "v * 10"] by auto
    next
      case False
      with eq have "f num (e + 1) (v * 10) = Some r" by (simp add: Let_def)
      then show ?thesis by (rule IH)
    qed
  qed
qed

text \<open>C38: \<open>printf("%llu", UINT64_MAX)\<close> never returns: no 64-bit power of ten exceeds the
  argument, so the search for one does not end.\<close>

theorem printf_llu_max_diverges: "printf ov m ''%llu'' [- 1] = None"
proof -
  have parse: "parse_directive ''llu'' s =
      Some (fresh_directive\<lparr>format_length := LongLong, format_type := UInt10\<rparr>, ''u'', s)" for s
    by (simp add: parse_directive_def parse_width_def parse_precision_def parse_length_def
        parse_conversion_def at_def is_digit_def fresh_directive_def)
  have "dec_scale (- 1) 0 1 = None"
    using dec_scale_max [of "- 1" 0 1] by (cases "dec_scale (- 1 :: u64) 0 1") auto
  then show ?thesis
    by (simp only: printf_def printf_loop_percent parse)
      (simp add: convert_def print_uint10_def va_arg_def fetch_unsigned_def fresh_directive_def
        print_decimal_def)
qed

text \<open>A field width has no effect on a left-aligned \<open>%d\<close>: \<open>%-8d\<close> writes the number and
  no padding.\<close>

theorem printf_left_d:
  "printf ov m ''%-8d'' [a] =
    Some (of_nat (length (dec_of_int (sint (low_int a)))), dec_of_int (sint (low_int a)), m)"
proof -
  let ?i = "sint (low_int a)"
  let ?d = "fresh_directive\<lparr>left_aligned := True, format_width := 8, format_type := Int10\<rparr>"
  have parse: "parse_directive ''-8d'' s = Some (?d, ''d'', s)" for s
    by (simp add: parse_directive_def parse_width_def parse_precision_def parse_length_def
        parse_conversion_def at_def is_digit_def fresh_directive_def)
  obtain neg num where fetch: "fetch_signed LengthMax a = (neg, num)" by fastforce
  then have neg: "neg = (?i < 0)" and num: "unat num = nat \<bar>?i\<bar>"
    using fetch_signed_magnitude by blast+
  have small: "unat num < 10 ^ 19"
    using sint_u32_bounds [of "low_int a"] by (simp add: num nat_less_iff abs_if)
  let ?n = "ndigits 10 (unat num)"
  have d: "left_aligned ?d" "\<not> thousands_separator ?d" "format_length ?d = LengthMax"
    "\<not> prepend_pos ?d" "\<not> prepend_space ?d" "format_type ?d = Int10"
    by (simp_all add: fresh_directive_def)
  have "unat num < 10 ^ ?n" by (rule ndigits_upper) simp
  then have "dec_digits False num (of_nat (?n + 0)) (of_nat (10 ^ ?n)) s =
      Some (of_nat 0, emits (sep_radix False 0 ?n (unat num)) s)" for s
    by (rule dec_digits_emits) (use ndigits_10_le [OF small] in simp_all)
  then have dec: "print_decimal ?d w num s =
      Some (emits (radix dec_chars 10 (ndigits 10 (nat \<bar>?i\<bar>)) (nat \<bar>?i\<bar>)) s)" for w s
    by (simp only: print_decimal_def dec_scale_start [OF small] d Option.bind.simps prod.case
        Let_def if_True if_False not_True_eq_False sep_radix_plain add_0_right)
      (simp add: d num)
  have "print_int10 ?d \<lparr>out = [], num_chars_written = 0, va_list = [a], pmem = m\<rparr> =
      Some (emits (dec_of_int ?i) \<lparr>out = [], num_chars_written = 0, va_list = [], pmem = m\<rparr>)"
    by (simp only: print_int10_def va_arg_def pf_state.simps list.case Option.bind.simps prod.case
        d fetch Let_def if_False neg)
      (simp add: dec dec_of_int_def emit_emits)
  then show ?thesis
    by (simp only: printf_def printf_loop_percent parse)
      (simp add: convert_def d emits_out emits_count)
qed

lemma bit_scale_oct:
  "bit_scale (push_bit 63 1) 3 num 0 1 =
    Some (of_nat (min 21 (ndigits 8 (unat num))), of_nat (2 ^ (3 * min 21 (ndigits 8 (unat num)))))"
proof -
  have "of_nat (2 ^ (3 * j)) < (push_bit 63 1 :: u64)" if "j < 21" for j
  proof -
    have "(2 :: nat) ^ (3 * j) < 2 ^ 63" using that by (intro power_strict_increasing) simp_all
    then have "unat (of_nat (2 ^ (3 * j)) :: u64) < 2 ^ 63"
      by (subst unat_of_nat_u64) simp_all
    then show ?thesis by (simp only: word_less_nat_alt) simp
  qed
  moreover have "push_bit 63 1 \<le> (of_nat (2 ^ (3 * 21)) :: u64)" by simp
  ultimately show ?thesis
    using bit_scale_from [of 3 21 "push_bit 63 1" num 0] by simp
qed

lemma top_digit_exp: "top_digit c n e v s = Some (n', e', t) \<Longrightarrow> e' = e \<or> e' = e + 1"
  by (auto simp: top_digit_def Option.bind_eq_Some_conv split: if_splits)

lemma print_oct_left: "left_aligned d \<Longrightarrow> print_oct d num s = None"
proof (rule ccontr)
  assume left: "left_aligned d" and "print_oct d num s \<noteq> None"
  then obtain r where "print_oct d num s = Some r" by auto
  with left obtain n' e e0 s0 s1 v t where
    scale: "bit_scale (push_bit 63 1) 3 num 0 1 = Some (e0, v)"
    and top': "top_digit ''01234567'' num e0 v s0 = Some (n', e, s1)"
    and spin: "pad_right_spin e t = Some r"
    by (auto simp: print_oct_def Option.bind_eq_Some_conv Let_def split: prod.splits)
  from scale have "e0 = of_nat (min 21 (ndigits 8 (unat num)))" by (simp only: bit_scale_oct) simp
  with top' have top: "top_digit ''01234567'' num (of_nat (min 21 (ndigits 8 (unat num)))) v s0 =
      Some (n', e, s1)" by simp
  let ?k = "min 21 (ndigits 8 (unat num))"
  have k: "0 < ?k" "?k \<le> 21" using ndigits_pos [of 8 "unat num"] by simp_all
  have "e = of_nat ?k \<or> e = of_nat (Suc ?k)" using top_digit_exp [OF top] by (auto simp: add.commute)
  moreover have "unat (of_nat ?k :: u64) = ?k"
    by (rule unat_of_nat_u64) simp
  moreover have "unat (of_nat (Suc ?k) :: u64) = Suc ?k"
    by (rule unat_of_nat_u64) simp
  ultimately have "unat e \<noteq> 0" using k(1) by (metis nat.simps(3) not_gr_zero)
  with pad_right_spin_Some [OF spin] show False by simp
qed

text \<open>\<open>%-o\<close> never returns, whatever its argument: the trailing padding loop tests a counter
  that it does not change and that is never 0 there.\<close>

theorem printf_left_o_diverges: "printf ov m ''%-o'' [a] = None"
proof -
  have parse: "parse_directive ''-o'' s =
      Some (fresh_directive\<lparr>left_aligned := True, format_type := Int8\<rparr>, ''o'', s)" for s
    by (simp add: parse_directive_def parse_width_def parse_precision_def parse_length_def
        parse_conversion_def at_def is_digit_def fresh_directive_def)
  show ?thesis
    by (simp only: printf_def printf_loop_percent parse)
      (simp add: convert_def print_bits_def va_arg_def fresh_directive_def print_oct_left)
qed

text \<open>\<open>%b\<close>: what it prints depends on the value the compiler gave \<open>1 << 63\<close>.\<close>

lemma parse_llb: "parse_directive ''llb'' s =
    Some (fresh_directive\<lparr>format_length := LongLong, format_type := Int2\<rparr>, ''b'', s)"
  by (simp add: parse_directive_def parse_width_def parse_precision_def parse_length_def
      parse_conversion_def at_def is_digit_def fresh_directive_def)

lemma printf_llb_convert:
  "printf ov m ''%llb'' [v] = map_option (\<lambda>s. (num_chars_written s, out s, pmem s))
    (print_bin ov (fresh_directive\<lparr>format_length := LongLong, format_type := Int2\<rparr>) v
      \<lparr>out = [], num_chars_written = 0, va_list = [], pmem = m\<rparr>)"
  by (simp only: printf_def printf_loop_percent parse_llb)
    (simp add: convert_def print_bits_def va_arg_def fetch_bits_def fresh_directive_def
      option.case_eq_if split: option.splits)

lemma c_one_shl_x86_63: "c_one_shl x86_ov 63 = 0xFFFFFFFF80000000"
  by (simp add: c_one_shl_def x86_ov_def int_to_u64_def)

lemma bit_scale_bin:
  assumes "unat num < 2 ^ 63"
  shows "bit_scale 0xFFFFFFFF80000000 1 num 0 1 =
    Some (of_nat (ndigits 2 (unat num)), of_nat (2 ^ ndigits 2 (unat num)))"
proof -
  have below: "of_nat (2 ^ (1 * j)) < (0xFFFFFFFF80000000 :: u64)" if "j < 63" for j
  proof -
    have "(2 :: nat) ^ j < 2 ^ 63" using that by (intro power_strict_increasing) simp_all
    then have "unat (of_nat (2 ^ j) :: u64) < 2 ^ 63" by (subst unat_of_nat_u64) simp_all
    then show ?thesis by (simp only: word_less_nat_alt mult_1) simp
  qed
  have "ndigits 2 (unat num) \<le> 63"
  proof (rule ccontr)
    assume "\<not> ndigits 2 (unat num) \<le> 63"
    then have "(2 :: nat) ^ 63 \<le> 2 ^ (ndigits 2 (unat num) - 1)" by (intro power_increasing) simp_all
    with \<open>\<not> ndigits 2 (unat num) \<le> 63\<close> ndigits_lower [of 2 "unat num"] assms show False by simp
  qed
  then have "min 63 (ndigits 2 (unat num)) = ndigits 2 (unat num)" by simp
  with bit_scale_from [of 1 63 "0xFFFFFFFF80000000" num 0] below assms show ?thesis by simp
qed

text \<open>Where the shift is executed by the processor (\<open>x86_ov\<close>), \<open>%llb\<close> writes the binary
  notation of every \<open>v < 2 ^ 63\<close>.\<close>

theorem printf_b_x86:
  assumes "unat v < 2 ^ 63"
  shows "\<exists>n. printf x86_ov m ''%llb'' [v] = Some (n, radix ''01'' 2 (ndigits 2 (unat v)) (unat v), m)"
proof -
  let ?d = "fresh_directive\<lparr>format_length := LongLong, format_type := Int2\<rparr>"
  let ?n = "ndigits 2 (unat v)"
  have d: "\<not> left_aligned ?d" "\<not> num_prefix ?d" "format_width ?d = 0"
    by (simp_all add: fresh_directive_def)
  have lt: "unat v < 2 ^ ?n" by (rule ndigits_upper) simp
  have n63: "?n \<le> 63"
  proof (rule ccontr)
    assume "\<not> ?n \<le> 63"
    then have "(2 :: nat) ^ 63 \<le> 2 ^ (?n - 1)" by (intro power_increasing) simp_all
    with \<open>\<not> ?n \<le> 63\<close> ndigits_lower [of 2 "unat v"] assms show False by simp
  qed
  have "(2 :: nat) ^ ?n < 2 ^ 64" using n63 by (intro power_strict_increasing) simp_all
  with lt have "\<not> of_nat (2 ^ ?n) < v"
    by (simp add: word_less_nat_alt unat_of_nat_u64 del: of_nat_power of_nat_numeral)
  then have top: "top_digit ''01'' v e (of_nat (2 ^ ?n)) s = Some (v, e, s)" for e s
    by (simp only: top_digit_def if_False)
  have "sint (0 - of_nat ?n :: u64) = - int ?n"
    using n63 by (simp add: sint_word_ariths signed_of_nat signed_take_bit_int_eq_self)
  then have pad: "nat (sint (0 - of_nat ?n :: u64)) = 0" by simp
  have digits: "bit_digits ''01'' 1 v (of_nat (2 ^ ?n)) s =
      Some (emits (radix ''01'' 2 ?n (unat v)) s)" for s
    using bit_digits_emits [of 1 "''01''" v ?n s] lt n63 by simp
  have zero: "emit CHR ''0'' s = emits (radix ''01'' 2 ?n (unat v)) s" if "v = 0" for s
    using that by (simp add: emit_emits radix_def ndigits.simps)
  have "print_bin x86_ov ?d v s = Some (emits (radix ''01'' 2 ?n (unat v)) s)" for s
    by (simp only: print_bin_def d c_one_shl_x86_63 bit_scale_bin [OF assms] top digits
        Option.bind.simps prod.case Let_def if_False not_False_eq_True if_True pad_left_plain pad
        replicate_0 emits_Nil) (simp add: zero)
  then show ?thesis by (simp only: printf_llb_convert) (simp add: emits_out)
qed

theorem printf_b_x86_witness:
  "\<exists>n. printf x86_ov (\<lambda>_. 0) ''%llb'' [5] = Some (n, radix ''01'' 2 (ndigits 2 5) 5, \<lambda>_. 0)"
  using printf_b_x86 [of 5 "\<lambda>_. 0"] by simp

text \<open>Where the compiler folded \<open>1 << 63\<close> to 0 (\<open>fold_ov\<close>), \<open>%llb\<close> of any value above 2
  reads outside its digit table.\<close>

theorem printf_b_fold:
  assumes "2 < unat v"
  shows "printf fold_ov m ''%llb'' [v] = None"
proof -
  have "bit_scale 0 1 v 0 1 = Some (0, 1)" by (subst bit_scale.simps) simp
  moreover have "digit_of ''01'' (v div 1) = None"
    using assms by (simp add: digit_of_def)
  moreover have "1 < v" using assms by (simp add: word_less_nat_alt)
  ultimately show ?thesis
    by (simp add: printf_llb_convert print_bin_def c_one_shl_def fold_ov_def top_digit_def
        fresh_directive_def)
qed

theorem printf_b_fold_witness: "printf fold_ov (\<lambda>_. 0) ''%llb'' [5] = None"
  by (rule printf_b_fold) simp

end
