(* ===== verification/Phys_Alloc.thy ===== *)
theory Phys_Alloc
  imports Prelude
begin

text \<open>
  The physical page allocator of \<open>kernel/kernel/memory.c\<close>: one bit per 4 KiB page, 64 pages to a
  word. \<open>page_bitmap_length\<close> is the length of the list, which \<open>page_allocator_init\<close> sets to
  16384 words (4 GiB of memory).

  The bit masks are the C expression \<open>1 << offset\<close> (\<open>c_one_shl\<close>), whose value for
  \<open>offset \<ge> 32\<close> is the parameter \<open>ov\<close>.
\<close>

section \<open>The operations\<close>

type_synonym bitmap = "u64 list"

definition INT64_MAX :: u64 where
  "INT64_MAX = 0x7FFFFFFFFFFFFFFF"

text \<open>\<open>(bitmap_index << 18) | (offset << 12)\<close> in \<open>int\<close>, widened to the 64-bit address.\<close>

definition frame_of :: "u16 \<Rightarrow> nat \<Rightarrow> u64" where
  "frame_of bitmap_index offset =
     int_to_u64 (push_bit 18 (ucast bitmap_index) OR push_bit 12 (of_nat offset))"

text \<open>The scan of one word: the first \<open>offset\<close> from 63 down whose mask tests clear.\<close>

definition first_clear :: "(nat \<Rightarrow> u64) \<Rightarrow> u64 \<Rightarrow> nat option" where
  "first_clear ov w = find (\<lambda>offset. w AND c_one_shl ov offset = 0) (rev [0..<64])"

text \<open>
  The loop over the words, with its 16-bit counter: \<open>Some None\<close> when it runs off the bitmap.
\<close>

partial_function (option) phys_alloc_loop ::
    "(nat \<Rightarrow> u64) \<Rightarrow> bitmap \<Rightarrow> u16 \<Rightarrow> (u64 \<times> bitmap) option option" where
  "phys_alloc_loop ov bm i =
     (if unat i < length bm
      then
        if bm ! unat i < INT64_MAX
        then (case first_clear ov (bm ! unat i) of
                Some offset \<Rightarrow>
                  Some (Some (frame_of i offset,
                    bm[unat i := bm ! unat i XOR c_one_shl ov offset]))
              | None \<Rightarrow> phys_alloc_loop ov bm (i + 1))
        else phys_alloc_loop ov bm (i + 1)
      else Some None)"

declare phys_alloc_loop.simps [code]

text \<open>The result code, the out parameter \<open>*frame\<close> and the bitmap.\<close>

definition page_physical_alloc ::
    "(nat \<Rightarrow> u64) \<Rightarrow> bitmap \<Rightarrow> u64 \<Rightarrow> (rc \<times> u64 \<times> bitmap) option" where
  "page_physical_alloc ov bm frame =
     (case phys_alloc_loop ov bm 0 of
        None \<Rightarrow> None
      | Some (Some (f, bm')) \<Rightarrow> Some (rc_ok, f, bm')
      | Some None \<Rightarrow> Some (rc_fail, frame, bm))"

text \<open>
  \<open>page_physical_alloc_multiple\<close>: the 8-bit run counter \<open>c\<close>; when the run is long enough the
  frame is the current page minus \<open>count\<close> pages, and one mask is flipped.
\<close>

fun multi_scan_word ::
    "(nat \<Rightarrow> u64) \<Rightarrow> u64 \<Rightarrow> u64 \<Rightarrow> u8 \<Rightarrow> nat list \<Rightarrow> u8 + nat" where
  "multi_scan_word ov w count c [] = Inl c"
| "multi_scan_word ov w count c (offset # offsets) =
     (let c = (if w AND c_one_shl ov offset = 0 then c + 1 else 0)
      in if ucast c = count then Inr offset else multi_scan_word ov w count c offsets)"

partial_function (option) phys_multi_loop ::
    "(nat \<Rightarrow> u64) \<Rightarrow> bitmap \<Rightarrow> u64 \<Rightarrow> u8 \<Rightarrow> u16 \<Rightarrow> (u64 \<times> bitmap) option option" where
  "phys_multi_loop ov bm count c i =
     (if unat i < length bm
      then
        if bm ! unat i < INT64_MAX
        then (case multi_scan_word ov (bm ! unat i) count c (rev [0..<64]) of
                Inr offset \<Rightarrow>
                  Some (Some (frame_of i offset - push_bit 12 count,
                    bm[unat i := bm ! unat i XOR c_one_shl ov offset]))
              | Inl c \<Rightarrow> phys_multi_loop ov bm count c (i + 1))
        else phys_multi_loop ov bm count 0 (i + 1)
      else Some None)"

declare phys_multi_loop.simps [code]

definition page_physical_alloc_multiple ::
    "(nat \<Rightarrow> u64) \<Rightarrow> bitmap \<Rightarrow> u64 \<Rightarrow> u64 \<Rightarrow> (rc \<times> u64 \<times> bitmap) option" where
  "page_physical_alloc_multiple ov bm frame count =
     (case phys_multi_loop ov bm count 0 0 of
        None \<Rightarrow> None
      | Some (Some (f, bm')) \<Rightarrow> Some (rc_ok, f, bm')
      | Some None \<Rightarrow> Some (rc_fail, frame, bm))"

text \<open>\<open>PAGE_STATUS(pointer)\<close>: the bit of page number \<open>pointer\<close>.\<close>

definition page_status :: "bitmap \<Rightarrow> u64 \<Rightarrow> u64" where
  "page_status bm pointer =
     drop_bit (unat (pointer AND 63)) (bm ! unat (drop_bit 6 pointer)) AND 1"

definition page_physical_free :: "(nat \<Rightarrow> u64) \<Rightarrow> bitmap \<Rightarrow> u64 \<Rightarrow> bitmap" where
  "page_physical_free ov bm frame =
     (if unat (drop_bit 18 frame) < length bm \<and> page_status bm (drop_bit 12 frame) = 0
      then bm[unat (drop_bit 18 frame) := bm ! unat (drop_bit 18 frame) XOR
             c_one_shl ov (unat (drop_bit 12 frame AND 63))]
      else bm)"

section \<open>The contract of a frame allocator\<close>

text \<open>
  What the clients of the allocator rely on: an allocation returns; a frame handed out was free
  and is not free afterwards, and nothing becomes free; a failure changes nothing. Page tables
  also need every frame to fit the address field of a table entry.
\<close>

definition ADDR_MASK :: u64 where
  "ADDR_MASK = 0x000FFFFFFFFFF000"

locale frame_source =
  fixes alloc :: "'s \<Rightarrow> u64 \<Rightarrow> (rc \<times> u64 \<times> 's) option"
    and free_frames :: "'s \<Rightarrow> u64 set"
    and invar :: "'s \<Rightarrow> bool"
  assumes alloc_returns: "invar s \<Longrightarrow> \<exists>r. alloc s f = Some r"
    and alloc_ok: "invar s \<Longrightarrow> alloc s f = Some (r, fr, s') \<Longrightarrow> r = rc_ok \<Longrightarrow>
      fr \<in> free_frames s \<and> free_frames s' \<subseteq> free_frames s - {fr} \<and> invar s'"
    and alloc_fail: "invar s \<Longrightarrow> alloc s f = Some (r, fr, s') \<Longrightarrow> r \<noteq> rc_ok \<Longrightarrow>
      r = rc_fail \<and> fr = f \<and> s' = s"
begin

text \<open>The frames of a run of allocations: up to \<open>n\<close>, stopping at the first failure.\<close>

fun run :: "nat \<Rightarrow> 's \<Rightarrow> u64 list" where
  "run 0 s = []"
| "run (Suc n) s =
     (case alloc s 0 of
        None \<Rightarrow> []
      | Some (r, f, s') \<Rightarrow> if r = rc_ok then f # run n s' else [])"

lemma run_distinct: "invar s \<Longrightarrow> distinct (run n s) \<and> set (run n s) \<subseteq> free_frames s"
proof (induction n arbitrary: s)
  case (Suc n)
  show ?case
  proof (cases "\<exists>f s'. alloc s 0 = Some (rc_ok, f, s')")
    case True
    then obtain f s' where a: "alloc s 0 = Some (rc_ok, f, s')" by blast
    from alloc_ok [OF Suc.prems a refl]
    have f: "f \<in> free_frames s" "free_frames s' \<subseteq> free_frames s - {f}" "invar s'" by auto
    from Suc.IH [OF f(3)] f a show ?thesis by auto
  next
    case False
    then show ?thesis by (auto split: option.splits)
  qed
qed simp

end

locale frame_allocator = frame_source +
  assumes frame_addr: "invar s \<Longrightarrow> fr \<in> free_frames s \<Longrightarrow> fr AND ADDR_MASK = fr"


section \<open>The scan\<close>

text \<open>A slot is a word and a bit the scan accepts; the slots in scan order.\<close>

definition slot_free :: "(nat \<Rightarrow> u64) \<Rightarrow> bitmap \<Rightarrow> nat \<Rightarrow> nat \<Rightarrow> bool" where
  "slot_free ov bm i offset \<longleftrightarrow>
     i < length bm \<and> offset < 64 \<and> bm ! i < INT64_MAX \<and> bm ! i AND c_one_shl ov offset = 0"

definition slots_from :: "nat \<Rightarrow> bitmap \<Rightarrow> (nat \<times> nat) list" where
  "slots_from i bm = List.product [i..<length bm] (rev [0..<64])"

definition free_frames :: "(nat \<Rightarrow> u64) \<Rightarrow> bitmap \<Rightarrow> u64 set" where
  "free_frames ov bm = {frame_of (of_nat i) offset | i offset. slot_free ov bm i offset}"

lemma find_append_eq: "find P (xs @ ys) = (case find P xs of None \<Rightarrow> find P ys | Some x \<Rightarrow> Some x)"
  by (induction xs) auto

lemma find_map_Pair:
  "find P (map (Pair i) xs) = map_option (Pair i) (find (\<lambda>x. P (i, x)) xs)"
  by (induction xs) auto

lemma slots_from_step:
  "i < length bm \<Longrightarrow> slots_from i bm = map (Pair i) (rev [0..<64]) @ slots_from (Suc i) bm"
  by (simp only: slots_from_def upt_conv_Cons product.simps)

lemma find_slots_step:
  assumes "i < length bm"
  shows "find (\<lambda>(i, off). slot_free ov bm i off) (slots_from i bm) =
    (case (if bm ! i < INT64_MAX then first_clear ov (bm ! i) else None) of
       None \<Rightarrow> find (\<lambda>(i, off). slot_free ov bm i off) (slots_from (Suc i) bm)
     | Some off \<Rightarrow> Some (i, off))"
proof -
  have *: "find (\<lambda>off. slot_free ov bm i off) (rev [0..<64]) =
      (if bm ! i < INT64_MAX then first_clear ov (bm ! i) else None)"
  proof (cases "bm ! i < INT64_MAX")
    case True
    then show ?thesis
      using assms unfolding first_clear_def
      by (auto intro!: find_cong simp: slot_free_def)
  next
    case False
    then show ?thesis by (auto simp: find_None_iff slot_free_def)
  qed
  show ?thesis
    by (simp only: slots_from_step [OF assms] find_append_eq find_map_Pair prod.case *)
      (simp split: option.splits)
qed

lemma unat_of_nat_u16: "n < 65536 \<Longrightarrow> unat (of_nat n :: u16) = n"
  by (simp add: unat_of_nat take_bit_nat_eq_self)

lemma phys_alloc_loop_scan:
  assumes "length bm \<le> 65535" and "i \<le> length bm"
  shows "phys_alloc_loop ov bm (of_nat i) =
    Some (case find (\<lambda>(i, off). slot_free ov bm i off) (slots_from i bm) of
            None \<Rightarrow> None
          | Some (i, off) \<Rightarrow>
              Some (frame_of (of_nat i) off, bm[i := bm ! i XOR c_one_shl ov off]))"
  using assms(2)
proof (induction rule: inc_induct)
  case base
  have "unat (of_nat (length bm) :: u16) = length bm"
    using assms(1) by (intro unat_of_nat_u16) simp
  then show ?case
    by (subst phys_alloc_loop.simps) (simp add: slots_from_def)
next
  case (step i)
  have u: "unat (of_nat i :: u16) = i"
    using assms(1) step.hyps by (intro unat_of_nat_u16) simp
  have s: "of_nat i + 1 = (of_nat (Suc i) :: u16)" by simp
  show ?case
    by (subst phys_alloc_loop.simps, simp only: u s step.IH find_slots_step [OF step.hyps(2)])
      (use step.hyps(2) in \<open>simp split: option.splits\<close>)
qed

text \<open>One lemma for the allocator: what it returns is the first free slot in scan order.\<close>

lemma page_physical_alloc_scan:
  assumes "length bm \<le> 65535"
  shows "page_physical_alloc ov bm f =
    Some (case find (\<lambda>(i, off). slot_free ov bm i off) (slots_from 0 bm) of
            None \<Rightarrow> (rc_fail, f, bm)
          | Some (i, off) \<Rightarrow>
              (rc_ok, frame_of (of_nat i) off, bm[i := bm ! i XOR c_one_shl ov off]))"
  using phys_alloc_loop_scan [OF assms, of 0 ov]
  by (simp add: page_physical_alloc_def split: option.splits)

lemma find_slot_Some:
  "find (\<lambda>(i, off). slot_free ov bm i off) (slots_from 0 bm) = Some (i, off) \<Longrightarrow> slot_free ov bm i off"
  by (auto simp: find_Some_iff)

lemma find_slot_None:
  "find (\<lambda>(i, off). slot_free ov bm i off) (slots_from 0 bm) = None \<longleftrightarrow>
     (\<forall>i off. \<not> slot_free ov bm i off)"
  by (auto simp: find_None_iff slots_from_def slot_free_def)

section \<open>The frame of a slot\<close>

lemma bit_of_nat_bound: "m < 2 ^ n \<Longrightarrow> n \<le> k \<Longrightarrow> \<not> bit (of_nat m :: 'a::len word) k"
proof -
  assume "m < 2 ^ n" "n \<le> k"
  then have "m < 2 ^ k" by (meson less_le_trans one_le_numeral power_increasing)
  then show ?thesis by (simp add: bit_of_nat_iff bit_iff_odd [of m])
qed

lemma int_to_u64_low: "m < 2 ^ 31 \<Longrightarrow> int_to_u64 (of_nat m) = of_nat m"
proof -
  assume m: "m < 2 ^ 31"
  then have "sint (of_nat m :: u32) = int m"
    by (simp add: sint_uint unsigned_of_nat take_bit_nat_eq_self signed_take_bit_int_eq_self)
  then show ?thesis
    unfolding int_to_u64_def by (metis of_int_of_nat_eq of_int_sint)
qed

lemma int_to_u64_high:
  "2 ^ 31 \<le> m \<Longrightarrow> m < 2 ^ 32 \<Longrightarrow> int_to_u64 (of_nat m) = of_nat m + 0xFFFFFFFF00000000"
proof -
  assume m: "2 ^ 31 \<le> m" "m < 2 ^ 32"
  have "int m - 2 ^ 32 = signed_take_bit 31 (int m - 2 ^ 32)"
    using m by (intro signed_take_bit_int_eq_self [symmetric]) auto
  also have "\<dots> = signed_take_bit 31 (int m)"
    by (rule signed_take_bit_eq_iff_take_bit_eq [THEN iffD2]) (simp add: take_bit_eq_mod)
  finally have "sint (of_nat m :: u32) = int m - 2 ^ 32"
    by (simp add: signed_of_nat)
  then have "int_to_u64 (of_nat m) = word_of_int (int m - 2 ^ 32)"
    by (metis int_to_u64_def of_int_sint)
  then show ?thesis by simp
qed

lemma frame_word:
  assumes off: "off < 64" and i: "i < 65536"
  shows "(push_bit 18 (ucast (of_nat i :: u16)) OR push_bit 12 (of_nat off) :: u32) =
    of_nat ((64 * i + off) * 4096)"
proof -
  have o: "\<not> bit (of_nat off :: u32) n" if "6 \<le> n" for n
    using off that by (intro bit_of_nat_bound [of _ 6]) simp_all
  have u: "(ucast (of_nat i :: u16) :: u32) = of_nat i"
    using i by (simp add: word_unat_eq_iff unat_of_nat unsigned_of_nat take_bit_nat_eq_self)
  have "\<not> bit (push_bit 18 (of_nat i) :: u32) n \<or> \<not> bit (push_bit 12 (of_nat off) :: u32) n" for n
    using o [of "n - 12"] by (auto simp: bit_simps)
  then have "(push_bit 18 (of_nat i) OR push_bit 12 (of_nat off) :: u32) =
      push_bit 18 (of_nat i) + push_bit 12 (of_nat off)"
    by (intro disjunctive_add [symmetric]) blast
  then show ?thesis by (simp add: u push_bit_eq_mult algebra_simps)
qed

lemma frame_of_int:
  "i < 65536 \<Longrightarrow> off < 64 \<Longrightarrow> frame_of (of_nat i) off = int_to_u64 (of_nat ((64 * i + off) * 4096))"
  by (simp only: frame_of_def frame_word)

lemma frame_of_low:
  assumes "i < 8192" "off < 64"
  shows "frame_of (of_nat i) off = of_nat ((64 * i + off) * 4096)"
proof -
  have "(64 * i + off) * 4096 < 2 ^ 31" using assms by simp
  from int_to_u64_low [OF this] show ?thesis
    using frame_of_int [of i off] assms by (simp only:)
qed

lemma frame_of_high:
  assumes "8192 \<le> i" "i < 16384" "off < 64"
  shows "frame_of (of_nat i) off = of_nat ((64 * i + off) * 4096) + 0xFFFFFFFF00000000"
proof -
  have "2 ^ 31 \<le> (64 * i + off) * 4096" "(64 * i + off) * 4096 < 2 ^ 32" using assms by simp_all
  from int_to_u64_high [OF this] show ?thesis
    using frame_of_int [of i off] assms by (simp only:)
qed

lemma int_to_u64_inj: "int_to_u64 x = int_to_u64 y \<longleftrightarrow> x = y"
proof
  assume eq: "int_to_u64 x = int_to_u64 y"
  show "x = y"
  proof (rule bit_word_eqI)
    fix n assume "n < LENGTH(32)"
    then show "bit x n = bit y n"
      using arg_cong [OF eq, of "\<lambda>w. bit w n"]
      by (cases "n = 31") (auto simp: int_to_u64_def bit_simps)
  qed
qed simp

lemma of_nat_inj_u32:
  "m < 2 ^ 32 \<Longrightarrow> n < 2 ^ 32 \<Longrightarrow> (of_nat m :: u32) = of_nat n \<longleftrightarrow> m = n"
  using of_nat_inj_word [where 'a = 32, of m n] by simp

lemma frame_of_inj:
  assumes "i < 16384" "j < 16384" "a < 64" "b < 64"
    and eq: "frame_of (of_nat i) a = frame_of (of_nat j) b"
  shows "i = j \<and> a = b"
proof -
  have lt: "(64 * i + a) * 4096 < 2 ^ 32" "(64 * j + b) * 4096 < 2 ^ 32" using assms(1-4) by simp_all
  have "int_to_u64 (of_nat ((64 * i + a) * 4096)) = int_to_u64 (of_nat ((64 * j + b) * 4096))"
    using eq frame_of_int [of i a] frame_of_int [of j b] assms(1-4) by (simp only:)
  then have "(of_nat ((64 * i + a) * 4096) :: u32) = of_nat ((64 * j + b) * 4096)"
    by (simp only: int_to_u64_inj)
  then have "(64 * i + a) * 4096 = (64 * j + b) * 4096"
    using lt by (simp only: of_nat_inj_u32)
  then have e: "64 * i + a = 64 * j + b" by simp
  have "i = (64 * i + a) div 64" "j = (64 * j + b) div 64" using assms(3,4) by simp_all
  with e have "i = j" by (simp only:)
  with e show ?thesis by simp
qed

lemma page_addr_mask: "p < 2 ^ 40 \<Longrightarrow> of_nat (p * 4096) AND ADDR_MASK = (of_nat (p * 4096) :: u64)"
proof -
  assume p: "p < 2 ^ 40"
  have "(of_nat (p * 4096) :: u64) = push_bit 12 (of_nat p)"
    by (simp add: push_bit_eq_mult mult.commute)
  moreover have "ADDR_MASK = push_bit 12 (mask 40)"
    by (simp add: ADDR_MASK_def mask_eq_exp_minus_1 push_bit_eq_mult)
  moreover have "push_bit 12 (of_nat p) AND push_bit 12 (mask 40) = (push_bit 12 (of_nat p) :: u64)"
    using bit_of_nat_bound [OF p, where 'a = 64] by (intro bit_word_eqI) (auto simp: bit_simps not_le [symmetric])
  ultimately show ?thesis by simp
qed

section \<open>The contract holds\<close>

text \<open>
  The bitmap has at most the 16384 words \<open>page_allocator_init\<close> gives it. Frames from 2 GiB up do
  not survive the \<open>int\<close> arithmetic of \<open>page_physical_alloc\<close>; page tables need the words that
  describe them to be full.
\<close>

definition phys_inv :: "bitmap \<Rightarrow> bool" where
  "phys_inv bm \<longleftrightarrow> length bm \<le> 16384"

definition phys_inv_low :: "bitmap \<Rightarrow> bool" where
  "phys_inv_low bm \<longleftrightarrow> length bm \<le> 16384 \<and>
     (\<forall>i < length bm. 8192 \<le> i \<longrightarrow> \<not> bm ! i < INT64_MAX)"

lemma slot_free_mark:
  assumes free: "slot_free ov bm i off"
    and s: "slot_free ov (bm[i := bm ! i XOR c_one_shl ov off]) j b"
    and nz: "c_one_shl ov off \<noteq> 0"
  shows "slot_free ov bm j b \<and> (j, b) \<noteq> (i, off)"
proof -
  have x: "bm ! i XOR c_one_shl ov off = bm ! i OR c_one_shl ov off"
    using free by (intro xor_eq_or_if_disjoint) (simp add: slot_free_def)
  show ?thesis
  proof (cases "j = i")
    case True
    have i: "i < length bm" "bm ! i < INT64_MAX" using free by (simp_all add: slot_free_def)
    have z: "(bm ! i OR c_one_shl ov off) AND c_one_shl ov b = 0" "b < 64"
      using s True i by (simp_all add: slot_free_def x)
    have "bm ! i AND c_one_shl ov b = 0"
      using z(1) and_or_absorb_neq_0 by blast
    moreover have "b \<noteq> off"
      using z(1) nz by (auto simp: or_and_self)
    ultimately show ?thesis using True i z(2) by (simp add: slot_free_def)
  next
    case False
    then show ?thesis using s by (simp add: slot_free_def)
  qed
qed

lemma slot_free_frame_inj:
  "length bm \<le> 16384 \<Longrightarrow> slot_free ov bm i a \<Longrightarrow> slot_free ov bm j b \<Longrightarrow>
    frame_of (of_nat i) a = frame_of (of_nat j) b \<Longrightarrow> (i, a) = (j, b)"
  using frame_of_inj [of i j a b] by (auto simp: slot_free_def)

lemma free_frames_mark:
  assumes "length bm \<le> 16384" and free: "slot_free ov bm i off" and nz: "ov_marks ov"
  shows "free_frames ov (bm[i := bm ! i XOR c_one_shl ov off])
    \<subseteq> free_frames ov bm - {frame_of (of_nat i) off}"
proof
  fix f assume "f \<in> free_frames ov (bm[i := bm ! i XOR c_one_shl ov off])"
  then obtain j b where f: "f = frame_of (of_nat j) b"
    and s: "slot_free ov (bm[i := bm ! i XOR c_one_shl ov off]) j b"
    by (auto simp: free_frames_def)
  have "off < 64" using free by (simp add: slot_free_def)
  from slot_free_mark [OF free s ov_marksD [OF nz this]]
  have sf: "slot_free ov bm j b" "(j, b) \<noteq> (i, off)" by auto
  then have "f \<noteq> frame_of (of_nat i) off"
    using slot_free_frame_inj [OF assms(1) sf(1) free] f by auto
  then show "f \<in> free_frames ov bm - {frame_of (of_nat i) off}"
    using sf(1) f by (auto simp: free_frames_def)
qed

lemma page_physical_alloc_contract:
  assumes inv: "length bm \<le> 16384" and marks: "ov_marks ov"
  shows "\<exists>r. page_physical_alloc ov bm f = Some r"
    and "page_physical_alloc ov bm f = Some (rc_ok, fr, bm') \<Longrightarrow>
      fr \<in> free_frames ov bm \<and> free_frames ov bm' \<subseteq> free_frames ov bm - {fr} \<and>
      length bm' = length bm \<and> (\<forall>i. \<not> bm ! i < INT64_MAX \<longrightarrow> bm' ! i = bm ! i)"
    and "page_physical_alloc ov bm f = Some (r, fr, bm') \<Longrightarrow> r \<noteq> rc_ok \<Longrightarrow>
      r = rc_fail \<and> fr = f \<and> bm' = bm"
proof -
  have len: "length bm \<le> 65535" using inv by simp
  note scan = page_physical_alloc_scan [OF len, of ov f]
  show "\<exists>r. page_physical_alloc ov bm f = Some r" unfolding scan by (rule exI, rule refl)
  show "page_physical_alloc ov bm f = Some (r, fr, bm') \<Longrightarrow> r \<noteq> rc_ok \<Longrightarrow>
      r = rc_fail \<and> fr = f \<and> bm' = bm"
    by (simp add: scan split: option.splits prod.splits)
  assume "page_physical_alloc ov bm f = Some (rc_ok, fr, bm')"
  then obtain i off where
    s: "find (\<lambda>(i, off). slot_free ov bm i off) (slots_from 0 bm) = Some (i, off)"
    and fr: "fr = frame_of (of_nat i) off" and bm': "bm' = bm[i := bm ! i XOR c_one_shl ov off]"
    by (auto simp: scan split: option.splits)
  from find_slot_Some [OF s] have free: "slot_free ov bm i off" .
  then show "fr \<in> free_frames ov bm \<and> free_frames ov bm' \<subseteq> free_frames ov bm - {fr} \<and>
      length bm' = length bm \<and> (\<forall>i. \<not> bm ! i < INT64_MAX \<longrightarrow> bm' ! i = bm ! i)"
    using free_frames_mark [OF inv free marks] unfolding fr bm'
    by (auto simp: free_frames_def slot_free_def nth_list_update)
qed

lemma free_frames_addr:
  assumes "phys_inv_low bm" and "f \<in> free_frames ov bm"
  shows "f AND ADDR_MASK = f"
proof -
  from assms(2) obtain i off where f: "f = frame_of (of_nat i) off" and s: "slot_free ov bm i off"
    by (auto simp: free_frames_def)
  have i: "i < 8192" "off < 64"
    using s assms(1) by (auto simp: phys_inv_low_def slot_free_def not_less [symmetric])
  then have "64 * i + off < 2 ^ 40" by simp
  from page_addr_mask [OF this] show ?thesis
    using frame_of_low [OF i] by (simp only: f)
qed

text \<open>The allocator of the kernel, with the shift of an x86 processor.\<close>

interpretation x86: frame_source "page_physical_alloc x86_ov" "free_frames x86_ov" phys_inv
proof unfold_locales
  fix s f r fr s'
  show "phys_inv s \<Longrightarrow> \<exists>r. page_physical_alloc x86_ov s f = Some r"
    using page_physical_alloc_contract(1) [of s x86_ov f] by (simp add: phys_inv_def)
  show "phys_inv s \<Longrightarrow> page_physical_alloc x86_ov s f = Some (r, fr, s') \<Longrightarrow> r = rc_ok \<Longrightarrow>
      fr \<in> free_frames x86_ov s \<and> free_frames x86_ov s' \<subseteq> free_frames x86_ov s - {fr} \<and> phys_inv s'"
    using page_physical_alloc_contract(2) [of s x86_ov f fr s'] by (simp add: phys_inv_def)
  show "phys_inv s \<Longrightarrow> page_physical_alloc x86_ov s f = Some (r, fr, s') \<Longrightarrow> r \<noteq> rc_ok \<Longrightarrow>
      r = rc_fail \<and> fr = f \<and> s' = s"
    using page_physical_alloc_contract(3) [of s x86_ov f r fr s'] by (simp add: phys_inv_def)
qed

interpretation x86_low: frame_allocator "page_physical_alloc x86_ov" "free_frames x86_ov" phys_inv_low
proof unfold_locales
  fix s f r fr s'
  show "phys_inv_low s \<Longrightarrow> \<exists>r. page_physical_alloc x86_ov s f = Some r"
    using page_physical_alloc_contract(1) [of s x86_ov f] by (simp add: phys_inv_low_def)
  show "phys_inv_low s \<Longrightarrow> page_physical_alloc x86_ov s f = Some (r, fr, s') \<Longrightarrow> r = rc_ok \<Longrightarrow>
      fr \<in> free_frames x86_ov s \<and> free_frames x86_ov s' \<subseteq> free_frames x86_ov s - {fr} \<and> phys_inv_low s'"
    using page_physical_alloc_contract(2) [of s x86_ov f fr s'] by (simp add: phys_inv_low_def)
  show "phys_inv_low s \<Longrightarrow> page_physical_alloc x86_ov s f = Some (r, fr, s') \<Longrightarrow> r \<noteq> rc_ok \<Longrightarrow>
      r = rc_fail \<and> fr = f \<and> s' = s"
    using page_physical_alloc_contract(3) [of s x86_ov f r fr s'] by (simp add: phys_inv_low_def)
  show "phys_inv_low s \<Longrightarrow> fr \<in> free_frames x86_ov s \<Longrightarrow> fr AND ADDR_MASK = fr"
    by (rule free_frames_addr)
qed

section \<open>Properties\<close>

lemma find_rev_upt_Some:
  "find P (rev [0..<n]) = Some k \<Longrightarrow> k < n \<and> P k \<and> (\<forall>j < n. P j \<longrightarrow> j \<le> k)"
  by (induction n) (auto split: if_splits simp: less_Suc_eq)

lemma find_slots_first:
  assumes "find (\<lambda>(i, off). slot_free ov bm i off) (slots_from k bm) = Some (i, off)" and "k \<le> length bm"
  shows "\<forall>j b. k \<le> j \<longrightarrow> slot_free ov bm j b \<longrightarrow> i < j \<or> i = j \<and> b \<le> off"
  using assms(2,1)
proof (induction rule: inc_induct)
  case base
  then show ?case by (simp add: slots_from_def)
next
  case (step n)
  note st = find_slots_step [OF step.hyps(2), of ov]
  show ?case
  proof (cases "if bm ! n < INT64_MAX then first_clear ov (bm ! n) else None")
    case None
    then have nf: "\<not> slot_free ov bm n b" for b
      by (auto simp: slot_free_def first_clear_def find_None_iff split: if_splits)
    from None step.prems have "find (\<lambda>(i, off). slot_free ov bm i off) (slots_from (Suc n) bm) = Some (i, off)"
      by (simp only: st option.case)
    from step.IH [OF this] nf show ?thesis
      by (metis le_eq_less_or_eq Suc_leI)
  next
    case (Some b)
    with step.prems have "i = n" "b = off"
      by (simp_all only: st option.case option.inject prod.inject)
    moreover from Some have "\<forall>c < 64. bm ! n AND c_one_shl ov c = 0 \<longrightarrow> c \<le> b"
      by (auto simp: first_clear_def dest!: find_rev_upt_Some split: if_splits)
    ultimately show ?thesis by (auto simp: slot_free_def)
  qed
qed



text \<open>A run of allocations, as the kernel makes them: the frames handed out, until one fails.\<close>

fun alloc_frames :: "(nat \<Rightarrow> u64) \<Rightarrow> nat \<Rightarrow> bitmap \<Rightarrow> u64 list" where
  "alloc_frames ov 0 bm = []"
| "alloc_frames ov (Suc n) bm =
     (case page_physical_alloc ov bm 0 of
        None \<Rightarrow> []
      | Some (r, f, bm') \<Rightarrow> if r = rc_ok then f # alloc_frames ov n bm' else [])"

lemma alloc_frames_run: "alloc_frames x86_ov n bm = x86.run n bm"
  by (induction n arbitrary: bm) (auto split: option.splits)

text \<open>C31: on an x86 processor no page frame is handed out twice: the frames of any run of
  allocations from a bitmap of the size the kernel sets up are distinct, each was free at the
  start, and none is free in the bitmap from which the run continues.\<close>

theorem phys_alloc_run_distinct:
  assumes "phys_inv bm"
  shows "distinct (alloc_frames x86_ov n bm) \<and> set (alloc_frames x86_ov n bm) \<subseteq> free_frames x86_ov bm"
  using x86.run_distinct [OF assms, of n] by (simp only: alloc_frames_run)

theorem phys_alloc_run_distinct_witness:
  "distinct (alloc_frames x86_ov 40 [0, 0])"
  using phys_alloc_run_distinct [of "[0, 0]" 40] by (simp add: phys_inv_def)

text \<open>The frames of the first 2 GiB are what the page tables can hold: page \<open>64 * i + off\<close>
  has the address \<open>4096 * (64 * i + off)\<close>, different pages have different addresses, and the
  address is its own address field.\<close>

theorem phys_frame_address:
  assumes "i < 8192" "off < 64" "j < 8192" "b < 64"
  shows "unat (frame_of (of_nat i) off) = (64 * i + off) * 4096 \<and>
    frame_of (of_nat i) off AND ADDR_MASK = frame_of (of_nat i) off \<and>
    (frame_of (of_nat i) off = frame_of (of_nat j) b \<longrightarrow> i = j \<and> off = b)"
proof -
  have "(64 * i + off) * 4096 < 2 ^ 64" using assms(1,2) by simp
  from unat_of_nat_u64 [OF this] have "unat (frame_of (of_nat i) off) = (64 * i + off) * 4096"
    by (simp only: frame_of_low [OF assms(1,2)])
  moreover have "64 * i + off < 2 ^ 40" using assms(1,2) by simp
  from page_addr_mask [OF this] have "frame_of (of_nat i) off AND ADDR_MASK = frame_of (of_nat i) off"
    by (simp only: frame_of_low [OF assms(1,2)])
  ultimately show ?thesis using frame_of_inj [of i j off b] assms by auto
qed

theorem phys_frame_address_witness: "unat (frame_of 5 3) = 323 * 4096"
  using phys_frame_address [of 5 3 0 0] by simp

text \<open>Once the first 2 GiB are taken, what \<open>page_physical_alloc\<close> returns with success is not
  a physical address: \<open>bitmap_index << 18\<close> is computed in \<open>int\<close> and sign-extends, so the frame
  lies above \<open>0xFFFFFFFF80000000\<close>.\<close>

theorem phys_alloc_above_2G:
  assumes inv: "phys_inv bm" and low: "\<forall>i < 8192. \<not> bm ! i < INT64_MAX"
    and free: "slot_free ov bm k b"
  shows "\<exists>fr bm'. page_physical_alloc ov bm f = Some (rc_ok, fr, bm') \<and> 0xFFFFFFFF80000000 \<le> fr"
proof -
  have len: "length bm \<le> 65535" using inv by (simp add: phys_inv_def)
  obtain i off where s: "find (\<lambda>(i, off). slot_free ov bm i off) (slots_from 0 bm) = Some (i, off)"
    using find_slot_None [of ov bm] free by (cases "find (\<lambda>(i, off). slot_free ov bm i off) (slots_from 0 bm)") auto
  from find_slot_Some [OF s] have i: "8192 \<le> i" "i < 16384" "off < 64"
    using low inv by (auto simp: slot_free_def phys_inv_def not_less [symmetric])
  define m where "m = (64 * i + off) * 4096 - 2 ^ 31"
  have m: "(64 * i + off) * 4096 = m + 2 ^ 31" "m < 2 ^ 31" using i by (simp_all add: m_def)
  have "frame_of (of_nat i) off = of_nat (m + 2 ^ 31) + 0xFFFFFFFF00000000"
    using frame_of_high [OF i] by (simp only: m(1))
  then have "frame_of (of_nat i) off = of_nat m + 0xFFFFFFFF80000000" by simp
  moreover have "unat (of_nat m :: u64) = m" using m(2) by (intro unat_of_nat_u64) simp
  moreover have "unat (of_nat m + 0xFFFFFFFF80000000 :: u64) = m + unat (0xFFFFFFFF80000000 :: u64)"
    using m(2) calculation(2) by (subst unat_add_no_wrap) simp_all
  ultimately have "0xFFFFFFFF80000000 \<le> frame_of (of_nat i) off"
    by (simp only: word_le_nat_alt)
  moreover have "page_physical_alloc ov bm f =
      Some (rc_ok, frame_of (of_nat i) off, bm[i := bm ! i XOR c_one_shl ov off])"
    by (simp only: page_physical_alloc_scan [OF len] s option.case prod.case)
  ultimately show ?thesis by blast
qed

theorem phys_alloc_above_2G_witness:
  "\<exists>fr bm'. page_physical_alloc x86_ov (replicate 8192 INT64_MAX @ [0]) 0 = Some (rc_ok, fr, bm') \<and>
     0xFFFFFFFF80000000 \<le> fr"
  by (rule phys_alloc_above_2G [where k = 8192 and b = 0])
    (simp_all add: phys_inv_def slot_free_def nth_append INT64_MAX_def)

text \<open>Where the compiler turns the over-wide shifts of a constant count into 0 (the shift is
  undefined in C), every allocation returns the same frame, and the bitmap never changes.\<close>

theorem phys_alloc_fold_repeats:
  assumes "length bm \<le> 65535" and "i < length bm" "bm ! i < INT64_MAX"
    and first: "\<forall>j < i. \<not> bm ! j < INT64_MAX"
  shows "page_physical_alloc fold_ov bm f = Some (rc_ok, frame_of (of_nat i) 63, bm)"
proof -
  have free: "slot_free fold_ov bm i 63"
    using assms by (simp add: slot_free_def c_one_shl_def fold_ov_def)
  obtain k off where s: "find (\<lambda>(i, off). slot_free fold_ov bm i off) (slots_from 0 bm) = Some (k, off)"
    using find_slot_None [of fold_ov bm] free
    by (cases "find (\<lambda>(i, off). slot_free fold_ov bm i off) (slots_from 0 bm)") auto
  have "k < i \<or> k = i \<and> 63 \<le> off"
    using find_slots_first [OF s] free by auto
  moreover have "\<not> k < i" "off < 64"
    using find_slot_Some [OF s] first by (auto simp: slot_free_def)
  ultimately have k: "k = i" "off = 63" by auto
  have z: "c_one_shl fold_ov 63 = 0" by (simp add: c_one_shl_def fold_ov_def)
  show ?thesis
    by (simp only: page_physical_alloc_scan [OF assms(1)] s k z option.case prod.case xor.right_neutral
        list_update_id)
qed

theorem phys_alloc_fold_repeats_witness:
  "page_physical_alloc fold_ov [INT64_MAX, 5] 0 = Some (rc_ok, frame_of 1 63, [INT64_MAX, 5])"
  using phys_alloc_fold_repeats [of "[INT64_MAX, 5]" 1 0] by (simp add: INT64_MAX_def)


lemma multi_scan_zero:
  assumes "count \<le> 64" "c < count" "count - c \<le> k"
  shows "multi_scan_word ov 0 (of_nat count) (of_nat c) (rev [0..<k]) = Inr (k - (count - c))"
  using assms(2,3)
proof (induction k arbitrary: c)
  case (Suc k)
  have c1: "of_nat c + 1 = (of_nat (Suc c) :: u8)" by simp
  have "unat (of_nat (Suc c) :: u8) = Suc c"
    using assms(1) Suc.prems(1) by (simp only: unat_of_nat) (simp add: take_bit_nat_eq_self)
  then have u: "(ucast (of_nat (Suc c) :: u8) :: u64) = of_nat (Suc c)"
    by (metis of_nat_unat)
  have e: "(of_nat (Suc c) :: u64) = of_nat count \<longleftrightarrow> Suc c = count"
    using assms(1) Suc.prems(1) by (intro of_nat_inj_word) simp_all
  have step: "multi_scan_word ov 0 (of_nat count) (of_nat c) (rev [0..<Suc k]) =
      (if Suc c = count then Inr k
       else multi_scan_word ov 0 (of_nat count) (of_nat (Suc c)) (rev [0..<k]))"
    by (simp only: upt_Suc_append le0 rev_append rev.simps append_Nil append_Cons
        multi_scan_word.simps bit.conj_zero_left refl if_True Let_def c1 u e)
  show ?case
  proof (cases "Suc c = count")
    case True
    then have "count - c = 1" by simp
    with True show ?thesis by (simp only: step if_True) simp
  next
    case False
    then have "Suc c < count" "count - Suc c \<le> k" using Suc.prems by simp_all
    from Suc.IH [OF this] show ?thesis
      using False Suc.prems by (simp only: step if_False) simp
  qed
qed simp

text \<open>\<open>page_physical_alloc_multiple\<close> does not return the run it found. On a bitmap whose first
  word is all free it finds the run of \<open>count\<close> pages from \<open>64 - count\<close> up, marks only its lowest
  page, and returns the address \<open>count\<close> pages below that page: none of the pages it returns is
  marked, so the next call returns one of them again.\<close>

theorem phys_multi_wrong_run:
  assumes "0 < count" "count \<le> 64"
  shows "page_physical_alloc_multiple ov (0 # bm) f (of_nat count) =
    Some (rc_ok, of_nat ((64 - count) * 4096) - of_nat (count * 4096),
      c_one_shl ov (64 - count) # bm)"
proof -
  have "multi_scan_word ov 0 (of_nat count) 0 (rev [0..<64]) = Inr (64 - count)"
    using multi_scan_zero [of count 0 64 ov] assms by simp
  moreover have "frame_of 0 (64 - count) = of_nat ((64 - count) * 4096)"
    using frame_of_low [of 0 "64 - count"] assms by simp
  moreover have "push_bit 12 (of_nat count) = (of_nat (count * 4096) :: u64)"
    by (simp add: push_bit_eq_mult mult.commute)
  ultimately have "phys_multi_loop ov (0 # bm) (of_nat count) 0 0 =
      Some (Some (of_nat ((64 - count) * 4096) - of_nat (count * 4096), c_one_shl ov (64 - count) # bm))"
    by (subst phys_multi_loop.simps) (simp add: INT64_MAX_def)
  then show ?thesis by (simp add: page_physical_alloc_multiple_def)
qed

theorem phys_multi_wrong_run_witness:
  "page_physical_alloc_multiple x86_ov [0] 0 1 = Some (rc_ok, 62 * 4096, [c_one_shl x86_ov 63])"
  using phys_multi_wrong_run [of 1 x86_ov "[]" 0] by simp

lemma page_status_bit:
  assumes "i < 8192" "off < 64"
  shows "page_status bm (drop_bit 12 (frame_of (of_nat i) off)) = (if bit (bm ! i) off then 1 else 0)"
    and "unat (drop_bit 18 (frame_of (of_nat i) off)) = i"
    and "unat (drop_bit 12 (frame_of (of_nat i) off) AND 63) = off"
proof -
  have "(64 * i + off) * 4096 < 2 ^ 64" using assms by simp
  from unat_of_nat_u64 [OF this] have f: "unat (frame_of (of_nat i) off) = (64 * i + off) * 4096"
    by (simp only: frame_of_low [OF assms])
  then have d12: "unat (drop_bit 12 (frame_of (of_nat i) off)) = 64 * i + off"
    by (simp add: unat_drop_bit_div)
  have d18: "drop_bit 6 (drop_bit 12 (frame_of (of_nat i) off)) = drop_bit 18 (frame_of (of_nat i) off)"
    by (simp add: drop_bit_drop_bit)
  show u18: "unat (drop_bit 18 (frame_of (of_nat i) off)) = i"
    using assms(2) by (simp only: d18 [symmetric] unat_drop_bit_div [of 6] d12) simp
  have "drop_bit 12 (frame_of (of_nat i) off) AND 63 = take_bit 6 (drop_bit 12 (frame_of (of_nat i) off))"
    by (simp add: take_bit_eq_mask mask_eq_exp_minus_1)
  then have "unat (drop_bit 12 (frame_of (of_nat i) off) AND 63) = (64 * i + off) mod 64"
    by (simp only: unsigned_take_bit_eq d12) (simp add: take_bit_eq_mod)
  then show m: "unat (drop_bit 12 (frame_of (of_nat i) off) AND 63) = off"
    using assms(2) by simp
  show "page_status bm (drop_bit 12 (frame_of (of_nat i) off)) = (if bit (bm ! i) off then 1 else 0)"
    unfolding page_status_def d18 u18 m
    by (simp add: and_one_eq bit_iff_odd_drop_bit mod2_eq_if)
qed



end
