(* ===== verification/Virt_Map.thy ===== *)
theory Virt_Map
  imports Phys_Alloc
begin

text \<open>
  The virtual address map of \<open>kernel/kernel/memory.c\<close>: a linked list of regions, sorted by base
  address, whose nodes live in one page (\<open>virtual_address_map\<close>), with a bitmap of the nodes in
  use. Every \<open>page_virtual_*\<close> function is here.

  A node pointer is its index in the page, \<open>None\<close> is NULL. An operation is \<open>None\<close> where the code
  dereferences NULL or walks a cyclic list for ever. The out parameter \<open>*frame\<close> is passed in and
  returned; an operation that does not assign it returns the value it was given.
\<close>

section \<open>The state\<close>

record virtual_alloc_entry =
  next_entry :: "nat option"
  region_length :: u64
  base_pointer :: u64

record virtual_map =
  virtual_address_map :: "nat \<Rightarrow> virtual_alloc_entry"
  map_first :: "nat option"
  free_bitmap :: "nat \<Rightarrow> u64"
  free_bitmap_length :: u64

text \<open>\<open>struct virtual_alloc_entry **tripref\<close>: where a node pointer is stored.\<close>

datatype tripref = First | NextOf nat

fun deref :: "virtual_map \<Rightarrow> tripref \<Rightarrow> nat option" where
  "deref s First = map_first s"
| "deref s (NextOf i) = next_entry (virtual_address_map s i)"

fun store :: "virtual_map \<Rightarrow> tripref \<Rightarrow> nat option \<Rightarrow> virtual_map" where
  "store s First p = s\<lparr>map_first := p\<rparr>"
| "store s (NextOf i) p = s\<lparr>virtual_address_map :=
     (virtual_address_map s)(i := virtual_address_map s i\<lparr>next_entry := p\<rparr>)\<rparr>"

definition set_node :: "nat \<Rightarrow> virtual_alloc_entry \<Rightarrow> virtual_map \<Rightarrow> virtual_map" where
  "set_node i v s = s\<lparr>virtual_address_map := (virtual_address_map s)(i := v)\<rparr>"

abbreviation node :: "virtual_map \<Rightarrow> nat \<Rightarrow> virtual_alloc_entry" where
  "node s i \<equiv> virtual_address_map s i"

definition region_end :: "virtual_alloc_entry \<Rightarrow> u64" where
  "region_end e = base_pointer e + region_length e"

definition add_length :: "nat \<Rightarrow> u64 \<Rightarrow> virtual_map \<Rightarrow> virtual_map" where
  "add_length i n s = set_node i ((node s i)\<lparr>region_length := region_length (node s i) + n\<rparr>) s"

text \<open>\<open>(*tripref)->next->base_pointer -= n; (*tripref)->next->length += n;\<close>\<close>

definition grow_down :: "nat \<Rightarrow> u64 \<Rightarrow> virtual_map \<Rightarrow> virtual_map" where
  "grow_down i n s = set_node i ((node s i)\<lparr>base_pointer := base_pointer (node s i) - n,
     region_length := region_length (node s i) + n\<rparr>) s"

section \<open>The bitmap of nodes\<close>

text \<open>
  The bit of a node to clear: the difference of two 32-byte node addresses, shifted by 3.
\<close>

definition bitmap_location :: "nat \<Rightarrow> u64" where
  "bitmap_location i = drop_bit 3 (of_nat (32 * i))"

definition clear_location :: "(nat \<Rightarrow> u64) \<Rightarrow> nat \<Rightarrow> virtual_map \<Rightarrow> virtual_map" where
  "clear_location ov i s =
     (let loc = bitmap_location i; w = unat (drop_bit 6 loc)
      in s\<lparr>free_bitmap := (free_bitmap s)(w := free_bitmap s w AND
           NOT (c_one_shl ov (unat (63 - (loc AND 0x3f)))))\<rparr>)"

text \<open>
  The scan of \<open>INSERT_VIRTUAL_MAP_ENTRY_AND_RETURN\<close>: \<open>Some None\<close> when no word has a clear bit.
\<close>

partial_function (option) slot_scan ::
    "(nat \<Rightarrow> u64) \<Rightarrow> virtual_map \<Rightarrow> u16 \<Rightarrow> (nat \<times> nat) option option" where
  "slot_scan ov s i =
     (if ucast i < free_bitmap_length s
      then
        if free_bitmap s (unat i) < INT64_MAX
        then (case first_clear ov (free_bitmap s (unat i)) of
                Some offset \<Rightarrow> Some (Some (unat i, offset))
              | None \<Rightarrow> slot_scan ov s (i + 1))
        else slot_scan ov s (i + 1)
      else Some None)"

declare slot_scan.simps [code]

text \<open>
  The macro, at \<open>next_pointer_val = (*tripref)->next\<close>: the four stores in their order, with
  \<open>tripref\<close> read again for each. The result is the code \<open>0\<close> it returns, or \<open>-1\<close> when it falls
  through.
\<close>

definition insert_entry ::
    "(nat \<Rightarrow> u64) \<Rightarrow> tripref \<Rightarrow> u64 \<Rightarrow> u64 \<Rightarrow> virtual_map \<Rightarrow> (rc \<times> virtual_map) option" where
  "insert_entry ov r base_val length_val s =
     do { slot \<leftarrow> slot_scan ov s 0;
       (case slot of
          None \<Rightarrow> Some (rc_fail, s)
        | Some (i, offset) \<Rightarrow>
            let new_index = i * 64 + offset;
                s = s\<lparr>free_bitmap := (free_bitmap s)(i := free_bitmap s i OR c_one_shl ov offset)\<rparr>;
                s = set_node new_index ((node s new_index)\<lparr>base_pointer := base_val\<rparr>) s;
                s = set_node new_index ((node s new_index)\<lparr>region_length := length_val\<rparr>) s
            in do {
              e \<leftarrow> deref s r;
              let s = set_node new_index ((node s new_index)\<lparr>next_entry := next_entry (node s e)\<rparr>) s;
              e' \<leftarrow> deref s r;
              Some (rc_ok, store s (NextOf e') (Some new_index))
            }) }"

section \<open>Walking and joining\<close>

text \<open>\<open>FIND_ENTRY_WITH_TRIPREF\<close>.\<close>

partial_function (option) find_entry :: "virtual_map \<Rightarrow> u64 \<Rightarrow> tripref \<Rightarrow> tripref option" where
  "find_entry s frame r =
     do { e \<leftarrow> deref s r;
       (case next_entry (node s e) of
          None \<Rightarrow> Some r
        | Some n \<Rightarrow> if base_pointer (node s n) < frame then find_entry s frame (NextOf e) else Some r) }"

declare find_entry.simps [code]

text \<open>The body of "Join the two entries together", for a node and its successor.\<close>

definition join :: "(nat \<Rightarrow> u64) \<Rightarrow> nat \<Rightarrow> nat \<Rightarrow> virtual_map \<Rightarrow> virtual_map" where
  "join ov e n s =
     (let s1 = add_length e (region_length (node s n)) s;
          s2 = store s1 (NextOf e) (next_entry (node s1 n))
      in clear_location ov n s2)"

text \<open>The block with its test, after the node \<open>e\<close> has grown.\<close>

definition join_if_touching :: "(nat \<Rightarrow> u64) \<Rightarrow> nat \<Rightarrow> virtual_map \<Rightarrow> virtual_map" where
  "join_if_touching ov e s =
     (case next_entry (node s e) of
        None \<Rightarrow> s
      | Some n \<Rightarrow> if region_end (node s e) = base_pointer (node s n) then join ov e n s else s)"

text \<open>The variant that tests a \<open>top\<close> computed before.\<close>

definition join_if_top :: "(nat \<Rightarrow> u64) \<Rightarrow> nat \<Rightarrow> u64 \<Rightarrow> virtual_map \<Rightarrow> virtual_map" where
  "join_if_top ov e top_val s =
     (case next_entry (node s e) of
        None \<Rightarrow> s
      | Some n \<Rightarrow> if top_val = base_pointer (node s n) then join ov e n s else s)"

text \<open>\<open>(*tripref)->next && (*tripref)->next->base_pointer\<close> compared with a value.\<close>

definition next_base :: "virtual_map \<Rightarrow> nat \<Rightarrow> u64 option" where
  "next_base s e = map_option (\<lambda>n. base_pointer (node s n)) (next_entry (node s e))"

abbreviation PAGE :: u64 where "PAGE \<equiv> 0x1000"

abbreviation pages :: "u64 \<Rightarrow> u64" where "pages n \<equiv> push_bit 12 n"

text \<open>
  The last two branches of most allocations, for a block of \<open>n\<close> bytes at \<open>f\<close> that does not touch
  the region of \<open>e\<close>: the next region grows downwards when the block ends where it starts,
  otherwise the block becomes a node of its own.
\<close>

definition take_gap ::
    "(nat \<Rightarrow> u64) \<Rightarrow> tripref \<Rightarrow> nat \<Rightarrow> u64 \<Rightarrow> u64 \<Rightarrow> virtual_map \<Rightarrow> (rc \<times> virtual_map) option" where
  "take_gap ov r e f n s =
     (case next_entry (node s e) of
        Some i \<Rightarrow>
          if base_pointer (node s i) = f + n then Some (rc_ok, grow_down i n s)
          else insert_entry ov r f n s
      | None \<Rightarrow> insert_entry ov r f n s)"

definition with_frame :: "u64 \<Rightarrow> (rc \<times> virtual_map) option \<Rightarrow> (rc \<times> u64 \<times> virtual_map) option" where
  "with_frame f = map_option (\<lambda>(rc, s). (rc, f, s))"

section \<open>Allocating one page\<close>

definition page_virtual_alloc ::
    "(nat \<Rightarrow> u64) \<Rightarrow> virtual_map \<Rightarrow> (rc \<times> u64 \<times> virtual_map) option" where
  "page_virtual_alloc ov s =
     do { e \<leftarrow> map_first s;
       let frame = region_end (node s e);
       (if frame = 0 then Some (rc_fail, frame, s)
        else Some (rc_ok, frame, join_if_touching ov e (add_length e 1 s))) }"

definition page_virtual_alloc_at ::
    "(nat \<Rightarrow> u64) \<Rightarrow> virtual_map \<Rightarrow> u64 \<Rightarrow> (rc \<times> virtual_map) option" where
  "page_virtual_alloc_at ov s frame =
     do { r \<leftarrow> find_entry s frame First;
       e \<leftarrow> deref s r;
       (if region_end (node s e) > frame then Some (rc_busy, s)
        else if region_end (node s e) = frame
          then Some (rc_ok, join_if_touching ov e (add_length e PAGE s))
        else take_gap ov r e frame PAGE s) }"

definition page_virtual_alloc_after ::
    "(nat \<Rightarrow> u64) \<Rightarrow> virtual_map \<Rightarrow> u64 \<Rightarrow> u64 \<Rightarrow> (rc \<times> u64 \<times> virtual_map) option" where
  "page_virtual_alloc_after ov s base frame =
     do { r \<leftarrow> find_entry s base First;
       e \<leftarrow> deref s r;
       (if region_end (node s e) \<ge> base
        then Some (rc_ok, region_end (node s e), join_if_touching ov e (add_length e PAGE s))
        else with_frame base (take_gap ov r e base PAGE s)) }"

text \<open>\<open>*frame\<close> of the \<open>beyond\<close> family: \<open>jump_count\<close> pages after the region, at least \<open>base\<close>.\<close>

definition jump_frame :: "virtual_map \<Rightarrow> nat \<Rightarrow> u64 \<Rightarrow> u64 \<Rightarrow> u64" where
  "jump_frame s e jump_count base =
     (let frame = region_end (node s e) + pages jump_count
      in if frame < base then base else frame)"

definition page_virtual_alloc_beyond ::
    "(nat \<Rightarrow> u64) \<Rightarrow> virtual_map \<Rightarrow> u64 \<Rightarrow> u64 \<Rightarrow> u64 \<Rightarrow> (rc \<times> u64 \<times> virtual_map) option" where
  "page_virtual_alloc_beyond ov s base jump_count frame =
     (if jump_count = 0 then page_virtual_alloc_after ov s base frame
      else do { r \<leftarrow> find_entry s base First;
        e \<leftarrow> deref s r;
        let frame = jump_frame s e jump_count base;
        (case next_entry (node s e) of
           None \<Rightarrow> with_frame frame (insert_entry ov r frame PAGE s)
         | Some n \<Rightarrow>
             if base_pointer (node s n) \<le> frame then Some (rc_busy, frame, s)
             else if base_pointer (node s n) = frame + PAGE
               then Some (rc_ok, frame, grow_down n PAGE s)
             else if region_end (node s n) = frame
               then Some (rc_ok, frame, join_if_touching ov n (add_length n PAGE s))
             else with_frame frame (insert_entry ov r frame PAGE s)) })"

text \<open>The loop of \<open>page_virtual_alloc_beyond_ex\<close>: past every region that starts at or below \<open>*frame\<close>.\<close>

partial_function (option) beyond_walk ::
    "virtual_map \<Rightarrow> u64 \<Rightarrow> tripref \<Rightarrow> u64 \<Rightarrow> (tripref \<times> u64) option" where
  "beyond_walk s jump_count r frame =
     do { e \<leftarrow> deref s r;
       (case next_entry (node s e) of
          None \<Rightarrow> Some (r, frame)
        | Some n \<Rightarrow>
            if base_pointer (node s n) \<le> frame
            then beyond_walk s jump_count (NextOf e) (region_end (node s n) + pages jump_count)
            else Some (r, frame)) }"

declare beyond_walk.simps [code]

definition page_virtual_alloc_beyond_ex ::
    "(nat \<Rightarrow> u64) \<Rightarrow> virtual_map \<Rightarrow> u64 \<Rightarrow> u64 \<Rightarrow> u64 \<Rightarrow> (rc \<times> u64 \<times> virtual_map) option" where
  "page_virtual_alloc_beyond_ex ov s base jump_count frame =
     (if jump_count = 0 then page_virtual_alloc_after ov s base frame
      else do { r \<leftarrow> find_entry s base First;
        e \<leftarrow> deref s r;
        (r, frame) \<leftarrow> beyond_walk s jump_count r (jump_frame s e jump_count base);
        e \<leftarrow> deref s r;
        with_frame frame (take_gap ov r e frame PAGE s) })"

section \<open>Allocating several pages\<close>

text \<open>None of the first two assigns \<open>*frame\<close>.\<close>

definition page_virtual_alloc_multiple ::
    "(nat \<Rightarrow> u64) \<Rightarrow> virtual_map \<Rightarrow> u64 \<Rightarrow> u64 \<Rightarrow> (rc \<times> u64 \<times> virtual_map) option" where
  "page_virtual_alloc_multiple ov s frame alloc_count =
     (if alloc_count = 0 then Some (rc_fail, frame, s)
      else do { e \<leftarrow> map_first s;
        let top_val = region_end (node s e) + pages alloc_count;
        (if (case next_base s e of Some b \<Rightarrow> top_val > b | None \<Rightarrow> False)
         then Some (rc_busy, frame, s)
         else Some (rc_ok, frame, join_if_top ov e top_val (add_length e (pages alloc_count) s))) })"

partial_function (option) multiple_walk :: "virtual_map \<Rightarrow> u64 \<Rightarrow> tripref \<Rightarrow> tripref option" where
  "multiple_walk s alloc_count r =
     do { e \<leftarrow> deref s r;
       (case next_base s e of
          None \<Rightarrow> Some r
        | Some b \<Rightarrow>
            if region_end (node s e) + pages alloc_count > b
            then multiple_walk s alloc_count (NextOf e) else Some r) }"

declare multiple_walk.simps [code]

text \<open>\<open>top\<close> is the one computed for the first region, also after the walk.\<close>

definition page_virtual_alloc_multiple_ex ::
    "(nat \<Rightarrow> u64) \<Rightarrow> virtual_map \<Rightarrow> u64 \<Rightarrow> u64 \<Rightarrow> (rc \<times> u64 \<times> virtual_map) option" where
  "page_virtual_alloc_multiple_ex ov s frame alloc_count =
     (if alloc_count = 0 then Some (rc_fail, frame, s)
      else do { e \<leftarrow> map_first s;
        let top_val = region_end (node s e) + pages alloc_count;
        r \<leftarrow> multiple_walk s alloc_count First;
        e \<leftarrow> deref s r;
        Some (rc_ok, frame, join_if_top ov e top_val (add_length e (pages alloc_count) s)) })"

text \<open>
  The second disjunct of the guard reads \<open>(*tripref)->next->base_pointer\<close> without a test for
  NULL.
\<close>

definition page_virtual_alloc_multiple_at ::
    "(nat \<Rightarrow> u64) \<Rightarrow> virtual_map \<Rightarrow> u64 \<Rightarrow> u64 \<Rightarrow> (rc \<times> virtual_map) option" where
  "page_virtual_alloc_multiple_at ov s frame alloc_count =
     (if alloc_count = 0 then Some (rc_fail, s)
      else do { r \<leftarrow> find_entry s frame First;
        e \<leftarrow> deref s r;
        busy \<leftarrow> (if region_end (node s e) > frame then Some True
                 else map_option (\<lambda>b. frame + pages alloc_count > b) (next_base s e));
        (if busy then Some (rc_busy, s)
         else if region_end (node s e) = frame
           then Some (rc_ok, join_if_touching ov e (add_length e (pages alloc_count) s))
         else take_gap ov r e frame (pages alloc_count) s) })"

definition page_virtual_alloc_multiple_after ::
    "(nat \<Rightarrow> u64) \<Rightarrow> virtual_map \<Rightarrow> u64 \<Rightarrow> u64 \<Rightarrow> u64 \<Rightarrow> (rc \<times> u64 \<times> virtual_map) option" where
  "page_virtual_alloc_multiple_after ov s base alloc_count frame =
     (if alloc_count = 0 then Some (rc_fail, frame, s)
      else do { r \<leftarrow> find_entry s base First;
        e \<leftarrow> deref s r;
        (if region_end (node s e) \<ge> base
         then
           let frame = region_end (node s e)
           in if (case next_base s e of Some b \<Rightarrow> b < frame + pages alloc_count | None \<Rightarrow> False)
              then Some (rc_busy, frame, s)
              else Some (rc_ok, frame, join_if_touching ov e (add_length e (pages alloc_count) s))
         else with_frame base (take_gap ov r e base (pages alloc_count) s)) })"

text \<open>The loop of \<open>_multiple_after_ex\<close>, which reads \<open>next->base_pointer\<close> without a test for NULL.\<close>

partial_function (option) after_walk ::
    "virtual_map \<Rightarrow> u64 \<Rightarrow> tripref \<Rightarrow> u64 \<Rightarrow> (tripref \<times> u64) option" where
  "after_walk s alloc_count r frame =
     do { e \<leftarrow> deref s r;
       n \<leftarrow> next_entry (node s e);
       (if base_pointer (node s n) < frame + pages alloc_count
        then after_walk s alloc_count (NextOf e) (region_end (node s n))
        else Some (r, frame)) }"

declare after_walk.simps [code]

definition page_virtual_alloc_multiple_after_ex ::
    "(nat \<Rightarrow> u64) \<Rightarrow> virtual_map \<Rightarrow> u64 \<Rightarrow> u64 \<Rightarrow> u64 \<Rightarrow> (rc \<times> u64 \<times> virtual_map) option" where
  "page_virtual_alloc_multiple_after_ex ov s base alloc_count frame =
     (if alloc_count = 0 then Some (rc_fail, frame, s)
      else do { r \<leftarrow> find_entry s base First;
        e \<leftarrow> deref s r;
        (if region_end (node s e) \<ge> base
         then do {
           (r, frame) \<leftarrow> after_walk s alloc_count r (region_end (node s e));
           e \<leftarrow> deref s r;
           Some (rc_ok, frame, join_if_touching ov e (add_length e (pages alloc_count) s)) }
         else with_frame base (take_gap ov r e base (pages alloc_count) s)) })"

definition page_virtual_alloc_multiple_beyond ::
    "(nat \<Rightarrow> u64) \<Rightarrow> virtual_map \<Rightarrow> u64 \<Rightarrow> u64 \<Rightarrow> u64 \<Rightarrow> u64 \<Rightarrow> (rc \<times> u64 \<times> virtual_map) option" where
  "page_virtual_alloc_multiple_beyond ov s base alloc_count jump_count frame =
     (if alloc_count = 0 then Some (rc_fail, frame, s)
      else if jump_count = 0 then page_virtual_alloc_multiple_after ov s base alloc_count frame
      else do { r \<leftarrow> find_entry s base First;
        e \<leftarrow> deref s r;
        let frame = jump_frame s e jump_count base;
        (case next_entry (node s e) of
           None \<Rightarrow> with_frame frame (insert_entry ov r frame (pages alloc_count) s)
         | Some n \<Rightarrow>
             if base_pointer (node s n) \<le> frame then Some (rc_busy, frame, s)
             else if base_pointer (node s n) = frame + pages alloc_count
               then Some (rc_ok, frame, grow_down n (pages alloc_count) s)
             else if region_end (node s n) = frame
               then Some (rc_ok, frame, join_if_touching ov n (add_length n (pages alloc_count) s))
             else with_frame frame (insert_entry ov r frame (pages alloc_count) s)) })"

partial_function (option) multiple_beyond_walk ::
    "virtual_map \<Rightarrow> u64 \<Rightarrow> u64 \<Rightarrow> tripref \<Rightarrow> u64 \<Rightarrow> (tripref \<times> u64) option" where
  "multiple_beyond_walk s alloc_count jump_count r frame =
     do { e \<leftarrow> deref s r;
       (case next_entry (node s e) of
          None \<Rightarrow> Some (r, frame)
        | Some n \<Rightarrow>
            if base_pointer (node s n) < frame + pages alloc_count
            then multiple_beyond_walk s alloc_count jump_count (NextOf e)
                   (region_end (node s n) + pages jump_count)
            else Some (r, frame)) }"

declare multiple_beyond_walk.simps [code]

definition page_virtual_alloc_multiple_beyond_ex ::
    "(nat \<Rightarrow> u64) \<Rightarrow> virtual_map \<Rightarrow> u64 \<Rightarrow> u64 \<Rightarrow> u64 \<Rightarrow> u64 \<Rightarrow> (rc \<times> u64 \<times> virtual_map) option" where
  "page_virtual_alloc_multiple_beyond_ex ov s base alloc_count jump_count frame =
     (if alloc_count = 0 then Some (rc_fail, frame, s)
      else if jump_count = 0 then page_virtual_alloc_multiple_after ov s base alloc_count frame
      else do { r \<leftarrow> find_entry s base First;
        e \<leftarrow> deref s r;
        (r, frame) \<leftarrow> multiple_beyond_walk s alloc_count jump_count r (jump_frame s e jump_count base);
        e \<leftarrow> deref s r;
        with_frame frame (take_gap ov r e frame (pages alloc_count) s) })"

section \<open>Freeing\<close>

text \<open>\<open>*tripref = (*tripref)->next\<close> and the clearing of the node's bit.\<close>

definition unlink :: "(nat \<Rightarrow> u64) \<Rightarrow> tripref \<Rightarrow> nat \<Rightarrow> virtual_map \<Rightarrow> virtual_map" where
  "unlink ov r e s = clear_location ov e (store s r (next_entry (node s e)))"

text \<open>Cut the region of \<open>e\<close> at \<open>frame\<close> and put what is left above the hole into a new node.\<close>

definition cut_region ::
    "(nat \<Rightarrow> u64) \<Rightarrow> tripref \<Rightarrow> nat \<Rightarrow> u64 \<Rightarrow> u64 \<Rightarrow> virtual_map \<Rightarrow> (rc \<times> virtual_map) option" where
  "cut_region ov r e frame hole s =
     (let old_length = region_length (node s e);
          new_length = frame - base_pointer (node s e);
          s = set_node e ((node s e)\<lparr>region_length := new_length\<rparr>) s
      in insert_entry ov r (frame + hole) (old_length - new_length - hole) s)"

definition page_virtual_free ::
    "(nat \<Rightarrow> u64) \<Rightarrow> virtual_map \<Rightarrow> u64 \<Rightarrow> (rc \<times> virtual_map) option" where
  "page_virtual_free ov s frame =
     do { r \<leftarrow> find_entry s frame First;
       e \<leftarrow> deref s r;
       (if frame \<ge> region_end (node s e) then Some (rc_fail, s)
        else if region_length (node s e) = 1 then Some (rc_ok, unlink ov r e s)
        else cut_region ov r e frame PAGE s) }"

text \<open>
  \<open>page_virtual_free_multiple\<close>. It has paths that end without a \<open>return\<close>: their result code is
  \<open>None\<close>. A count of 1 frees the page and then goes on with the rest of the function.
\<close>

definition page_virtual_free_multiple ::
    "(nat \<Rightarrow> u64) \<Rightarrow> virtual_map \<Rightarrow> u64 \<Rightarrow> u64 \<Rightarrow> (rc option \<times> virtual_map) option" where
  "page_virtual_free_multiple ov s frame count =
     (if count = 0 then Some (Some rc_fail, s)
      else do {
        s \<leftarrow> (if count = 1 then map_option snd (page_virtual_free ov s frame) else Some s);
        r \<leftarrow> find_entry s frame First;
        e \<leftarrow> deref s r;
        (if frame + pages count \<ge> region_end (node s e) then Some (Some rc_fail, s)
         else if region_length (node s e) = 1 then Some (None, unlink ov r e s)
         else map_option (\<lambda>(rc, s). (if rc = rc_ok then Some rc_ok else None, s))
           (cut_region ov r e frame (pages count) s)) })"

section \<open>The state \<open>page_allocator_init\<close> leaves\<close>

definition init_virtual_map ::
    "(nat \<Rightarrow> u64) \<Rightarrow> u64 \<Rightarrow> u64 \<Rightarrow> virtual_map \<Rightarrow> virtual_map" where
  "init_virtual_map ov mapping_base map_address s =
     s\<lparr>virtual_address_map := (virtual_address_map s)(0 :=
          \<lparr>next_entry = None, region_length = map_address + PAGE - mapping_base,
            base_pointer = mapping_base\<rparr>),
       map_first := Some 0,
       free_bitmap := (free_bitmap s)(0 := free_bitmap s 0 OR c_one_shl ov 63),
       free_bitmap_length := 2\<rparr>"

end
