(* ===== verification/Virt_Chain.thy ===== *)
theory Virt_Chain
  imports Virt_Map
begin

text \<open>
  What the node pointers of the virtual address map mean: the list of regions reached from a
  pointer, the effect of each piece of the operations on that list, and the set of addresses the
  list allocates.
\<close>

section \<open>The chain of regions\<close>

text \<open>A region: its node, its base and its length.\<close>

type_synonym vregion = "nat \<times> u64 \<times> u64"

fun seg :: "virtual_map \<Rightarrow> nat option \<Rightarrow> vregion list \<Rightarrow> nat option \<Rightarrow> bool" where
  "seg s p [] q \<longleftrightarrow> p = q"
| "seg s p ((i, b, l) # xs) q \<longleftrightarrow>
     p = Some i \<and> base_pointer (node s i) = b \<and> region_length (node s i) = l \<and>
     seg s (next_entry (node s i)) xs q"

lemma seg_append: "seg s p (xs @ ys) q \<longleftrightarrow> (\<exists>m. seg s p xs m \<and> seg s m ys q)"
  by (induction xs arbitrary: p) auto

lemma seg_cong [frame_rules]:
  "(\<And>x. x \<in> set xs \<Longrightarrow> node s' (fst x) = node s (fst x)) \<Longrightarrow> seg s' p xs q = seg s p xs q"
proof (induction xs arbitrary: p)
  case (Cons x xs)
  obtain i b l where x: "x = (i, b, l)" by (cases x)
  have "node s' i = node s i" using Cons.prems [of x] by (simp add: x)
  moreover have "seg s' p xs q = seg s p xs q" for p
    by (rule Cons.IH) (rule Cons.prems, simp)
  ultimately show ?case by (simp only: x seg.simps)
qed simp

lemma node_set_node [simp]: "node (set_node i v s) = (node s)(i := v)"
  by (simp add: set_node_def fun_upd_def)

lemma map_first_set_node [simp]: "map_first (set_node i v s) = map_first s"
  and free_bitmap_set_node [simp]: "free_bitmap (set_node i v s) = free_bitmap s"
  and free_bitmap_length_set_node [simp]: "free_bitmap_length (set_node i v s) = free_bitmap_length s"
  by (simp_all add: set_node_def)

lemma clear_location_simps [simp]:
  "node (clear_location ov n s) = node s"
  "map_first (clear_location ov n s) = map_first s"
  "free_bitmap_length (clear_location ov n s) = free_bitmap_length s"
  by (simp_all add: clear_location_def Let_def)

text \<open>The chain of a map: all of it, from the first node to NULL, no node twice.\<close>

definition chain :: "virtual_map \<Rightarrow> vregion list \<Rightarrow> bool" where
  "chain s xs \<longleftrightarrow> seg s (map_first s) xs None \<and> distinct (map fst xs)"

lemma chain_update:
  assumes "chain s (ys @ (i, b, l) # zs)"
    and "\<And>j. j \<noteq> i \<Longrightarrow> node s' j = node s j" and "map_first s' = map_first s"
    and "next_entry (node s' i) = next_entry (node s i)"
    and "base_pointer (node s' i) = b'" "region_length (node s' i) = l'"
  shows "chain s' (ys @ (i, b', l') # zs)"
proof -
  from assms(1) have d: "distinct (map fst (ys @ (i, b, l) # zs))" by (simp add: chain_def)
  from assms(1) obtain m where "seg s (map_first s) ys m" "seg s m ((i, b, l) # zs) None"
    by (auto simp: chain_def seg_append)
  moreover have "seg s' p ys q = seg s p ys q" "seg s' p zs q = seg s p zs q" for p q
    using d by (auto intro!: seg_cong assms(2))
  ultimately show ?thesis
    using d assms(3-6) by (auto simp: chain_def seg_append)
qed

text \<open>Splitting a chain at a node.\<close>

lemma chain_splitD:
  assumes "chain s (ys @ (i, b, l) # zs)"
  shows "base_pointer (node s i) = b" "region_length (node s i) = l"
    "seg s (map_first s) ys (Some i)" "seg s (next_entry (node s i)) zs None"
  using assms by (auto simp: chain_def seg_append)

lemma chain_add_length:
  assumes "chain s (ys @ (i, b, l) # zs)"
  shows "chain (add_length i n s) (ys @ (i, b, l + n) # zs)"
  using chain_splitD [OF assms] by (intro chain_update [OF assms]) (auto simp: add_length_def)

lemma chain_grow_down:
  assumes "chain s (ys @ (i, b, l) # zs)"
  shows "chain (grow_down i n s) (ys @ (i, b - n, l + n) # zs)"
  using chain_splitD [OF assms] by (intro chain_update [OF assms]) (auto simp: grow_down_def)

lemma chain_next:
  assumes "chain s (ys @ (i, b, l) # zs)"
  shows "next_entry (node s i) = (case zs of [] \<Rightarrow> None | z # _ \<Rightarrow> Some (fst z))"
  using chain_splitD(4) [OF assms] by (cases zs) auto

lemma chain_join:
  assumes "chain s (ys @ (i, b, l) # (j, c, m) # zs)"
  shows "chain (join ov i j s) (ys @ (i, b, l + m) # zs)"
proof -
  let ?s = "join ov i j s"
  from assms have d: "distinct (map fst (ys @ (i, b, l) # (j, c, m) # zs))" by (simp add: chain_def)
  have n: "node ?s k = node s k" if "k \<noteq> i" for k
    using that by (simp add: join_def add_length_def Let_def)
  have "seg ?s p ys q = seg s p ys q" "seg ?s p zs q = seg s p zs q" for p q
    using d by (auto intro!: seg_cong n)
  moreover have "map_first ?s = map_first s"
    by (simp add: join_def add_length_def Let_def)
  moreover have "base_pointer (node ?s i) = b" "region_length (node ?s i) = l + m"
    "next_entry (node ?s i) = next_entry (node s j)"
    using assms d by (auto simp: join_def add_length_def Let_def chain_def seg_append)
  ultimately show ?thesis
    using assms d by (auto simp: chain_def seg_append)
qed

section \<open>FIND_ENTRY\<close>

text \<open>
  Where \<open>FIND_ENTRY_WITH_TRIPREF\<close> stops in a list: at the last region that starts below the
  frame, or at the first region.
\<close>

definition stops_at :: "vregion list \<Rightarrow> u64 \<Rightarrow> vregion list \<Rightarrow> vregion \<Rightarrow> vregion list \<Rightarrow> bool" where
  "stops_at xs f ys e zs \<longleftrightarrow> xs = ys @ e # zs \<and>
     (ys \<noteq> [] \<longrightarrow> fst (snd e) < f) \<and> (\<forall>z zs'. zs = z # zs' \<longrightarrow> f \<le> fst (snd z))"

definition ref_after :: "tripref \<Rightarrow> vregion list \<Rightarrow> tripref" where
  "ref_after r ys = (if ys = [] then r else NextOf (fst (last ys)))"

lemma find_entry_seg:
  assumes "seg s (deref s r) (x # xs) None"
  shows "\<exists>ys e zs. stops_at (x # xs) f ys e zs \<and> find_entry s f r = Some (ref_after r ys) \<and>
    deref s (ref_after r ys) = Some (fst e)"
  using assms
proof (induction xs arbitrary: x r)
  case Nil
  obtain i b l where x: "x = (i, b, l)" by (cases x)
  with Nil have "find_entry s f r = Some r" by (subst find_entry.simps) simp
  with Nil x have "stops_at [x] f [] x [] \<and> find_entry s f r = Some (ref_after r []) \<and>
    deref s (ref_after r []) = Some (fst x)"
    by (simp add: stops_at_def ref_after_def)
  then show ?case by blast
next
  case (Cons y xs)
  obtain i b l where x: "x = (i, b, l)" by (cases x)
  obtain j c m where y: "y = (j, c, m)" by (cases y)
  have di: "deref s r = Some i" and nx: "next_entry (node s i) = Some j"
    and c: "base_pointer (node s j) = c"
    using Cons.prems x y by auto
  show ?case
  proof (cases "c < f")
    case True
    have "seg s (deref s (NextOf i)) (y # xs) None" using Cons.prems x by simp
    from Cons.IH [OF this] obtain ys e zs where
      IH: "stops_at (y # xs) f ys e zs" "find_entry s f (NextOf i) = Some (ref_after (NextOf i) ys)"
        "deref s (ref_after (NextOf i) ys) = Some (fst e)"
      by blast
    have "find_entry s f r = find_entry s f (NextOf i)"
      using di nx c True by (subst find_entry.simps) simp
    moreover have "ref_after r (x # ys) = ref_after (NextOf i) ys"
      by (simp add: ref_after_def x)
    moreover have "stops_at (x # y # xs) f (x # ys) e zs"
      using IH(1) y True by (cases ys) (auto simp: stops_at_def)
    ultimately show ?thesis using IH by metis
  next
    case False
    then have "find_entry s f r = Some r"
      using di nx c by (subst find_entry.simps) simp
    moreover have "stops_at (x # y # xs) f [] x (y # xs)"
      using y False by (auto simp: stops_at_def)
    moreover have "ref_after r [] = r" by (simp add: ref_after_def)
    ultimately show ?thesis using di x by (metis fst_conv)
  qed
qed

lemma find_entry_chain:
  assumes "chain s xs" and "xs \<noteq> []"
  obtains ys e zs where "stops_at xs f ys e zs" "find_entry s f First = Some (ref_after First ys)"
    "deref s (ref_after First ys) = Some (fst e)"
proof (cases xs)
  case (Cons x xs')
  then show ?thesis
    using find_entry_seg [of s First x xs' f] assms(1) that by (auto simp: chain_def)
qed (use assms in simp)

section \<open>The bitmap of nodes\<close>

definition vwords :: "virtual_map \<Rightarrow> bitmap" where
  "vwords s = map (free_bitmap s) [0..<unat (free_bitmap_length s)]"

lemma vwords_simps:
  "length (vwords s) = unat (free_bitmap_length s)"
  "i < unat (free_bitmap_length s) \<Longrightarrow> vwords s ! i = free_bitmap s i"
  by (simp_all add: vwords_def)

lemma unat_ucast_u16: "unat (ucast (w :: u16) :: u64) = unat w"
proof -
  have "unat w < 2 ^ 64" using unat_word_less [of w] by simp
  then show ?thesis by (metis of_nat_unat unat_of_nat_u64)
qed

lemma slot_scan_from:
  assumes "unat (free_bitmap_length s) \<le> 65535" and "i \<le> unat (free_bitmap_length s)"
  shows "slot_scan ov s (of_nat i) =
    Some (find (\<lambda>(i, off). slot_free ov (vwords s) i off) (slots_from i (vwords s)))"
  using assms(2)
proof (induction rule: inc_induct)
  case base
  let ?n = "unat (free_bitmap_length s)"
  have u: "unat (of_nat ?n :: u16) = ?n" using assms(1) by (intro unat_of_nat_u16) simp
  then have "\<not> ucast (of_nat ?n :: u16) < free_bitmap_length s"
    by (simp add: word_less_nat_alt unat_ucast_u16)
  then show ?case
    by (subst slot_scan.simps) (simp add: slots_from_def vwords_simps)
next
  case (step i)
  have u: "unat (of_nat i :: u16) = i"
    using assms(1) step.hyps by (intro unat_of_nat_u16) simp
  then have lt: "ucast (of_nat i :: u16) < free_bitmap_length s"
    using step.hyps(2) by (simp add: word_less_nat_alt unat_ucast_u16)
  have s: "of_nat i + 1 = (of_nat (Suc i) :: u16)" by simp
  have il: "i < length (vwords s)" using step.hyps(2) by (simp add: vwords_simps)
  have w: "vwords s ! i = free_bitmap s i" using step.hyps(2) by (simp add: vwords_simps)
  show ?case
    by (subst slot_scan.simps, simp only: u s step.IH find_slots_step [OF il] w lt if_True)
      (simp split: option.splits)
qed

lemma slot_scan_find:
  "unat (free_bitmap_length s) \<le> 65535 \<Longrightarrow>
    slot_scan ov s 0 = Some (find (\<lambda>(i, off). slot_free ov (vwords s) i off) (slots_from 0 (vwords s)))"
  using slot_scan_from [of s 0 ov] by simp

text \<open>A node the scan does not hand out: its bit is set, or its word is one the scan skips.\<close>

definition node_marked :: "(nat \<Rightarrow> u64) \<Rightarrow> virtual_map \<Rightarrow> nat \<Rightarrow> bool" where
  "node_marked ov s k \<longleftrightarrow>
     \<not> (free_bitmap s (k div 64) < INT64_MAX \<and> free_bitmap s (k div 64) AND c_one_shl ov (k mod 64) = 0)"

text \<open>The scan finds a node.\<close>

definition node_available :: "(nat \<Rightarrow> u64) \<Rightarrow> virtual_map \<Rightarrow> bool" where
  "node_available ov s \<longleftrightarrow> unat (free_bitmap_length s) \<le> 65535 \<and>
     (\<exists>i off. slot_free ov (vwords s) i off)"

lemma slot_scan_unmarked:
  assumes "unat (free_bitmap_length s) \<le> 65535" and "slot_scan ov s 0 = Some (Some (i, off))"
  shows "off < 64 \<and> \<not> node_marked ov s (i * 64 + off)"
proof -
  have sf: "slot_free ov (vwords s) i off"
    using assms slot_scan_find [of s ov] by (intro find_slot_Some) simp
  then have "i < unat (free_bitmap_length s)" "off < 64"
    by (simp_all add: slot_free_def vwords_simps(1))
  with sf show ?thesis by (simp add: node_marked_def slot_free_def vwords_simps)
qed

lemma node_availableE:
  assumes "node_available ov s"
  obtains i off where "slot_scan ov s 0 = Some (Some (i, off))" "off < 64"
    "\<not> node_marked ov s (i * 64 + off)"
proof -
  have len: "unat (free_bitmap_length s) \<le> 65535" using assms by (simp add: node_available_def)
  obtain i off where "find (\<lambda>(i, off). slot_free ov (vwords s) i off) (slots_from 0 (vwords s)) = Some (i, off)"
    using assms find_slot_None [of ov "vwords s"]
    by (cases "find (\<lambda>(i, off). slot_free ov (vwords s) i off) (slots_from 0 (vwords s))")
      (auto simp: node_available_def)
  then have "slot_scan ov s 0 = Some (Some (i, off))"
    by (simp only: slot_scan_find [OF len])
  with slot_scan_unmarked [OF len this] that show ?thesis by blast
qed

section \<open>INSERT\<close>

lemma insert_entry_chain:
  assumes ch: "chain s (ys @ (i, b, l) # zs)"
    and marked: "\<forall>x \<in> set (ys @ (i, b, l) # zs). node_marked ov s (fst x)"
    and avail: "node_available ov s"
  obtains k s' where "insert_entry ov (ref_after First ys) f n s = Some (rc_ok, s')"
    "chain s' (ys @ (i, b, l) # (k, f, n) # zs)" "k \<notin> fst ` set (ys @ (i, b, l) # zs)"
proof -
  obtain w off where scan: "slot_scan ov s 0 = Some (Some (w, off))"
    and un: "\<not> node_marked ov s (w * 64 + off)"
    using avail by (rule node_availableE)
  define k where "k = w * 64 + off"
  have new: "k \<notin> fst ` set (ys @ (i, b, l) # zs)" 
    using un marked unfolding k_def [symmetric] by fastforce
  let ?r = "ref_after First ys"
  have last: "ys \<noteq> [] \<Longrightarrow> k \<noteq> fst (last ys)" using new by (auto simp: image_iff)
  define s1 where "s1 = set_node k (node s k\<lparr>base_pointer := f, region_length := n\<rparr>)
    (s\<lparr>free_bitmap := (free_bitmap s)(w := free_bitmap s w OR c_one_shl ov off)\<rparr>)"
  have d0: "deref s ?r = Some i"
    using chain_splitD(3) [OF ch] by (cases ys rule: rev_cases) (auto simp: ref_after_def seg_append)
  have r1: "deref s1 ?r = Some i" 
    using d0 last by (auto simp: ref_after_def s1_def set_node_def)
  have nx1: "next_entry (node s1 i) = next_entry (node s i)" using new by (auto simp: s1_def)
  define s2 where "s2 = set_node k (node s1 k\<lparr>next_entry := next_entry (node s i)\<rparr>) s1"
  have r2: "deref s2 ?r = Some i"
    using r1 last by (auto simp: ref_after_def s2_def set_node_def)
  define s' where "s' = store s2 (NextOf i) (Some k)"
  have "insert_entry ov ?r f n s = Some (rc_ok, s')"
    using r1 r2 nx1 unfolding insert_entry_def scan s'_def s2_def s1_def k_def
    by (simp add: set_node_def Let_def)
  moreover have "chain s' (ys @ (i, b, l) # (k, f, n) # zs)"
  proof -
    have d: "distinct (map fst (ys @ (i, b, l) # zs))" using ch by (simp add: chain_def)
    have nodes: "j \<noteq> k \<Longrightarrow> j \<noteq> i \<Longrightarrow> node s' j = node s j" for j
      by (simp add: s'_def s2_def s1_def)
    have "seg s' p ys q = seg s p ys q" "seg s' p zs q = seg s p zs q" for p q
      using d new by (auto intro!: seg_cong nodes)
    moreover have "map_first s' = map_first s" by (simp add: s'_def s2_def s1_def)
    moreover have "node s' i = node s i\<lparr>next_entry := Some k\<rparr>"
      using new by (auto simp: s'_def s2_def s1_def)
    moreover have "node s' k = \<lparr>next_entry = next_entry (node s i), region_length = n, base_pointer = f,
        \<dots> = virtual_alloc_entry.more (node s k)\<rparr>"
      using new by (auto simp: s'_def s2_def s1_def)
    ultimately show ?thesis
      using d new chain_splitD [OF ch] by (auto simp: chain_def seg_append image_iff)
  qed
  ultimately show ?thesis using that new by blast
qed

end
