(* ===== verification/Virt_Regions.thy ===== *)
theory Virt_Regions
  imports Virt_Chain
begin

text \<open>
  The regions of the virtual address map as sets of addresses: what it is for a map to be in order
  (sorted, with gaps, whole pages), and that the two ways the allocations grow a map (a region
  grows and may join the next one; a block is placed in a gap) keep it in order and add exactly
  the block.
\<close>

section \<open>Regions as address ranges\<close>

definition rstart :: "vregion \<Rightarrow> nat" where
  "rstart x = unat (fst (snd x))"

definition rend :: "vregion \<Rightarrow> nat" where
  "rend x = unat (fst (snd x)) + unat (snd (snd x))"

definition region_ok :: "vregion \<Rightarrow> bool" where
  "region_ok x \<longleftrightarrow> rend x < 2 ^ 64 \<and> 4096 dvd rstart x \<and> 4096 dvd rend x"

text \<open>Sorted, with a gap between neighbours, and made of whole pages.\<close>

definition placed :: "vregion list \<Rightarrow> bool" where
  "placed xs \<longleftrightarrow> sorted_wrt (\<lambda>x y. rend x < rstart y) xs \<and> (\<forall>x \<in> set xs. region_ok x)"

definition allocated :: "vregion list \<Rightarrow> nat set" where
  "allocated xs = (\<Union>x \<in> set xs. {rstart x..<rend x})"

definition page_at :: "nat \<Rightarrow> nat set" where
  "page_at a = {a..<a + 4096}"

lemma rstart_le_rend: "rstart x \<le> rend x"
  by (simp add: rstart_def rend_def)

lemma placed_split:
  "placed (ys @ e # zs) \<longleftrightarrow> placed ys \<and> placed zs \<and> region_ok e \<and>
     (\<forall>y \<in> set ys. rend y < rstart e) \<and> (\<forall>z \<in> set zs. rend e < rstart z)"
proof -
  have "rend y < rstart e \<Longrightarrow> rend e < rstart z \<Longrightarrow> rend y < rstart z" for y z
    using rstart_le_rend [of e] by simp
  then show ?thesis by (auto simp: placed_def sorted_wrt_append)
qed

lemma placed_Cons:
  "placed (e # zs) \<longleftrightarrow> placed zs \<and> region_ok e \<and> (\<forall>z \<in> set zs. rend e < rstart z)"
  by (auto simp: placed_def)

lemma allocated_split:
  "allocated (ys @ e # zs) = allocated ys \<union> {rstart e..<rend e} \<union> allocated zs"
  by (auto simp: allocated_def)

lemma allocated_Cons: "allocated (e # zs) = {rstart e..<rend e} \<union> allocated zs"
  by (simp add: allocated_def)

text \<open>A map in order: a chain of at least one region, each region's node marked in the bitmap.\<close>

definition vm_ok :: "(nat \<Rightarrow> u64) \<Rightarrow> virtual_map \<Rightarrow> vregion list \<Rightarrow> bool" where
  "vm_ok ov s xs \<longleftrightarrow> chain s xs \<and> xs \<noteq> [] \<and> placed xs \<and> (\<forall>x \<in> set xs. node_marked ov s (fst x))"

text \<open>The regions after an operation: still a chain in order, allocating \<open>A\<close>.\<close>

definition maps_to :: "virtual_map \<Rightarrow> nat set \<Rightarrow> bool" where
  "maps_to s A \<longleftrightarrow> (\<exists>xs. chain s xs \<and> xs \<noteq> [] \<and> placed xs \<and> allocated xs = A)"

lemma maps_toI: "chain s xs \<Longrightarrow> xs \<noteq> [] \<Longrightarrow> placed xs \<Longrightarrow> allocated xs = A \<Longrightarrow> maps_to s A"
  by (auto simp: maps_to_def)

lemma region_end_unat:
  assumes "chain s (ys @ (i, b, l) # zs)" and "rend (i, b, l) < 2 ^ 64"
  shows "unat (region_end (node s i)) = rend (i, b, l)"
  using assms chain_splitD [OF assms(1)]
  by (simp add: region_end_def rend_def unat_add_no_wrap)

lemma rend_grow: "rend (i, b, l) + unat n < 2 ^ 64 \<Longrightarrow> rend (i, b, l + n) = rend (i, b, l) + unat n"
  by (simp add: rend_def unat_add_no_wrap)

text \<open>A region that has grown up to, at most, its successor.\<close>

lemma join_if_touching_ok:
  assumes ch: "chain s (ys @ (i, b, l) # zs)"
    and p: "placed ys" "placed zs" "region_ok (i, b, l)"
      "\<forall>y \<in> set ys. rend y < rstart (i, b, l)" "\<forall>z \<in> set zs. rend (i, b, l) \<le> rstart z"
  shows "maps_to (join_if_touching ov i s) (allocated (ys @ (i, b, l) # zs))"
proof -
  have re: "unat (region_end (node s i)) = rend (i, b, l)"
    using p(3) by (intro region_end_unat [OF ch]) (simp add: region_ok_def)
  show ?thesis
  proof (cases zs)
    case Nil
    then have "join_if_touching ov i s = s"
      using chain_next [OF ch] by (simp add: join_if_touching_def)
    with ch p Nil show ?thesis by (auto intro!: maps_toI simp: placed_split)
  next
    case (Cons z zs')
    obtain j c m where z: "z = (j, c, m)" by (cases z)
    have nx: "next_entry (node s i) = Some j" using chain_next [OF ch] Cons z by simp
    have ch2: "chain s ((ys @ [(i, b, l)]) @ (j, c, m) # zs')" using ch Cons z by simp
    have c: "base_pointer (node s j) = c" by (rule chain_splitD(1) [OF ch2])
    have pz: "placed zs'" "region_ok z" "\<forall>y \<in> set zs'. rend z < rstart y"
      using p(2) Cons by (auto simp: placed_Cons)
    show ?thesis
    proof (cases "rend (i, b, l) = rstart z")
      case True
      then have "region_end (node s i) = c"
        using re by (simp add: word_unat_eq_iff rstart_def z)
      then have j: "join_if_touching ov i s = join ov i j s"
        by (simp add: join_if_touching_def nx c)
      have "chain (join ov i j s) (ys @ (i, b, l + m) # zs')"
        using ch Cons z by (intro chain_join) simp
      moreover have r: "rend (i, b, l + m) = rend z" "rstart (i, b, l + m) = rstart (i, b, l)"
        using True pz(2) rend_grow [of i b l m] z by (auto simp: region_ok_def rend_def rstart_def)
      moreover have "{rstart (i, b, l)..<rend (i, b, l)} \<union> {rstart z..<rend z} = {rstart (i, b, l)..<rend z}"
        using True rstart_le_rend [of "(i, b, l)"] rstart_le_rend [of z] by auto
      moreover have "placed (ys @ (i, b, l + m) # zs')"
        using p pz r by (simp add: placed_split region_ok_def)
      moreover have "allocated (ys @ (i, b, l + m) # zs') = allocated (ys @ (i, b, l) # zs)"
        by (simp only: Cons allocated_split allocated_Cons r Un_ac calculation(4) [symmetric])
      ultimately show ?thesis by (auto simp only: j intro: maps_toI)
    next
      case False
      then have "region_end (node s i) \<noteq> c"
        using re by (auto simp: rstart_def z)
      then have "join_if_touching ov i s = s"
        by (simp add: join_if_touching_def nx c)
      moreover have "rend (i, b, l) < rstart z" using False p(5) Cons by auto
      then have "placed (ys @ (i, b, l) # zs)"
        using p pz Cons rstart_le_rend [of z] by (fastforce simp: placed_split)
      ultimately show ?thesis using ch by (auto intro: maps_toI)
    qed
  qed
qed

text \<open>A block in the gap after a region.\<close>

text \<open>The next region starts where the page ends: it grows downwards.\<close>

lemma take_gap_grows:
  assumes vm: "vm_ok ov s (ys @ (i, b, l) # (j, f + n, m) # zs')" and gap: "rend (i, b, l) < unat f"
    and f: "unat f + unat n < 2 ^ 64" "4096 dvd unat f"
  shows "\<exists>s'. take_gap ov (ref_after First ys) i f n s = Some (rc_ok, s') \<and>
    maps_to s' (allocated (ys @ (i, b, l) # (j, f + n, m) # zs') \<union> {unat f..<unat f + unat n})"
proof -
  let ?xs = "ys @ (i, b, l) # (j, f + n, m) # zs'"
  from vm have ch: "chain s ?xs" and p: "placed ?xs" by (simp_all add: vm_ok_def)
  have ch2: "chain s ((ys @ [(i, b, l)]) @ (j, f + n, m) # zs')" using ch by simp
  have "next_entry (node s i) = Some j" "base_pointer (node s j) = f + n"
    using chain_next [OF ch] chain_splitD(1) [OF ch2] by simp_all
  then have "take_gap ov (ref_after First ys) i f n s = Some (rc_ok, grow_down j n s)"
    by (simp add: take_gap_def)
  moreover have ch3: "chain (grow_down j n s) (ys @ (i, b, l) # (j, f, m + n) # zs')"
    using chain_grow_down [OF ch2, of n] by simp
  moreover have fn: "unat (f + n) = unat f + unat n" using f(1) by (intro unat_add_no_wrap) simp
  have pz: "placed zs'" "region_ok (j, f + n, m)" "\<forall>y \<in> set zs'. rend (j, f + n, m) < rstart y"
    using p by (simp_all add: placed_split placed_Cons)
  have r: "rend (j, f, m + n) = rend (j, f + n, m)" "rstart (j, f, m + n) = unat f"
    "rstart (j, f + n, m) = unat f + unat n"
    using pz(2) fn rend_grow [of j f m n] by (auto simp: region_ok_def rend_def rstart_def)
  moreover have "placed (ys @ (i, b, l) # (j, f, m + n) # zs')"
  proof -
    have "placed ((j, f, m + n) # zs')"
      using pz r f(2) by (simp add: placed_Cons region_ok_def)
    moreover have "\<forall>y \<in> set zs'. rend (i, b, l) < rstart y"
      using p by (simp add: placed_split)
    ultimately show ?thesis using p gap(1) r by (simp add: placed_split)
  qed
  moreover have "{rstart (j, f, m + n)..<rend (j, f, m + n)} =
      {unat f..<unat f + unat n} \<union> {rstart (j, f + n, m)..<rend (j, f + n, m)}"
    using r rstart_le_rend [of "(j, f + n, m)"] by auto
  then have "allocated (ys @ (i, b, l) # (j, f, m + n) # zs') =
      allocated ?xs \<union> {unat f..<unat f + unat n}"
    by (simp only: allocated_split allocated_Cons Un_ac)
  ultimately show ?thesis by (blast intro: maps_toI)
qed

text \<open>Otherwise a region of its own is put in between.\<close>

lemma take_gap_inserts:
  assumes vm: "vm_ok ov s (ys @ (i, b, l) # zs)" and avail: "node_available ov s"
    and gap: "rend (i, b, l) < unat f" "\<forall>z \<in> set zs. unat f + unat n \<le> rstart z"
    and apart: "\<nexists>j m zs'. zs = (j, f + n, m) # zs'"
    and f: "unat f + unat n < 2 ^ 64" "4096 dvd unat f" "4096 dvd unat n"
  shows "\<exists>s'. take_gap ov (ref_after First ys) i f n s = Some (rc_ok, s') \<and>
    maps_to s' (allocated (ys @ (i, b, l) # zs) \<union> {unat f..<unat f + unat n})"
proof -
  let ?xs = "ys @ (i, b, l) # zs"
  from vm have ch: "chain s ?xs" and p: "placed ?xs"
    and marked: "\<forall>x \<in> set ?xs. node_marked ov s (fst x)"
    by (simp_all add: vm_ok_def)
  have "take_gap ov (ref_after First ys) i f n s = insert_entry ov (ref_after First ys) f n s"
  proof (cases zs)
    case Nil
    then show ?thesis using chain_next [OF ch] by (simp add: take_gap_def)
  next
    case (Cons z zs')
    obtain j c m where z: "z = (j, c, m)" by (cases z)
    have ch2: "chain s ((ys @ [(i, b, l)]) @ (j, c, m) # zs')" using ch Cons z by simp
    then show ?thesis
      using chain_next [OF ch] chain_splitD(1) [OF ch2] apart Cons z by (simp add: take_gap_def)
  qed
  moreover obtain k s' where ins: "insert_entry ov (ref_after First ys) f n s = Some (rc_ok, s')"
    and ch': "chain s' (ys @ (i, b, l) # (k, f, n) # zs)"
    using insert_entry_chain [OF ch marked avail, of f n] by blast
  moreover have "\<forall>z \<in> set zs. unat f + unat n < rstart z"
  proof (cases zs)
    case (Cons z zs')
    obtain j c m where z: "z = (j, c, m)" by (cases z)
    have "c \<noteq> f + n" using apart Cons z by auto
    then have "rstart z \<noteq> unat f + unat n"
      using f(1) by (auto simp: rstart_def z word_unat_eq_iff unat_add_no_wrap)
    then have "unat f + unat n < rstart z" using gap(2) Cons by auto
    moreover have "\<forall>y \<in> set zs'. rend z < rstart y"
      using p Cons by (simp add: placed_split placed_Cons)
    ultimately show ?thesis using Cons rstart_le_rend [of z] by fastforce
  qed simp
  then have "placed (ys @ (i, b, l) # (k, f, n) # zs)"
    using p gap(1) f by (simp add: placed_split placed_Cons region_ok_def rend_def rstart_def)
  moreover have "allocated (ys @ (i, b, l) # (k, f, n) # zs) =
      allocated ?xs \<union> {unat f..<unat f + unat n}"
    by (auto simp: allocated_split allocated_Cons rstart_def rend_def)
  ultimately show ?thesis by (auto intro!: maps_toI)
qed

lemma take_gap_ok:
  assumes vm: "vm_ok ov s (ys @ (i, b, l) # zs)" and avail: "node_available ov s"
    and gap: "rend (i, b, l) < unat f" "\<forall>z \<in> set zs. unat f + unat n \<le> rstart z"
    and f: "unat f + unat n < 2 ^ 64" "4096 dvd unat f" "4096 dvd unat n"
  shows "\<exists>s'. take_gap ov (ref_after First ys) i f n s = Some (rc_ok, s') \<and>
    maps_to s' (allocated (ys @ (i, b, l) # zs) \<union> {unat f..<unat f + unat n})"
proof (cases "\<exists>j m zs'. zs = (j, f + n, m) # zs'")
  case True
  then obtain j m zs' where zs: "zs = (j, f + n, m) # zs'" by blast
  show ?thesis using take_gap_grows [OF vm [unfolded zs] gap(1) f(1,2)] unfolding zs .
qed (rule take_gap_inserts [OF vm avail gap _ f])
end
