(* ===== verification/Virt_Props.thy ===== *)
theory Virt_Props
  imports Virt_Regions
begin

text \<open>
  The properties of the virtual address map: which calls change the set of allocated addresses by
  exactly their block, which are refused, and the calls that do not do what they mean to.
\<close>

section \<open>Where a block of pages belongs\<close>

lemma page_gap: "4096 dvd a \<Longrightarrow> 4096 dvd b \<Longrightarrow> a < b \<Longrightarrow> a + 4096 \<le> (b :: nat)"
  by (auto elim!: dvdE)

lemma page_disjointD: "page_at a \<inter> A = {} \<Longrightarrow> a \<notin> A"
proof -
  have "a \<in> page_at a" by (simp add: page_at_def)
  then show "page_at a \<inter> A = {} \<Longrightarrow> a \<notin> A" by blast
qed

lemma placed_later: "placed (x # xs) \<Longrightarrow> y \<in> set xs \<Longrightarrow> rend x < rstart y"
  by (simp add: placed_Cons)

text \<open>A frame that is not the base of a later region lies in the gap after, or in, the region found.\<close>

lemma locate:
  assumes vm: "vm_ok ov s xs" and start: "rstart (hd xs) \<le> unat f" "unat f \<notin> rstart ` set (tl xs)"
  obtains ys i b l zs where "xs = ys @ (i, b, l) # zs"
    "find_entry s f First = Some (ref_after First ys)" "deref s (ref_after First ys) = Some i"
    "rstart (i, b, l) \<le> unat f" "\<forall>z \<in> set zs. unat f < rstart z"
    "unat (region_end (node s i)) = rend (i, b, l)"
proof -
  have ch: "chain s xs" "xs \<noteq> []" and p: "placed xs" using vm by (simp_all add: vm_ok_def)
  obtain ys e zs where st: "stops_at xs f ys e zs"
    and fe: "find_entry s f First = Some (ref_after First ys)" "deref s (ref_after First ys) = Some (fst e)"
    using find_entry_chain [OF ch] by blast
  obtain i b l where e: "e = (i, b, l)" by (cases e)
  have xs: "xs = ys @ (i, b, l) # zs" using st e by (simp add: stops_at_def)
  have le: "rstart (i, b, l) \<le> unat f"
    using st start(1) xs e by (cases ys) (auto simp: stops_at_def rstart_def word_less_nat_alt)
  have "\<forall>z \<in> set zs. unat f < rstart z"
  proof (cases zs)
    case (Cons z zs')
    have "unat f \<le> rstart z" using st Cons by (simp add: stops_at_def rstart_def word_le_nat_alt)
    moreover have "z \<in> set (tl xs)" using xs Cons by (cases ys) simp_all
    ultimately have "unat f < rstart z" using start(2) by (force simp: order.order_iff_strict)
    then show ?thesis
      using p xs Cons rstart_le_rend [of z] by (fastforce simp: placed_split placed_Cons)
  qed simp
  moreover have "unat (region_end (node s i)) = rend (i, b, l)"
    using ch(1) p xs by (intro region_end_unat) (auto simp: placed_split region_ok_def)
  ultimately show ?thesis using that xs fe e le by simp
qed

lemma locate_in:
  assumes vm: "vm_ok ov s xs" and in_use: "unat f \<in> allocated xs"
    and nb: "unat f \<notin> rstart ` set (tl xs)"
  obtains ys i b l zs where "xs = ys @ (i, b, l) # zs"
    "find_entry s f First = Some (ref_after First ys)" "deref s (ref_after First ys) = Some i"
    "rstart (i, b, l) \<le> unat f" "unat f < rend (i, b, l)"
    "unat (region_end (node s i)) = rend (i, b, l)"
proof -
  have p: "placed xs" "xs \<noteq> []" using vm by (simp_all add: vm_ok_def)
  obtain x where x: "x \<in> set xs" "rstart x \<le> unat f" "unat f < rend x"
    using in_use by (auto simp: allocated_def)
  have "rstart (hd xs) \<le> unat f"
    using p x rstart_le_rend [of "hd xs"] by (cases xs) (force simp: placed_Cons)+
  then obtain ys i b l zs where xs: "xs = ys @ (i, b, l) # zs"
    and fe: "find_entry s f First = Some (ref_after First ys)" "deref s (ref_after First ys) = Some i"
    and le: "rstart (i, b, l) \<le> unat f" and gt: "\<forall>z \<in> set zs. unat f < rstart z"
    and re: "unat (region_end (node s i)) = rend (i, b, l)"
    using locate [OF vm _ nb] by blast
  have "x \<notin> set zs" using gt x by auto
  moreover have "x \<notin> set ys" using p xs x le by (auto simp: placed_split)
  ultimately have "unat f < rend (i, b, l)" using x xs by auto
  with that xs fe le re show ?thesis by blast
qed

text \<open>A block of \<open>n\<close> bytes at the end of a region or in the gap after it.\<close>

lemma extend_ok:
  assumes vm: "vm_ok ov s (ys @ (i, b, l) # zs)"
    and n: "rend (i, b, l) + unat n < 2 ^ 64" "4096 dvd unat n"
    and gap: "\<forall>z \<in> set zs. rend (i, b, l) + unat n \<le> rstart z"
  shows "maps_to (join_if_touching ov i (add_length i n s))
    (allocated (ys @ (i, b, l) # zs) \<union> {rend (i, b, l)..<rend (i, b, l) + unat n})"
proof -
  have ch: "chain s (ys @ (i, b, l) # zs)" and p: "placed (ys @ (i, b, l) # zs)"
    using vm by (simp_all add: vm_ok_def)
  have r: "rend (i, b, l + n) = rend (i, b, l) + unat n" "rstart (i, b, l + n) = rstart (i, b, l)"
    using rend_grow [OF n(1)] by (simp_all add: rstart_def)
  have "maps_to (join_if_touching ov i (add_length i n s)) (allocated (ys @ (i, b, l + n) # zs))"
    using p n gap by (intro join_if_touching_ok chain_add_length [OF ch])
      (simp_all add: placed_split region_ok_def r)
  moreover have "allocated (ys @ (i, b, l + n) # zs) =
      allocated (ys @ (i, b, l) # zs) \<union> {rend (i, b, l)..<rend (i, b, l) + unat n}"
    using rstart_le_rend [of "(i, b, l)"] by (auto simp: allocated_split r)
  ultimately show ?thesis by simp
qed

section \<open>Properties: allocation\<close>

lemma alloc_at_core:
  assumes vm: "vm_ok ov s xs" and avail: "node_available ov s"
    and f: "4096 dvd unat frame" "unat frame + 4096 < 2 ^ 64" "rstart (hd xs) \<le> unat frame"
    and free: "page_at (unat frame) \<inter> allocated xs = {}" "unat frame \<notin> rstart ` set (tl xs)"
  shows "\<exists>s'. page_virtual_alloc_at ov s frame = Some (rc_ok, s') \<and>
    maps_to s' (allocated xs \<union> page_at (unat frame))"
proof -
  obtain ys i b l zs where xs: "xs = ys @ (i, b, l) # zs"
    and fe: "find_entry s frame First = Some (ref_after First ys)" "deref s (ref_after First ys) = Some i"
    and le: "rstart (i, b, l) \<le> unat frame" and gt: "\<forall>z \<in> set zs. unat frame < rstart z"
    and re: "unat (region_end (node s i)) = rend (i, b, l)"
    using locate [OF vm f(3) free(2)] by blast
  have ok: "region_ok (i, b, l)" "\<forall>z \<in> set zs. region_ok z"
    using vm xs by (auto simp: vm_ok_def placed_def)
  have gap: "\<forall>z \<in> set zs. unat frame + 4096 \<le> rstart z"
    using gt ok(2) f(1) by (auto intro!: page_gap simp: region_ok_def)
  have "unat frame \<notin> {rstart (i, b, l)..<rend (i, b, l)}"
    using page_disjointD [OF free(1)] xs by (auto simp: allocated_split)
  then have end_le: "rend (i, b, l) \<le> unat frame" using le by simp
  then have nb: "\<not> region_end (node s i) > frame" using re by (simp add: word_less_nat_alt)
  show ?thesis
  proof (cases "rend (i, b, l) = unat frame")
    case True
    then have "region_end (node s i) = frame" using re by (simp add: word_unat_eq_iff)
    then have "page_virtual_alloc_at ov s frame = Some (rc_ok, join_if_touching ov i (add_length i PAGE s))"
      by (simp add: page_virtual_alloc_at_def fe)
    moreover have "maps_to (join_if_touching ov i (add_length i PAGE s)) (allocated xs \<union> page_at (unat frame))"
      using extend_ok [of ov s ys i b l zs PAGE] vm xs f(2) gap True by (simp add: page_at_def)
    ultimately show ?thesis by blast
  next
    case False
    then have "region_end (node s i) \<noteq> frame" using re by auto
    then have "page_virtual_alloc_at ov s frame = take_gap ov (ref_after First ys) i frame PAGE s"
      using nb by (simp add: page_virtual_alloc_at_def fe)
    moreover have "\<exists>s'. take_gap ov (ref_after First ys) i frame PAGE s = Some (rc_ok, s') \<and>
        maps_to s' (allocated xs \<union> page_at (unat frame))"
      using take_gap_ok [of ov s ys i b l zs frame PAGE] vm xs avail False end_le gap f
      by (simp add: page_at_def)
    ultimately show ?thesis by simp
  qed
qed


text \<open>A frame inside a region, other than at the base of a region after the first, is refused
  with the code 1 and the map stays as it was.\<close>

theorem virt_alloc_at_busy:
  assumes vm: "vm_ok ov s xs" and in_use: "unat frame \<in> allocated xs"
    and nb: "unat frame \<notin> rstart ` set (tl xs)"
  shows "page_virtual_alloc_at ov s frame = Some (rc_busy, s)"
proof -
  obtain ys i b l zs where xs: "xs = ys @ (i, b, l) # zs"
    and fe: "find_entry s frame First = Some (ref_after First ys)" "deref s (ref_after First ys) = Some i"
    and le: "rstart (i, b, l) \<le> unat frame" and lt: "unat frame < rend (i, b, l)"
    and re: "unat (region_end (node s i)) = rend (i, b, l)"
    using locate_in [OF vm in_use nb] by blast
  have "region_end (node s i) > frame" using lt re by (simp only: word_less_nat_alt)
  then show ?thesis by (simp add: page_virtual_alloc_at_def fe)
qed


section \<open>Properties: freeing\<close>

lemma node_available_set_node [simp]: "node_available ov (set_node i v s) = node_available ov s"
  by (simp add: node_available_def vwords_def)

lemma node_marked_set_node [simp]: "node_marked ov (set_node i v s) k = node_marked ov s k"
  by (simp add: node_marked_def)

lemma cut_region_ok:
  assumes vm: "vm_ok ov s (ys @ (i, b, l) # zs)" and avail: "node_available ov s"
    and f: "unat b \<le> unat f" "unat f + unat n \<le> rend (i, b, l)"
      "0 < unat n" "4096 dvd unat f" "4096 dvd unat n"
  shows "\<exists>s'. cut_region ov (ref_after First ys) i f n s = Some (rc_ok, s') \<and>
    maps_to s' (allocated (ys @ (i, b, l) # zs) - {unat f..<unat f + unat n})"
proof -
  let ?xs = "ys @ (i, b, l) # zs"
  from vm have ch: "chain s ?xs" and p: "placed ?xs"
    and marked: "\<forall>x \<in> set ?xs. node_marked ov s (fst x)"
    by (simp_all add: vm_ok_def)
  have lt: "rend (i, b, l) < 2 ^ 64" using p by (simp add: placed_split region_ok_def)
  note bl = chain_splitD(1,2) [OF ch]
  define s1 where "s1 = set_node i ((node s i)\<lparr>region_length := f - b\<rparr>) s"
  have ch1: "chain s1 (ys @ (i, b, f - b) # zs)"
    using bl by (intro chain_update [OF ch]) (simp_all add: s1_def)
  have "\<forall>x \<in> set (ys @ (i, b, f - b) # zs). node_marked ov s1 (fst x)" "node_available ov s1"
    using marked avail by (simp_all add: s1_def)
  from insert_entry_chain [OF ch1 this, of "f + n" "l - (f - b) - n"]
  obtain k s' where ins: "insert_entry ov (ref_after First ys) (f + n) (l - (f - b) - n) s1 = Some (rc_ok, s')"
    and ch': "chain s' (ys @ (i, b, f - b) # (k, f + n, l - (f - b) - n) # zs)"
    by blast
  let ?e = "(i, b, f - b)" and ?n = "(k, f + n, l - (f - b) - n)"
  have u1: "unat (f - b) = unat f - unat b" using f(1) by (simp add: unat_sub word_le_nat_alt)
  have "f - b \<le> l" using u1 f by (simp add: word_le_nat_alt rend_def)
  then have u2: "unat (l - (f - b)) = unat l - (unat f - unat b)" by (simp add: unat_sub u1)
  then have "n \<le> l - (f - b)" using f by (simp add: word_le_nat_alt rend_def)
  then have u3: "unat (l - (f - b) - n) = unat l - (unat f - unat b) - unat n"
    by (simp add: unat_sub u2)
  have u4: "unat (f + n) = unat f + unat n" using f(2) lt by (intro unat_add_no_wrap) simp
  have r: "rstart ?e = rstart (i, b, l)" "rend ?e = unat f" "rstart ?n = unat f + unat n"
    "rend ?n = rend (i, b, l)"
    using f by (simp_all add: rstart_def rend_def u1 u3 u4)
  have "\<forall>z \<in> set zs. unat f < rstart z"
    using p f(2) by (fastforce simp: placed_split)
  then have "placed (ys @ ?e # ?n # zs)"
    using p f lt by (simp add: placed_split placed_Cons region_ok_def r)
  moreover have "allocated (ys @ ?e # ?n # zs) = allocated ?xs - {unat f..<unat f + unat n}"
  proof -
    have "allocated ys \<inter> {unat f..<unat f + unat n} = {}"
      using p f(1) rstart_le_rend by (fastforce simp: placed_split allocated_def rstart_def)
    moreover have "allocated zs \<inter> {unat f..<unat f + unat n} = {}"
      using p f(2) by (fastforce simp: placed_split allocated_def)
    moreover have "{rstart (i, b, l)..<rend (i, b, l)} - {unat f..<unat f + unat n} =
        {rstart (i, b, l)..<unat f} \<union> {unat f + unat n..<rend (i, b, l)}"
      using f(1,2) by (auto simp: rstart_def)
    ultimately show ?thesis
      by (auto simp: allocated_split allocated_Cons r)
  qed
  moreover have "cut_region ov (ref_after First ys) i f n s = Some (rc_ok, s')"
    using ins bl by (simp add: cut_region_def s1_def Let_def)
  ultimately show ?thesis using ch' by (auto intro!: maps_toI)
qed


section \<open>Properties: several pages\<close>

lemma join_if_top_touching:
  "top_val = region_end (node s e) \<Longrightarrow> join_if_top ov e top_val s = join_if_touching ov e s"
  by (simp add: join_if_top_def join_if_touching_def)

text \<open>\<open>page_virtual_alloc_multiple\<close> on a map in order extends the first region by
  \<open>alloc_count\<close> pages when they end at or before the next region, and otherwise returns the code
  1 and changes nothing. In neither case does it tell the caller where the pages are: \<open>*frame\<close> is
  never assigned.\<close>

theorem virt_alloc_multiple_ok:
  assumes vm: "vm_ok ov s (x # xs)" and c: "alloc_count \<noteq> 0"
    and room: "rend x + unat alloc_count * 4096 < 2 ^ 64"
  shows "(\<exists>z zs. xs = z # zs \<and> rstart z < rend x + unat alloc_count * 4096) \<and>
      page_virtual_alloc_multiple ov s frame alloc_count = Some (rc_busy, frame, s) \<or>
    (\<exists>s'. page_virtual_alloc_multiple ov s frame alloc_count = Some (rc_ok, frame, s') \<and>
      maps_to s' (allocated (x # xs) \<union> {rend x..<rend x + unat alloc_count * 4096}))"
proof -
  obtain i b l where x: "x = (i, b, l)" by (cases x)
  have vm': "vm_ok ov s ([] @ (i, b, l) # xs)" using vm x by simp
  have ch: "chain s ([] @ (i, b, l) # xs)" and p: "placed (x # xs)" using vm vm' by (simp_all add: vm_ok_def)
  have mf: "map_first s = Some i" using ch by (simp add: chain_def)
  have n: "unat (pages alloc_count) = unat alloc_count * 4096"
    using room by (simp add: push_bit_eq_mult unat_word_ariths mult.commute)
  have re: "unat (region_end (node s i)) = rend x"
    using region_end_unat [OF ch] p x by (simp add: placed_Cons region_ok_def)
  let ?top = "region_end (node s i) + pages alloc_count"
  have top: "unat ?top = rend x + unat alloc_count * 4096"
    using room re n by (simp add: unat_add_no_wrap)
  have t: "?top = region_end (node (add_length i (pages alloc_count) s) i)"
    by (simp add: add_length_def region_end_def)
  show ?thesis
  proof (cases "\<exists>z zs. xs = z # zs \<and> rstart z < rend x + unat alloc_count * 4096")
    case True
    then obtain j d m zs where z: "xs = (j, d, m) # zs" "unat d < rend x + unat alloc_count * 4096"
      by (auto simp: rstart_def)
    have "next_base s i = Some d"
      using chain_next [OF ch] chain_splitD(1) [of s "[(i, b, l)]" j d m zs] ch z(1)
      by (simp add: next_base_def)
    then have "page_virtual_alloc_multiple ov s frame alloc_count = Some (rc_busy, frame, s)"
      using c mf z(2) top by (simp add: page_virtual_alloc_multiple_def word_less_nat_alt)
    with True show ?thesis by blast
  next
    case False
    have gap: "\<forall>z \<in> set xs. rend x + unat alloc_count * 4096 \<le> rstart z"
    proof (cases xs)
      case (Cons z zs)
      then have "rend x + unat alloc_count * 4096 \<le> rstart z" using False by auto
      then show ?thesis using p Cons rstart_le_rend [of z] by (fastforce simp: placed_Cons)
    qed simp
    have "\<not> (case next_base s i of Some b \<Rightarrow> ?top > b | None \<Rightarrow> False)"
    proof (cases xs)
      case Nil
      then show ?thesis using chain_next [OF ch] by (simp add: next_base_def)
    next
      case (Cons z zs)
      obtain j d m where z: "z = (j, d, m)" by (cases z)
      have "next_base s i = Some d"
        using chain_next [OF ch] chain_splitD(1) [of s "[(i, b, l)]" j d m zs] ch Cons z
        by (simp add: next_base_def)
      then show ?thesis using gap Cons z top by (simp add: word_less_nat_alt rstart_def)
    qed
    then have "page_virtual_alloc_multiple ov s frame alloc_count =
        Some (rc_ok, frame, join_if_touching ov i (add_length i (pages alloc_count) s))"
      using c mf join_if_top_touching [OF t, of ov]
      by (simp add: page_virtual_alloc_multiple_def Let_def)
    moreover have "maps_to (join_if_touching ov i (add_length i (pages alloc_count) s))
        (allocated (x # xs) \<union> {rend x..<rend x + unat alloc_count * 4096})"
      using extend_ok [OF vm', of "pages alloc_count"] room gap n x by simp
    ultimately show ?thesis by blast
  qed
qed

text \<open>\<open>page_virtual_alloc_multiple_at\<close> for a block above every region does not return: its
  guard reads the base of the next region when there is none.\<close>

theorem virt_multiple_at_null:
  assumes vm: "vm_ok ov s xs" and c: "alloc_count \<noteq> 0"
    and above: "\<forall>x \<in> set xs. rend x \<le> unat frame" and nb: "unat frame \<notin> rstart ` set (tl xs)"
  shows "page_virtual_alloc_multiple_at ov s frame alloc_count = None"
proof -
  have xs: "xs \<noteq> []" and ch: "chain s xs" using vm by (simp_all add: vm_ok_def)
  have "rstart (hd xs) \<le> unat frame"
    using above xs rstart_le_rend [of "hd xs"] by (meson hd_in_set le_trans)
  from locate [OF vm this nb] obtain ys i b l zs where xs: "xs = ys @ (i, b, l) # zs"
    and fe: "find_entry s frame First = Some (ref_after First ys)" "deref s (ref_after First ys) = Some i"
    and le: "rstart (i, b, l) \<le> unat frame" and gt: "\<forall>z \<in> set zs. unat frame < rstart z"
    and re: "unat (region_end (node s i)) = rend (i, b, l)"
    by blast
  have "zs = []"
  proof (rule ccontr)
    assume "zs \<noteq> []"
    then have "hd zs \<in> set zs" by simp
    then have "unat frame < rstart (hd zs)" "rend (hd zs) \<le> unat frame"
      using gt above xs by (blast, simp)
    with rstart_le_rend [of "hd zs"] show False by simp
  qed
  then have "next_base s i = None" using chain_next [of s ys i b l zs] ch xs by (simp add: next_base_def)
  moreover have "\<not> region_end (node s i) > frame" using above xs re by (simp add: word_less_nat_alt)
  ultimately show ?thesis using c by (simp add: page_virtual_alloc_multiple_at_def fe)
qed

section \<open>Properties: what the map gets wrong\<close>

text \<open>\<open>page_virtual_alloc\<close> adds 1 to the length of the first region, which is in bytes: two
  calls in a row return "pages" one byte apart.\<close>

theorem virt_alloc_overlap:
  assumes "map_first s = Some e" and "next_entry (node s e) = None"
    and "region_end (node s e) \<noteq> 0" "region_end (node s e) + 1 \<noteq> 0"
  shows "\<exists>s' s''. page_virtual_alloc ov s = Some (rc_ok, region_end (node s e), s') \<and>
    page_virtual_alloc ov s' = Some (rc_ok, region_end (node s e) + 1, s'')"
proof -
  let ?s = "add_length e 1 s"
  have "page_virtual_alloc ov s = Some (rc_ok, region_end (node s e), ?s)"
    using assms by (simp add: page_virtual_alloc_def join_if_touching_def add_length_def)
  moreover have "region_end (node ?s e) = region_end (node s e) + 1"
    by (simp add: add_length_def region_end_def)
  then have "page_virtual_alloc ov ?s =
      Some (rc_ok, region_end (node s e) + 1, join_if_touching ov e (add_length e 1 ?s))"
    using assms by (simp add: page_virtual_alloc_def add_length_def)
  ultimately show ?thesis by blast
qed

lemma locate_base:
  assumes vm: "vm_ok ov s xs" and z: "(j, f, m) \<in> set (tl xs)"
  obtains ys i b l zs n where "xs = ys @ (i, b, l) # zs"
    "find_entry s f First = Some (ref_after First ys)" "deref s (ref_after First ys) = Some i"
    "unat (region_end (node s i)) < unat f" "next_entry (node s i) = Some n"
    "base_pointer (node s n) = f"
proof -
  have ch: "chain s xs" "xs \<noteq> []" and p: "placed xs" using vm by (simp_all add: vm_ok_def)
  obtain ys e zs where st: "stops_at xs f ys e zs"
    and fe: "find_entry s f First = Some (ref_after First ys)" "deref s (ref_after First ys) = Some (fst e)"
    using find_entry_chain [OF ch] by blast
  obtain i b l where e: "e = (i, b, l)" by (cases e)
  have xs: "xs = ys @ (i, b, l) # zs" using st e by (simp add: stops_at_def)
  have before: "(j, f, m) \<in> set zs"
  proof (cases ys)
    case Nil
    then show ?thesis using z xs by simp
  next
    case (Cons y ys')
    have "unat b < unat f" using st Cons e by (simp add: stops_at_def word_less_nat_alt)
    then have "(j, f, m) \<noteq> (i, b, l)" by auto
    moreover have "(j, f, m) \<notin> set ys"
      using p xs \<open>unat b < unat f\<close> rstart_le_rend [of "(j, f, m)"]
      by (force simp: placed_split rstart_def)
    ultimately show ?thesis using z xs Cons by auto
  qed
  then obtain n c q zs' where zs: "zs = (n, c, q) # zs'" by (cases zs) auto
  have "f \<le> c" using st zs by (simp add: stops_at_def)
  moreover have "unat c \<le> unat f"
    using before p xs zs rstart_le_rend [of "(n, c, q)"]
    by (auto simp: placed_split placed_Cons rstart_def)
  ultimately have c: "c = f" by (simp add: word_le_nat_alt word_unat_eq_iff)
  have ch2: "chain s ((ys @ [(i, b, l)]) @ (n, c, q) # zs')" using ch(1) xs zs by simp
  have "rend (i, b, l) < rstart (j, f, m)" using p xs before by (simp add: placed_split)
  moreover have "unat (region_end (node s i)) = rend (i, b, l)"
    using ch(1) p xs by (intro region_end_unat) (auto simp: placed_split region_ok_def)
  ultimately have "unat (region_end (node s i)) < unat f" by (simp add: rstart_def)
  then show ?thesis
    using that xs fe e chain_next [of s ys i b l zs] chain_splitD(1) [OF ch2] ch(1) zs c by simp
qed

text \<open>The base of a region after the first is not seen as allocated: \<open>page_virtual_alloc_at\<close>
  returns success for it, and \<open>page_virtual_free\<close> fails.\<close>

theorem virt_later_base:
  assumes vm: "vm_ok ov s xs" and avail: "node_available ov s" and z: "(j, f, m) \<in> set (tl xs)"
  shows "(\<exists>s'. page_virtual_alloc_at ov s f = Some (rc_ok, s')) \<and>
    page_virtual_free ov s f = Some (rc_fail, s)"
proof -
  obtain ys i b l zs n where xs: "xs = ys @ (i, b, l) # zs"
    and fe: "find_entry s f First = Some (ref_after First ys)" "deref s (ref_after First ys) = Some i"
    and lt: "unat (region_end (node s i)) < unat f" and nx: "next_entry (node s i) = Some n"
      "base_pointer (node s n) = f"
    using locate_base [OF vm z] by blast
  have ch: "chain s (ys @ (i, b, l) # zs)"
    and marked: "\<forall>x \<in> set (ys @ (i, b, l) # zs). node_marked ov s (fst x)"
    using vm xs by (simp_all add: vm_ok_def)
  have b: "\<not> region_end (node s i) > f" "region_end (node s i) \<noteq> f" "region_end (node s i) \<le> f"
    using lt by (auto simp: word_less_nat_alt word_le_nat_alt)
  obtain k s' where "insert_entry ov (ref_after First ys) f PAGE s = Some (rc_ok, s')"
    using insert_entry_chain [OF ch marked avail, of f PAGE] by blast
  then have "page_virtual_alloc_at ov s f = Some (rc_ok, s')"
    using b nx by (simp add: page_virtual_alloc_at_def fe take_gap_def)
  moreover have "page_virtual_free ov s f = Some (rc_fail, s)"
    using b by (simp add: page_virtual_free_def fe)
  ultimately show ?thesis by blast
qed

section \<open>Properties: the bitmap of nodes\<close>

lemma unat_and_low: "unat (w AND 0x3f) = unat w mod 64" for w :: u64
proof -
  have "w AND 0x3f = take_bit 6 w" by (simp add: take_bit_eq_mask mask_eq_exp_minus_1)
  then have "w AND 0x3f = w mod 64" by (simp add: take_bit_eq_mod)
  then show ?thesis by (simp add: unat_mod)
qed

lemma word_ge_exp: "bit w n \<Longrightarrow> 2 ^ n \<le> unat w" for w :: u64
proof (rule ccontr)
  assume b: "bit w n" and "\<not> 2 ^ n \<le> unat w"
  then have "unat w div 2 ^ n = 0" by simp
  then have "\<not> bit (unat w) n" by (simp add: bit_iff_odd)
  with b show False by (simp add: bit_unsigned_iff)
qed

lemma clear_location_bits:
  assumes "n < 128"
  shows "clear_location ov n s = s\<lparr>free_bitmap := (free_bitmap s)(n div 16 :=
    free_bitmap s (n div 16) AND NOT (c_one_shl ov (63 - 4 * (n mod 16))))\<rparr>"
proof -
  have u: "unat (of_nat (32 * n) :: u64) = 32 * n" using assms by (intro unat_of_nat_u64) simp
  then have loc: "unat (bitmap_location n) = 4 * n"
    by (simp only: bitmap_location_def unat_drop_bit_div) simp
  have w: "unat (drop_bit 6 (bitmap_location n)) = n div 16"
    by (simp only: unat_drop_bit_div loc) simp
  have m: "unat (bitmap_location n AND 0x3f) = 4 * (n mod 16)"
    by (simp only: unat_and_low loc) (simp add: mult_mod_right)
  have "unat (63 - (bitmap_location n AND 0x3f)) = unat (63 :: u64) - unat (bitmap_location n AND 0x3f)"
    using m by (intro unat_sub) (simp add: word_le_nat_alt)
  then have "unat (63 - (bitmap_location n AND 0x3f)) = 63 - 4 * (n mod 16)"
    using m by simp
  then show ?thesis by (simp only: clear_location_def Let_def w)
qed

text \<open>Giving a node back never clears the bit that was set when it was taken: node \<open>n\<close> of the
  128 was taken by bit \<open>n mod 64\<close> of word \<open>n div 64\<close>, and what is cleared is bit
  \<open>63 - 4 * (n mod 16)\<close> of word \<open>n div 16\<close>, which is never the same.\<close>

theorem virt_clear_wrong_bit:
  assumes "n < 128"
  shows "free_bitmap (clear_location ov n s) = (free_bitmap s)(n div 16 :=
      free_bitmap s (n div 16) AND NOT (c_one_shl ov (63 - 4 * (n mod 16)))) \<and>
    (n div 16, 63 - 4 * (n mod 16)) \<noteq> (n div 64, n mod 64)"
proof -
  have "63 - 4 * (n mod 16) \<noteq> n mod 64" if "n div 16 = n div 64"
  proof -
    have "n div 16 div 4 = n div 16" using that by (simp add: div_mult2_eq [symmetric])
    then have "n div 16 = 0" by (metis div_less_dividend less_irrefl one_less_numeral_iff
        semiring_norm(76) bot_nat_0.not_eq_extremum)
    then have "n < 16" by simp
    then have "n mod 16 = n" "n mod 64 = n" by simp_all
    moreover have "63 - 4 * n \<noteq> n"
    proof
      assume "63 - 4 * n = n"
      then have "5 * n = 63" using \<open>n < 16\<close> by simp
      moreover have "5 * n \<noteq> 63" by presburger
      ultimately show False by simp
    qed
    ultimately show ?thesis by simp
  qed
  then show ?thesis by (auto simp: clear_location_bits [OF assms])
qed

theorem virt_clear_wrong_bit_witness:
  "(70 div 16, 63 - 4 * (70 mod 16)) \<noteq> (70 div 64, 70 mod 64 :: nat)"
  using virt_clear_wrong_bit [of 70 x86_ov undefined] by simp

lemma word0_full: "\<not> w OR c_one_shl x86_ov 63 < INT64_MAX"
proof -
  have "bit (w OR c_one_shl x86_ov 63) 63"
    by (simp add: bit_simps c_one_shl_def x86_ov_def int_to_u64_def)
  then have "2 ^ 63 \<le> unat (w OR c_one_shl x86_ov 63)" by (rule word_ge_exp)
  then show ?thesis by (simp add: word_less_nat_alt INT64_MAX_def)
qed

text \<open>The map \<open>page_allocator_init\<close> leaves is in order and holds the region from the mapping
  base to the end of the page of nodes. (It marks bit 63 for node 0; on an x86 processor that also
  fills the word as far as the scan is concerned, so that node 0 is safe.)\<close>

theorem virt_init_ok:
  assumes "4096 dvd unat base" "4096 dvd unat addr" "unat base \<le> unat addr" "unat addr + 4096 < 2 ^ 64"
  shows "vm_ok x86_ov (init_virtual_map x86_ov base addr s) [(0, base, addr + PAGE - base)] \<and>
    allocated [(0, base, addr + PAGE - base)] = {unat base..<unat addr + 4096}"
proof -
  have a: "unat (addr + PAGE) = unat addr + 4096" using assms(4) by (simp add: unat_add_no_wrap)
  then have l: "unat (addr + PAGE - base) = unat addr + 4096 - unat base"
    using assms(3) by (simp add: unat_sub word_le_nat_alt)
  let ?s = "init_virtual_map x86_ov base addr s"
  have "node_marked x86_ov ?s 0" by (simp add: node_marked_def init_virtual_map_def word0_full)
  moreover have "chain ?s [(0, base, addr + PAGE - base)]"
    by (simp add: chain_def init_virtual_map_def)
  moreover have r: "rstart (0, base, addr + PAGE - base) = unat base"
    "rend (0, base, addr + PAGE - base) = unat addr + 4096"
    using assms(3) by (simp_all add: rstart_def rend_def l)
  moreover have "placed [(0, base, addr + PAGE - base)]"
    using assms by (simp add: placed_def region_ok_def r)
  ultimately show ?thesis by (simp add: vm_ok_def allocated_def)
qed

lemma store_frame [simp]:
  "free_bitmap (store s r p) = free_bitmap s" "free_bitmap_length (store s r p) = free_bitmap_length s"
  by (cases r; simp)+

lemma insert_entry_bits:
  assumes "slot_scan ov s 0 = Some (Some (i, off))" and "insert_entry ov r f n s = Some (rc, s')"
  shows "rc = rc_ok \<and> free_bitmap s' = (free_bitmap s)(i := free_bitmap s i OR c_one_shl ov off) \<and>
    free_bitmap_length s' = free_bitmap_length s"
  using assms unfolding insert_entry_def
  by (auto simp: Let_def bind_eq_Some_conv)

lemma first_clear_zero: "first_clear ov 0 = Some 63"
proof -
  have "rev [0..<64] = 63 # rev [0..<63]" using upt_Suc_append [of 0 63] by simp
  then show ?thesis by (simp only: first_clear_def find.simps bit.conj_zero_left refl if_True)
qed

lemma slot_scan_skip:
  "ucast i < free_bitmap_length s \<Longrightarrow> \<not> free_bitmap s (unat i) < INT64_MAX \<Longrightarrow>
    slot_scan ov s i = slot_scan ov s (i + 1)"
  by (subst slot_scan.simps) simp

lemma slot_scan_hit:
  "ucast i < free_bitmap_length s \<Longrightarrow> free_bitmap s (unat i) < INT64_MAX \<Longrightarrow>
    first_clear ov (free_bitmap s (unat i)) = Some off \<Longrightarrow> slot_scan ov s i = Some (Some (unat i, off))"
  by (subst slot_scan.simps) simp

lemma slot_scan_end: "\<not> ucast i < free_bitmap_length s \<Longrightarrow> slot_scan ov s i = Some None"
  by (subst slot_scan.simps) simp

lemma slot_scan_init:
  assumes "free_bitmap s 1 = 0"
  shows "slot_scan x86_ov (init_virtual_map x86_ov base addr s) 0 = Some (Some (1, 63))"
proof -
  let ?s = "init_virtual_map x86_ov base addr s"
  have "slot_scan x86_ov ?s 0 = slot_scan x86_ov ?s 1"
    using slot_scan_skip [of 0 ?s x86_ov] by (simp add: init_virtual_map_def word0_full)
  also have "\<dots> = Some (Some (1, 63))"
    using slot_scan_hit [of 1 ?s x86_ov 63] assms
    by (simp add: init_virtual_map_def first_clear_zero INT64_MAX_def)
  finally show ?thesis .
qed

text \<open>With the shift of an x86 processor the map can be given one node beyond the first and no
  more: marking a node with bit 63 makes its whole word full for the scan, and each of the two
  words is taken that way.\<close>

theorem virt_one_node:
  assumes "free_bitmap s 1 = 0"
    and "insert_entry x86_ov r f n (init_virtual_map x86_ov base addr s) = Some (rc, s1)"
  shows "rc = rc_ok \<and> insert_entry x86_ov r' f' n' s1 = Some (rc_fail, s1)"
proof -
  let ?s = "init_virtual_map x86_ov base addr s"
  from insert_entry_bits [OF slot_scan_init [OF assms(1)] assms(2)]
  have rc: "rc = rc_ok" and len: "free_bitmap_length s1 = 2"
    and bits: "free_bitmap s1 0 = free_bitmap s 0 OR c_one_shl x86_ov 63"
      "free_bitmap s1 1 = 0 OR c_one_shl x86_ov 63"
    using assms(1) by (simp_all add: init_virtual_map_def)
  have "slot_scan x86_ov s1 0 = slot_scan x86_ov s1 1"
    using slot_scan_skip [of 0 s1 x86_ov] bits(1) len by (simp add: word0_full)
  also have "\<dots> = slot_scan x86_ov s1 2"
    using slot_scan_skip [of 1 s1 x86_ov] bits(2) word0_full [of 0] len by simp
  also have "\<dots> = Some None"
    using slot_scan_end [of 2 s1] len by simp
  finally have "slot_scan x86_ov s1 0 = Some None" .
  then show ?thesis using rc by (simp add: insert_entry_def)
qed

section \<open>Witnesses\<close>

text \<open>A map with two regions, \<open>[0x1000, 0x2000)\<close> and \<open>[0x4000, 0x5000)\<close>.\<close>

definition two_map :: virtual_map where
  "two_map = \<lparr>virtual_address_map = (\<lambda>i. if i = 0
       then \<lparr>next_entry = Some 1, region_length = 0x1000, base_pointer = 0x1000\<rparr>
       else \<lparr>next_entry = None, region_length = 0x1000, base_pointer = 0x4000\<rparr>),
     map_first = Some 0, free_bitmap = (\<lambda>i. if i = 0 then 3 else 0), free_bitmap_length = 2\<rparr>"

definition two_regions :: "vregion list" where
  "two_regions = [(0, 0x1000, 0x1000), (1, 0x4000, 0x1000)]"

lemma two_map_ok: "vm_ok x86_ov two_map two_regions"
proof -
  have "chain two_map two_regions" by (simp add: chain_def two_map_def two_regions_def)
  moreover have "placed two_regions"
    by (simp add: placed_def region_ok_def rstart_def rend_def two_regions_def)
  moreover have "\<forall>x \<in> set two_regions. node_marked x86_ov two_map (fst x)"
    by (simp add: node_marked_def two_map_def c_one_shl_def int_to_u64_def INT64_MAX_def two_regions_def)
  ultimately show ?thesis by (simp add: vm_ok_def two_regions_def)
qed

lemma two_map_available: "node_available x86_ov two_map"
proof -
  have "slot_free x86_ov (vwords two_map) 1 63"
    by (simp add: slot_free_def vwords_def two_map_def INT64_MAX_def)
  then show ?thesis by (auto simp: node_available_def two_map_def)
qed

lemma two_allocated: "allocated two_regions = {0x1000..<0x2000} \<union> {0x4000..<0x5000}"
  by (simp add: allocated_def rstart_def rend_def two_regions_def)

lemma two_starts: "rstart (hd two_regions) = 0x1000" "rstart ` set (tl two_regions) = {0x4000}"
  by (simp_all add: rstart_def two_regions_def)

lemma two_ends: "x \<in> set two_regions \<Longrightarrow> rend x \<le> 0x5000"
  by (auto simp: rend_def two_regions_def)


theorem virt_alloc_at_busy_witness: "page_virtual_alloc_at x86_ov two_map 0x1800 = Some (rc_busy, two_map)"
  using virt_alloc_at_busy [OF two_map_ok, of "0x1800"] by (simp add: two_allocated two_starts)



theorem virt_alloc_multiple_ok_witness:
  "\<exists>rc s'. page_virtual_alloc_multiple x86_ov two_map 0 1 = Some (rc, 0, s')"
  using virt_alloc_multiple_ok [OF two_map_ok [unfolded two_regions_def], of 1 0] by (auto simp: rend_def)

theorem virt_multiple_at_null_witness: "page_virtual_alloc_multiple_at x86_ov two_map 0x9000 2 = None"
proof -
  have "\<forall>x \<in> set two_regions. rend x \<le> unat (0x9000 :: u64)" using two_ends by fastforce
  then show ?thesis
    using virt_multiple_at_null [OF two_map_ok, of 2 "0x9000"] by (simp add: two_starts)
qed

theorem virt_alloc_overlap_witness:
  "\<exists>s' s''. page_virtual_alloc x86_ov (init_virtual_map x86_ov 0x1000 0x2000 two_map) = Some (rc_ok, 0x3000, s') \<and>
     page_virtual_alloc x86_ov s' = Some (rc_ok, 0x3001, s'')"
  using virt_alloc_overlap [of "init_virtual_map x86_ov 0x1000 0x2000 two_map" 0 x86_ov]
  by (simp add: init_virtual_map_def region_end_def)

theorem virt_later_base_witness: "page_virtual_free x86_ov two_map 0x4000 = Some (rc_fail, two_map)"
  using virt_later_base [OF two_map_ok two_map_available, of 1 "0x4000" "0x1000"] by (simp add: two_regions_def)

theorem virt_init_ok_witness:
  "allocated [(0, 0x1000, 0x2000 + PAGE - 0x1000)] = {0x1000..<0x3000}"
  using virt_init_ok [of "0x1000" "0x2000" two_map] by simp

theorem virt_one_node_witness:
  "\<exists>s1. insert_entry x86_ov First 0x9000 0x1000 (init_virtual_map x86_ov 0x1000 0x2000 two_map) = Some (rc_ok, s1) \<and>
     insert_entry x86_ov First 0xB000 0x1000 s1 = Some (rc_fail, s1)"
proof -
  let ?s = "init_virtual_map x86_ov 0x1000 0x2000 two_map"
  have z: "free_bitmap two_map 1 = 0" by (simp add: two_map_def)
  obtain rc s1 where i: "insert_entry x86_ov First 0x9000 0x1000 ?s = Some (rc, s1)"
    using slot_scan_init [OF z, of "0x1000" "0x2000"]
    by (auto simp: insert_entry_def Let_def init_virtual_map_def set_node_def)
  show ?thesis using virt_one_node [OF z i, of First "0xB000" "0x1000"] i by blast
qed
end
