(* ===== verification/Page_Tables.thy ===== *)
theory Page_Tables
  imports Phys_Alloc
begin

text \<open>
  The page mapper: \<open>kernel/arch/x86_64/paging.c\<close> and the masks of \<open>kernel/memory.h\<close>.

  Memory is the physical memory, one 64-bit word per entry. The kernel reaches it through the
  translation \<open>tr\<close> of the processor, which the loader has set up and which is a parameter:
  a table at physical address \<open>p\<close> is read at \<open>p + offset\<close>, a fresh frame at its own address.
  \<open>page_physical_alloc\<close> is a parameter as well: the tests of the repository replace it.
\<close>

section \<open>Addresses and entries\<close>

definition VA_GET_PML4_INDEX :: "u64 \<Rightarrow> u64" where
  "VA_GET_PML4_INDEX x = drop_bit 39 (x AND 0x0000ff8000000000)"

definition VA_GET_PDP_INDEX :: "u64 \<Rightarrow> u64" where
  "VA_GET_PDP_INDEX x = drop_bit 30 (x AND 0x0000007fc0000000)"

definition VA_GET_PD_INDEX :: "u64 \<Rightarrow> u64" where
  "VA_GET_PD_INDEX x = drop_bit 21 (x AND 0x000000003fe00000)"

definition VA_GET_PT_INDEX :: "u64 \<Rightarrow> u64" where
  "VA_GET_PT_INDEX x = drop_bit 12 (x AND 0x00000000001ff000)"

definition OFFSETS_TO_ADDR :: "u64 \<Rightarrow> u64 \<Rightarrow> u64 \<Rightarrow> u64 \<Rightarrow> u64" where
  "OFFSETS_TO_ADDR pml4 pdp pd pt =
     push_bit 48 (if pml4 AND 0x100 \<noteq> 0 then 0xffff else 0) OR push_bit 39 pml4 OR
     push_bit 30 pdp OR push_bit 21 pd OR push_bit 12 pt"

definition PRESENT_FLAG :: u64 where "PRESENT_FLAG = 1"
definition WRITABLE_FLAG :: u64 where "WRITABLE_FLAG = 2"
definition USER_ACCESS_FLAG :: u64 where "USER_ACCESS_FLAG = 4"
definition PAGE_SIZE_FLAG :: u64 where "PAGE_SIZE_FLAG = 0x80"

definition NEW_ENTRY :: u64 where
  "NEW_ENTRY = PRESENT_FLAG OR WRITABLE_FLAG OR USER_ACCESS_FLAG"

section \<open>The state\<close>

text \<open>\<open>frames\<close> is the state of the allocator, \<open>cr3\<close> the register.\<close>

record 's paging =
  memory :: "u64 \<Rightarrow> u64"
  current_pml4 :: u64
  offset :: u64
  frames :: 's
  cr3 :: u64

type_synonym 's allocator = "'s \<Rightarrow> u64 \<Rightarrow> (rc \<times> u64 \<times> 's) option"

text \<open>The entry \<open>table[i]\<close> of a table pointer, read and written through the translation.\<close>

definition entry_addr :: "u64 \<Rightarrow> u64 \<Rightarrow> u64" where
  "entry_addr table i = table + 8 * i"

definition read_entry :: "(u64 \<Rightarrow> u64) \<Rightarrow> u64 \<Rightarrow> u64 \<Rightarrow> 's paging \<Rightarrow> u64" where
  "read_entry tr table i st = memory st (tr (entry_addr table i))"

definition write_entry :: "(u64 \<Rightarrow> u64) \<Rightarrow> u64 \<Rightarrow> u64 \<Rightarrow> u64 \<Rightarrow> 's paging \<Rightarrow> 's paging" where
  "write_entry tr table i v st = st\<lparr>memory := (memory st)(tr (entry_addr table i) := v)\<rparr>"

definition page_mapper_init :: "u64 \<Rightarrow> u64 \<Rightarrow> 's paging \<Rightarrow> rc \<times> 's paging" where
  "page_mapper_init memory_offset pml4 st = (rc_ok, st\<lparr>current_pml4 := pml4, offset := memory_offset\<rparr>)"

section \<open>Mapping\<close>

text \<open>The loop \<open>next_page[i] = 0\<close>.\<close>

definition clear_page :: "(u64 \<Rightarrow> u64) \<Rightarrow> u64 \<Rightarrow> 's paging \<Rightarrow> 's paging" where
  "clear_page tr next_page st =
     fold (\<lambda>i. write_entry tr next_page (of_nat i) 0) [0..<0x200] st"

text \<open>
  One level of \<open>page_map\<close>: if the entry is not present, a fresh page is cleared and linked. The
  code is -1 when the allocator fails. \<open>next_page\<close> is not initialised before the call; its value
  is \<open>0\<close> here and is used only when the allocator has set it.
\<close>

definition ensure_table ::
    "'s allocator \<Rightarrow> (u64 \<Rightarrow> u64) \<Rightarrow> u64 \<Rightarrow> u64 \<Rightarrow> 's paging \<Rightarrow> (rc \<times> 's paging) option" where
  "ensure_table alloc tr table i st =
     (if read_entry tr table i st AND PRESENT_FLAG = 0
      then do {
        (r, next_page, fs) \<leftarrow> alloc (frames st) 0;
        let st = st\<lparr>frames := fs\<rparr>;
        (if r = rc_fail then Some (rc_fail, st)
         else
           let st = clear_page tr next_page st;
               st = write_entry tr table i NEW_ENTRY st
           in Some (rc_ok, write_entry tr table i (read_entry tr table i st OR next_page) st)) }
      else Some (rc_ok, st))"

text \<open>The pointer to the next table: \<open>(table[i] & ADDR_MASK) + offset\<close>.\<close>

definition next_table :: "(u64 \<Rightarrow> u64) \<Rightarrow> u64 \<Rightarrow> u64 \<Rightarrow> 's paging \<Rightarrow> u64" where
  "next_table tr table i st = (read_entry tr table i st AND ADDR_MASK) + offset st"

text \<open>The last level: map the frame, or report that the page is mapped already.\<close>

definition set_leaf ::
    "(u64 \<Rightarrow> u64) \<Rightarrow> u64 \<Rightarrow> u64 \<Rightarrow> u64 \<Rightarrow> 's paging \<Rightarrow> rc \<times> 's paging" where
  "set_leaf tr table i phys_addr st =
     (if read_entry tr table i st AND PRESENT_FLAG = 0
      then
        let st = write_entry tr table i NEW_ENTRY st
        in (rc_ok, write_entry tr table i (read_entry tr table i st OR (phys_addr AND ADDR_MASK)) st)
      else (rc_busy, st))"

definition page_map ::
    "'s allocator \<Rightarrow> (u64 \<Rightarrow> u64) \<Rightarrow> u64 \<Rightarrow> u64 \<Rightarrow> 's paging \<Rightarrow> (rc \<times> 's paging) option" where
  "page_map alloc tr va_addr phys_addr st =
     (let pml4_index = VA_GET_PML4_INDEX va_addr;
          pdp_index = VA_GET_PDP_INDEX va_addr;
          pd_index = VA_GET_PD_INDEX va_addr;
          pt_index = VA_GET_PT_INDEX va_addr;
          pml4_pointer = current_pml4 st + offset st
      in do {
        (r, st) \<leftarrow> ensure_table alloc tr pml4_pointer pml4_index st;
        (if r = rc_fail then Some (rc_fail, st) else do {
        let pdp_pointer = next_table tr pml4_pointer pml4_index st;
        (r, st) \<leftarrow> ensure_table alloc tr pdp_pointer pdp_index st;
        (if r = rc_fail then Some (rc_fail, st) else do {
        let pd_pointer = next_table tr pdp_pointer pdp_index st;
        (r, st) \<leftarrow> ensure_table alloc tr pd_pointer pd_index st;
        (if r = rc_fail then Some (rc_fail, st) else
          Some (set_leaf tr (next_table tr pd_pointer pd_index st) pt_index phys_addr st)) }) }) })"

definition page_map_in_table ::
    "'s allocator \<Rightarrow> (u64 \<Rightarrow> u64) \<Rightarrow> u64 \<Rightarrow> u64 \<Rightarrow> u64 \<Rightarrow> 's paging \<Rightarrow> (rc \<times> 's paging) option" where
  "page_map_in_table alloc tr pml4 va_addr phys_addr st =
     do { (r, st') \<leftarrow> page_map alloc tr va_addr phys_addr (st\<lparr>current_pml4 := pml4\<rparr>);
       Some (r, st'\<lparr>current_pml4 := current_pml4 st\<rparr>) }"

text \<open>
  \<open>va_addr + index << 12\<close>: \<open>+\<close> binds tighter than \<open><<\<close> in C. The result is \<open>index + 1\<close> at the
  first call that does not return 0.
\<close>

fun page_map_multiple_loop ::
    "'s allocator \<Rightarrow> (u64 \<Rightarrow> u64) \<Rightarrow> u64 \<Rightarrow> (nat \<Rightarrow> u64) \<Rightarrow> nat list \<Rightarrow> 's paging \<Rightarrow> (u64 \<times> 's paging) option" where
  "page_map_multiple_loop alloc tr va_addr phys_addr [] st = Some (0, st)"
| "page_map_multiple_loop alloc tr va_addr phys_addr (index # is) st =
     do { (r, st) \<leftarrow> page_map alloc tr (push_bit 12 (va_addr + of_nat index)) (phys_addr index) st;
       (if r \<noteq> 0 then Some (of_nat index + 1, st)
        else page_map_multiple_loop alloc tr va_addr phys_addr is st) }"

definition page_map_multiple ::
    "'s allocator \<Rightarrow> (u64 \<Rightarrow> u64) \<Rightarrow> u64 \<Rightarrow> u64 \<Rightarrow> (nat \<Rightarrow> u64) \<Rightarrow> 's paging \<Rightarrow> (u64 \<times> 's paging) option" where
  "page_map_multiple alloc tr count va_addr phys_addr st =
     page_map_multiple_loop alloc tr va_addr phys_addr [0..<unat count] st"

section \<open>Unmapping and switching\<close>

text \<open>
  \<open>page_unmap\<close>: the tables are followed without a test of their entries, the first one without
  the offset; \<open>*physical_address\<close> is never assigned, and the path that unmaps has no \<open>return\<close>
  (result code \<open>None\<close>).
\<close>

definition page_unmap ::
    "(u64 \<Rightarrow> u64) \<Rightarrow> u64 \<Rightarrow> u64 \<Rightarrow> 's paging \<Rightarrow> rc option \<times> u64 \<times> 's paging" where
  "page_unmap tr virtual_address physical_address st =
     (if offset st \<le> virtual_address \<and> virtual_address \<le> 0x0000FF8000000000
      then (Some rc_fail, physical_address, st)
      else
        let l3 = next_table tr (current_pml4 st) (VA_GET_PML4_INDEX virtual_address) st;
            l2 = next_table tr l3 (VA_GET_PDP_INDEX virtual_address) st;
            l1 = next_table tr l2 (VA_GET_PD_INDEX virtual_address) st;
            i = VA_GET_PT_INDEX virtual_address
        in (None, physical_address,
            write_entry tr l1 i (read_entry tr l1 i st AND NOT PRESENT_FLAG) st))"

definition page_map_set :: "u64 \<Rightarrow> 's paging \<Rightarrow> rc \<times> 's paging" where
  "page_map_set pml4_pointer st =
     (rc_ok, st\<lparr>current_pml4 := pml4_pointer,
        cr3 := (cr3 st AND NOT ADDR_MASK) OR (pml4_pointer AND ADDR_MASK)\<rparr>)"

end
