(* ===== verification/Page_Walk.thy ===== *)
theory Page_Walk
  imports Page_Tables
begin

text \<open>
  What the page tables mean: the walk of the processor, and the effect on every walk of the two
  stores of the mapper, linking a fresh table and writing a leaf. The tables form a tree: no table
  is reached by two paths.
\<close>

section \<open>The walk\<close>

text \<open>
  From the table at physical address \<open>p\<close>, one index per level. A path of four indices ends at the
  page frame.
\<close>

fun walk_from :: "(u64 \<Rightarrow> u64) \<Rightarrow> u64 \<Rightarrow> u64 list \<Rightarrow> u64 option" where
  "walk_from m p [] = Some p"
| "walk_from m p (i # is) =
     (if m (p + 8 * i) AND PRESENT_FLAG = 0 then None
      else walk_from m (m (p + 8 * i) AND ADDR_MASK) is)"

definition va_path :: "u64 \<Rightarrow> u64 list" where
  "va_path va = [VA_GET_PML4_INDEX va, VA_GET_PDP_INDEX va, VA_GET_PD_INDEX va, VA_GET_PT_INDEX va]"

definition valid_path :: "u64 list \<Rightarrow> bool" where
  "valid_path is \<longleftrightarrow> (\<forall>i \<in> set is. i < 512)"

definition is_page :: "u64 \<Rightarrow> bool" where
  "is_page p \<longleftrightarrow> p AND ADDR_MASK = p"

text \<open>The tables: what paths of at most three indices reach.\<close>

definition tables :: "(u64 \<Rightarrow> u64) \<Rightarrow> u64 \<Rightarrow> u64 set" where
  "tables m root = {p. \<exists>is. length is \<le> 3 \<and> valid_path is \<and> walk_from m root is = Some p}"

definition tree :: "(u64 \<Rightarrow> u64) \<Rightarrow> u64 \<Rightarrow> bool" where
  "tree m root \<longleftrightarrow> is_page root \<and>
     (\<forall>is js p. length is \<le> 3 \<longrightarrow> length js \<le> 3 \<longrightarrow> valid_path is \<longrightarrow> valid_path js \<longrightarrow>
        walk_from m root is = Some p \<longrightarrow> walk_from m root js = Some p \<longrightarrow> is = js)"

lemma valid_path_simps [simp]:
  "valid_path []" "valid_path (i # is) \<longleftrightarrow> i < 512 \<and> valid_path is"
  "valid_path (is @ js) \<longleftrightarrow> valid_path is \<and> valid_path js"
  by (auto simp: valid_path_def)

lemma walk_append:
  "walk_from m p (is @ js) = Option.bind (walk_from m p is) (\<lambda>q. walk_from m q js)"
  by (induction "is" arbitrary: p) auto

lemma is_page_mask [simp]: "is_page (w AND ADDR_MASK)"
  by (simp add: is_page_def and.assoc)

lemma walk_page: "is_page p \<Longrightarrow> walk_from m p is = Some q \<Longrightarrow> is_page q"
proof (induction "is" arbitrary: p)
  case (Cons i "is")
  then show ?case
    using Cons.IH [OF is_page_mask, of "m (p + 8 * i)"] by (simp split: if_splits)
qed simp

lemma tablesI: "walk_from m root is = Some p \<Longrightarrow> length is \<le> 3 \<Longrightarrow> valid_path is \<Longrightarrow> p \<in> tables m root"
  by (auto simp: tables_def)

lemma tables_page: "tree m root \<Longrightarrow> p \<in> tables m root \<Longrightarrow> is_page p"
  by (auto simp: tables_def tree_def intro: walk_page)

lemma root_in_tables: "root \<in> tables m root"
  by (auto simp: tables_def intro!: exI [of _ "[]"])

lemma bit_ADDR_MASK: "bit ADDR_MASK n \<longleftrightarrow> 12 \<le> n \<and> n < 52"
proof -
  have e: "ADDR_MASK = push_bit 12 (mask 40)"
    by (simp add: ADDR_MASK_def mask_eq_exp_minus_1 push_bit_eq_mult)
  show ?thesis unfolding e by (auto simp: bit_simps)
qed

lemma is_page_bounds: "is_page p \<Longrightarrow> 4096 dvd unat p \<and> unat p < 2 ^ 52"
proof
  assume p: "is_page p"
  have b: "bit p n \<Longrightarrow> 12 \<le> n \<and> n < 52" for n
    using p by (metis is_page_def bit_and_iff bit_ADDR_MASK)
  have "take_bit 12 p = 0" using b by (intro bit_word_eqI) (auto simp: bit_simps dest: b)
  then have "take_bit 12 (unat p) = 0" by (metis unsigned_take_bit_eq unsigned_0)
  then show "4096 dvd unat p" by (simp add: take_bit_eq_mod dvd_eq_mod_eq_0)
  have "take_bit 52 p = p" by (intro bit_word_eqI) (auto simp: bit_simps dest: b)
  then have "take_bit 52 (unat p) = unat p" by (metis unsigned_take_bit_eq)
  then show "unat p < 2 ^ 52" by (metis take_bit_nat_less_exp)
qed

lemma entry_unat: "is_page p \<Longrightarrow> i < 512 \<Longrightarrow> unat (p + 8 * i) = unat p + 8 * unat i"
proof -
  assume p: "is_page p" and "i < 512"
  then have i: "unat i < 512" by (simp add: word_less_nat_alt)
  then have "unat (8 * i) = 8 * unat i" by (simp add: unat_word_ariths)
  then show ?thesis
    using is_page_bounds [OF p] i by (subst unat_add_no_wrap) simp_all
qed

text \<open>An entry determines its table and its index.\<close>

lemma entry_inj:
  assumes "is_page p" "is_page q" "i < 512" "j < 512" and eq: "p + 8 * i = q + 8 * j"
  shows "p = q \<and> i = j"
proof -
  have u: "unat p + 8 * unat i = unat q + 8 * unat j"
    using entry_unat [OF assms(1,3)] entry_unat [OF assms(2,4)] eq by simp
  obtain a where a: "unat p = 4096 * a" using is_page_bounds [OF assms(1)] by (auto elim: dvdE)
  obtain b where b: "unat q = 4096 * b" using is_page_bounds [OF assms(2)] by (auto elim: dvdE)
  have i: "unat i < 512" "unat j < 512" using assms(3,4) by (simp_all add: word_less_nat_alt)
  have "a = (4096 * a + 8 * unat i) div 4096" "b = (4096 * b + 8 * unat j) div 4096"
    using i by simp_all
  then have "a = b" using u a b by simp
  then show ?thesis using u a b by (simp add: word_unat_eq_iff)
qed

lemma va_index_take_bit:
  "VA_GET_PML4_INDEX x = take_bit 9 (drop_bit 39 x)"
  "VA_GET_PDP_INDEX x = take_bit 9 (drop_bit 30 x)"
  "VA_GET_PD_INDEX x = take_bit 9 (drop_bit 21 x)"
  "VA_GET_PT_INDEX x = take_bit 9 (drop_bit 12 x)"
proof -
  have m: "drop_bit n (x AND push_bit n (mask 9)) = take_bit 9 (drop_bit n x)" for n
    by (rule bit_word_eqI) (auto simp: bit_simps ac_simps dest: bit_imp_le_length)
  have "0x0000ff8000000000 = push_bit 39 (mask 9 :: u64)" "0x0000007fc0000000 = push_bit 30 (mask 9 :: u64)"
    "0x000000003fe00000 = push_bit 21 (mask 9 :: u64)" "0x00000000001ff000 = push_bit 12 (mask 9 :: u64)"
    by (simp_all add: mask_eq_exp_minus_1 push_bit_eq_mult)
  then show "VA_GET_PML4_INDEX x = take_bit 9 (drop_bit 39 x)"
    "VA_GET_PDP_INDEX x = take_bit 9 (drop_bit 30 x)"
    "VA_GET_PD_INDEX x = take_bit 9 (drop_bit 21 x)"
    "VA_GET_PT_INDEX x = take_bit 9 (drop_bit 12 x)"
    by (simp_all only: VA_GET_PML4_INDEX_def VA_GET_PDP_INDEX_def VA_GET_PD_INDEX_def
        VA_GET_PT_INDEX_def m)
qed

lemma va_index_bounds:
  "VA_GET_PML4_INDEX va < 512" "VA_GET_PDP_INDEX va < 512"
  "VA_GET_PD_INDEX va < 512" "VA_GET_PT_INDEX va < 512"
proof -
  have "take_bit 9 w < 512" for w :: u64
    using take_bit_nat_less_exp [of 9 "unat w"]
    by (simp add: word_less_nat_alt unsigned_take_bit_eq del: take_bit_nat_less_exp)
  then show "VA_GET_PML4_INDEX va < 512" "VA_GET_PDP_INDEX va < 512"
    "VA_GET_PD_INDEX va < 512" "VA_GET_PT_INDEX va < 512"
    by (simp_all only: va_index_take_bit)
qed

section \<open>Stores that leave walks alone\<close>

lemma walk_cong [frame_rules]:
  "(\<And>ks k rest q. js = ks @ k # rest \<Longrightarrow> walk_from m p ks = Some q \<Longrightarrow> m' (q + 8 * k) = m (q + 8 * k)) \<Longrightarrow>
    walk_from m' p js = walk_from m p js"
proof (induction js arbitrary: p)
  case (Cons j js)
  have e: "m' (p + 8 * j) = m (p + 8 * j)" by (rule Cons.prems [of "[]"]) simp_all
  show ?case
  proof (cases "m (p + 8 * j) AND PRESENT_FLAG = 0")
    case False
    have "walk_from m' (m (p + 8 * j) AND ADDR_MASK) js = walk_from m (m (p + 8 * j) AND ADDR_MASK) js"
    proof (rule Cons.IH)
      fix ks k rest q
      assume "js = ks @ k # rest" "walk_from m (m (p + 8 * j) AND ADDR_MASK) ks = Some q"
      then show "m' (q + 8 * k) = m (q + 8 * k)"
        using False by (intro Cons.prems [of "j # ks"]) simp_all
    qed
    then show ?thesis by (simp add: e)
  qed (simp add: e)
qed simp

lemma walk_outside:
  assumes "tree m root" and "length js \<le> 4" "valid_path js"
    and "\<And>q k. q \<in> tables m root \<Longrightarrow> k < 512 \<Longrightarrow> m' (q + 8 * k) = m (q + 8 * k)"
  shows "walk_from m' root js = walk_from m root js"
proof (rule walk_cong)
  fix ks k rest q assume j: "js = ks @ k # rest" and w: "walk_from m root ks = Some q"
  then have "q \<in> tables m root" using assms(2,3) by (intro tablesI [OF w]) simp_all
  then show "m' (q + 8 * k) = m (q + 8 * k)" using assms(3) j by (intro assms(4)) simp_all
qed

lemma tree_cong:
  assumes "tree m root" and "\<And>js. length js \<le> 3 \<Longrightarrow> valid_path js \<Longrightarrow> walk_from m' root js = walk_from m root js"
  shows "tree m' root \<and> tables m' root = tables m root"
  using assms by (simp add: tree_def tables_def) (metis (no_types, lifting))

section \<open>The two stores of the mapper\<close>

text \<open>Writing an entry that was not present: only the walks through it change.\<close>

lemma write_entry_walk:
  assumes t: "tree m root" and p: "walk_from m root is = Some p" "length is \<le> 3" "valid_path is"
    and i: "i < 512" and js: "length js \<le> 4" "valid_path js"
    and out: "\<nexists>rest. js = is @ i # rest"
  shows "walk_from (m(p + 8 * i := e)) root js = walk_from m root js"
proof (rule walk_cong)
  fix ks k rest q assume j: "js = ks @ k # rest" and w: "walk_from m root ks = Some q"
  have ks: "length ks \<le> 3" "valid_path ks" "k < 512" using j js by simp_all
  have pages: "is_page p" "is_page q"
    using t p w walk_page by (auto simp: tree_def)
  show "(m(p + 8 * i := e)) (q + 8 * k) = m (q + 8 * k)"
  proof (cases "q + 8 * k = p + 8 * i")
    case True
    then have "q = p" "k = i" using entry_inj [OF pages(2,1) ks(3) i] by simp_all
    then have "ks = is" using t p w ks by (simp add: tree_def)
    with j \<open>k = i\<close> out show ?thesis by simp
  qed simp
qed

lemma write_entry_through:
  assumes t: "tree m root" and p: "walk_from m root is = Some p" "length is \<le> 3" "valid_path is"
    and i: "i < 512" and e: "e AND PRESENT_FLAG \<noteq> 0"
  shows "walk_from (m(p + 8 * i := e)) root (is @ i # rest) =
    walk_from (m(p + 8 * i := e)) (e AND ADDR_MASK) rest"
proof -
  have "walk_from (m(p + 8 * i := e)) root is = Some p"
    using write_entry_walk [OF t p i, of "is" e] p by simp
  then show ?thesis using e by (simp add: walk_append)
qed

text \<open>A leaf.\<close>

lemma set_leaf_walk:
  assumes t: "tree m root" and p: "walk_from m root is = Some p" "length is = 3" "valid_path is"
    and i: "i < 512" and e: "e AND PRESENT_FLAG \<noteq> 0"
  shows "tree (m(p + 8 * i := e)) root" "tables (m(p + 8 * i := e)) root = tables m root"
    "length js = 4 \<Longrightarrow> valid_path js \<Longrightarrow> walk_from (m(p + 8 * i := e)) root js =
      (if js = is @ [i] then Some (e AND ADDR_MASK) else walk_from m root js)"
proof -
  have p3: "length is \<le> 3" using p(2) by simp
  have "walk_from (m(p + 8 * i := e)) root js = walk_from m root js"
    if "length js \<le> 3" "valid_path js" for js
    using that p(2) by (intro write_entry_walk [OF t p(1) p3 p(3) i]) auto
  from tree_cong [OF t this]
  show "tree (m(p + 8 * i := e)) root" "tables (m(p + 8 * i := e)) root = tables m root" by auto
  assume js: "length js = 4" "valid_path js"
  show "walk_from (m(p + 8 * i := e)) root js =
      (if js = is @ [i] then Some (e AND ADDR_MASK) else walk_from m root js)"
  proof (cases "\<exists>rest. js = is @ i # rest")
    case True
    then have "js = is @ [i]" using js(1) p(2) by auto
    then show ?thesis using write_entry_through [OF t p(1) p3 p(3) i e, of "[]"] by simp
  next
    case False
    then have "walk_from (m(p + 8 * i := e)) root js = walk_from m root js"
      using js by (intro write_entry_walk [OF t p(1) p3 p(3) i]) simp_all
    then show ?thesis using False by auto
  qed
qed

text \<open>A fresh, empty table.\<close>

lemma link_table_walk:
  assumes t: "tree m root" and p: "walk_from m root is = Some p" "length is \<le> 2" "valid_path is"
    and i: "i < 512" and e: "e AND PRESENT_FLAG \<noteq> 0" "e AND ADDR_MASK = f"
    and absent: "m (p + 8 * i) AND PRESENT_FLAG = 0"
    and fresh: "f \<notin> tables m root" "\<And>k. k < 512 \<Longrightarrow> m (f + 8 * k) = 0"
  shows "tree (m(p + 8 * i := e)) root" "tables (m(p + 8 * i := e)) root \<subseteq> insert f (tables m root)"
    "walk_from (m(p + 8 * i := e)) root (is @ [i]) = Some f"
    "length js = 4 \<Longrightarrow> valid_path js \<Longrightarrow> walk_from (m(p + 8 * i := e)) root js = walk_from m root js"
proof -
  let ?m = "m(p + 8 * i := e)"
  have p3: "length is \<le> 3" using p(2) by simp
  have pt: "p \<in> tables m root" by (rule tablesI [OF p(1) p3 p(3)])
  have pf: "is_page p" "is_page f" using tables_page [OF t pt] e(2) is_page_mask [of e] by simp_all
  have f0: "?m (f + 8 * k) = 0" if "k < 512" for k
    using entry_inj [OF pf(2,1) that i] fresh that pt by auto
  have thru: "walk_from ?m root (is @ i # rest) = (if rest = [] then Some f else None)"
    if "valid_path rest" for rest
  proof (cases rest)
    case (Cons k ks)
    then have "?m (f + 8 * k) = 0" using that by (intro f0) simp
    then show ?thesis
      using write_entry_through [OF t p(1) p3 p(3) i e(1), of rest] e(2) Cons
      by (simp del: fun_upd_apply)
  qed (use write_entry_through [OF t p(1) p3 p(3) i e(1), of rest] e(2) in simp)
  have other: "walk_from ?m root js = walk_from m root js"
    if "length js \<le> 4" "valid_path js" "\<nexists>rest. js = is @ i # rest" for js
    using that by (intro write_entry_walk [OF t p(1) p3 p(3) i]) simp_all
  have new: "walk_from ?m root js = Some q \<Longrightarrow> length js \<le> 3 \<Longrightarrow> valid_path js \<Longrightarrow>
      js = is @ [i] \<and> q = f \<or> walk_from m root js = Some q \<and> q \<in> tables m root" for js q
  proof (cases "\<exists>rest. js = is @ i # rest")
    case True
    assume "walk_from ?m root js = Some q" "valid_path js"
    with True show ?thesis using thru by (auto split: if_splits)
  next
    case False
    assume "walk_from ?m root js = Some q" "valid_path js" "length js \<le> 3"
    with False show ?thesis using other [of js] by (auto simp: tables_def)
  qed
  show "tree ?m root"
    unfolding tree_def
  proof (intro conjI allI impI)
    show "is_page root" using t by (simp add: tree_def)
    fix ks js q
    assume "length ks \<le> 3" "length js \<le> 3" "valid_path ks" "valid_path js"
      "walk_from ?m root ks = Some q" "walk_from ?m root js = Some q"
    with new [of ks q] new [of js q] fresh(1) t show "ks = js"
      by (auto simp: tree_def)
  qed
  show "tables ?m root \<subseteq> insert f (tables m root)"
    using new by (fastforce simp: tables_def [of ?m])
  show "walk_from ?m root (is @ [i]) = Some f" using thru [of "[]"] by simp
  assume js: "length js = 4" "valid_path js"
  show "walk_from ?m root js = walk_from m root js"
  proof (cases "\<exists>rest. js = is @ i # rest")
    case True
    then obtain rest where r: "js = is @ i # rest" by blast
    then have "rest \<noteq> []" using js(1) p(2) by auto
    then have "walk_from ?m root js = None" using thru [of rest] js r by simp
    moreover have "walk_from m root js = None" using r p(1) absent by (simp add: walk_append)
    ultimately show ?thesis by simp
  next
    case False
    then show ?thesis using js by (intro other) simp_all
  qed
qed

text \<open>A page cleared and then linked.\<close>

definition zero_upto :: "nat \<Rightarrow> u64 \<Rightarrow> (u64 \<Rightarrow> u64) \<Rightarrow> u64 \<Rightarrow> u64" where
  "zero_upto n f m a = (if \<exists>k < n. a = f + 8 * of_nat k then 0 else m a)"

lemma zero_upto_Suc: "(zero_upto n f m)(f + 8 * of_nat n := 0) = zero_upto (Suc n) f m"
  by (auto simp: fun_eq_iff zero_upto_def less_Suc_eq)

lemma zero_upto_0: "zero_upto 0 f m = m"
  by (simp add: fun_eq_iff zero_upto_def)

lemma fresh_table_walk:
  assumes t: "tree m root" and w: "walk_from m root is = Some p" "length is \<le> 2" "valid_path is"
    and i: "i < 512" and e: "e AND PRESENT_FLAG \<noteq> 0" "e AND ADDR_MASK = f"
    and absent: "m (p + 8 * i) AND PRESENT_FLAG = 0"
    and fresh: "f \<notin> tables m root" and page: "is_page f"
  defines "m' \<equiv> (zero_upto 512 f m)(p + 8 * i := e)"
  shows "tree m' root" "tables m' root \<subseteq> insert f (tables m root)"
    "walk_from m' root (is @ [i]) = Some f"
    "length js = 4 \<Longrightarrow> valid_path js \<Longrightarrow> walk_from m' root js = walk_from m root js"
proof -
  define m1 where "m1 = zero_upto 512 f m"
  have p3: "length is \<le> 3" using w(2) by simp
  have pt: "p \<in> tables m root" by (rule tablesI [OF w(1) p3 w(3)])
  have m1_table: "m1 (q + 8 * k) = m (q + 8 * k)" if q: "q \<in> tables m root" and k: "k < 512" for q k
  proof -
    have "q + 8 * k \<noteq> f + 8 * of_nat n" if "n < 512" for n
    proof
      assume eq: "q + 8 * k = f + 8 * of_nat n"
      have "(of_nat n :: u64) < 512" using that by (simp add: word_less_nat_alt unat_of_nat_u64)
      with entry_inj [OF tables_page [OF t q] page k this eq] q fresh show False by simp
    qed
    then show ?thesis by (auto simp: m1_def zero_upto_def)
  qed
  have m1_f: "m1 (f + 8 * k) = 0" if "k < 512" for k
  proof -
    have "unat k < 512" "f + 8 * k = f + 8 * of_nat (unat k)" using that by (simp_all add: word_less_nat_alt)
    then show ?thesis unfolding m1_def zero_upto_def by (metis (mono_tags, lifting))
  qed
  have walk1: "walk_from m1 root js = walk_from m root js" if "length js \<le> 4" "valid_path js" for js
    using that m1_table by (intro walk_outside [OF t]) simp_all
  from tree_cong [OF t, of m1] walk1
  have t1: "tree m1 root" "tables m1 root = tables m root" by auto
  have w1: "walk_from m1 root is = Some p" using walk1 [of "is"] p3 w by simp
  have absent1: "m1 (p + 8 * i) AND PRESENT_FLAG = 0" using m1_table [OF pt i] absent by simp
  have fresh1: "f \<notin> tables m1 root" using fresh t1(2) by simp
  note link = link_table_walk [OF t1(1) w1 w(2,3) i e absent1 fresh1 m1_f, folded m1_def]
  have m': "m' = m1(p + 8 * i := e)" by (simp add: m'_def m1_def)
  show "tree m' root" unfolding m' by (rule link(1))
  show "walk_from m' root (is @ [i]) = Some f" unfolding m' by (rule link(3))
  show "tables m' root \<subseteq> insert f (tables m root)" unfolding m' using link(2) t1(2) by simp
  show "length js = 4 \<Longrightarrow> valid_path js \<Longrightarrow> walk_from m' root js = walk_from m root js"
    unfolding m' using link(4) walk1 by simp
qed

end
