(* ===== verification/Page_Props.thy ===== *)
theory Page_Props
  imports Page_Walk
begin

text \<open>
  The page mapper against the walk of the processor: \<open>page_map\<close> is proved correct for every frame
  allocator that keeps its contract, and then used with \<open>page_physical_alloc\<close>.
\<close>

section \<open>What the mapper relies on\<close>

text \<open>
  The translation of the processor, for the page frames \<open>A\<close> the mapper touches: a frame is reached
  both at its own address and at its address plus the offset.
\<close>

definition reached :: "(u64 \<Rightarrow> u64) \<Rightarrow> u64 \<Rightarrow> u64 set \<Rightarrow> bool" where
  "reached tr off A \<longleftrightarrow> (\<forall>p \<in> A. \<forall>i < 512.
     tr (entry_addr (p + off) i) = p + 8 * i \<and> tr (entry_addr p i) = p + 8 * i)"

text \<open>The tables form a tree, and no table is a frame the allocator may still hand out.\<close>

definition tables_inv :: "('s \<Rightarrow> u64 set) \<Rightarrow> ('s \<Rightarrow> bool) \<Rightarrow> u64 set \<Rightarrow> 's paging \<Rightarrow> bool" where
  "tables_inv free ok A st \<longleftrightarrow>
     ok (frames st) \<and> tree (memory st) (current_pml4 st) \<and>
     tables (memory st) (current_pml4 st) \<inter> free (frames st) = {} \<and>
     tables (memory st) (current_pml4 st) \<subseteq> A \<and> free (frames st) \<subseteq> A"

text \<open>The page frame a virtual address is mapped to.\<close>

definition lookup :: "'s paging \<Rightarrow> u64 list \<Rightarrow> u64 option" where
  "lookup st path = walk_from (memory st) (current_pml4 st) path"

definition same_regs :: "'s paging \<Rightarrow> 's paging \<Rightarrow> bool" where
  "same_regs st st' \<longleftrightarrow> current_pml4 st' = current_pml4 st \<and> offset st' = offset st \<and> cr3 st' = cr3 st"

definition same_pages :: "'s paging \<Rightarrow> 's paging \<Rightarrow> bool" where
  "same_pages st st' \<longleftrightarrow> (\<forall>js. length js = 4 \<longrightarrow> valid_path js \<longrightarrow> lookup st' js = lookup st js)"

lemma same_regs_refl [simp]: "same_regs st st" and same_pages_refl [simp]: "same_pages st st"
  by (simp_all add: same_regs_def same_pages_def)

lemma same_regs_trans: "same_regs a b \<Longrightarrow> same_regs b c \<Longrightarrow> same_regs a c"
  by (simp add: same_regs_def)

lemma same_pages_trans: "same_pages a b \<Longrightarrow> same_pages b c \<Longrightarrow> same_pages a c"
  by (simp add: same_pages_def)

section \<open>The stores of the mapper\<close>

lemma write_entry_simps [simp]:
  "current_pml4 (write_entry tr t i v st) = current_pml4 st"
  "offset (write_entry tr t i v st) = offset st"
  "frames (write_entry tr t i v st) = frames st"
  "cr3 (write_entry tr t i v st) = cr3 st"
  "memory (write_entry tr t i v st) = (memory st)(tr (entry_addr t i) := v)"
  by (simp_all add: write_entry_def)

lemma clear_page_upto:
  assumes "reached tr off A" "f \<in> A" "n \<le> 512"
  shows "fold (\<lambda>i. write_entry tr f (of_nat i) 0) [0..<n] st =
    st\<lparr>memory := zero_upto n f (memory st)\<rparr>"
  using assms(3)
proof (induction n)
  case (Suc n)
  have "(of_nat n :: u64) < 512" using Suc.prems by (simp add: word_less_nat_alt unat_of_nat_u64)
  then have "tr (entry_addr f (of_nat n)) = f + 8 * of_nat n"
    using assms(1,2) by (simp add: reached_def)
  then show ?case using Suc
    by (simp add: write_entry_def zero_upto_Suc)
qed (simp add: zero_upto_0)

lemma clear_page_eq:
  assumes "reached tr off A" "f \<in> A"
  shows "clear_page tr f st =
    st\<lparr>memory := zero_upto 512 f (memory st)\<rparr>"
  using clear_page_upto [OF assms, of 512] by (simp add: clear_page_def)

lemma NEW_ENTRY_bits:
  "(NEW_ENTRY OR w) AND PRESENT_FLAG \<noteq> 0" "(NEW_ENTRY OR (w AND ADDR_MASK)) AND ADDR_MASK = w AND ADDR_MASK"
proof -
  have n: "NEW_ENTRY = 7" by (simp add: NEW_ENTRY_def PRESENT_FLAG_def WRITABLE_FLAG_def USER_ACCESS_FLAG_def)
  have "bit ((NEW_ENTRY OR w) AND PRESENT_FLAG) 0"
    by (simp add: n PRESENT_FLAG_def bit_simps)
  then show "(NEW_ENTRY OR w) AND PRESENT_FLAG \<noteq> 0" by auto
  have "NEW_ENTRY AND ADDR_MASK = 0" by (simp add: n ADDR_MASK_def)
  then show "(NEW_ENTRY OR (w AND ADDR_MASK)) AND ADDR_MASK = w AND ADDR_MASK"
    by (simp add: bit.conj_disj_distrib2 and.assoc)
qed

section \<open>page_map, for any allocator that keeps its contract\<close>

context frame_allocator begin

text \<open>A frame of the allocator, cleared and linked into the tables.\<close>

lemma frame_linked:
  assumes inv: "tables_inv free_frames invar A st"
    and w: "walk_from (memory st) (current_pml4 st) is = Some p" "length is \<le> 2" "valid_path is" and i: "i < 512"
    and absent: "memory st (p + 8 * i) AND PRESENT_FLAG = 0" and a: "alloc (frames st) 0 = Some (rc_ok, f, fs)"
  defines "st' \<equiv> st\<lparr>frames := fs, memory := (zero_upto 512 f (memory st))(p + 8 * i := NEW_ENTRY OR f)\<rparr>"
  shows "f \<in> A" "(NEW_ENTRY OR f) AND ADDR_MASK = f" "tables_inv free_frames invar A st'" "same_pages st st'"
    "lookup st' (is @ [i]) = Some f"
proof -
  let ?m = "memory st" and ?root = "current_pml4 st"
  from inv have ia: "invar (frames st)" and t: "tree ?m ?root" and disj: "tables ?m ?root \<inter> free_frames (frames st) = {}"
    and sub: "tables ?m ?root \<subseteq> A" "free_frames (frames st) \<subseteq> A"
    by (simp_all add: tables_inv_def)
  from alloc_ok [OF ia a refl] have f: "f \<in> free_frames (frames st)" "free_frames fs \<subseteq> free_frames (frames st) - {f}" "invar fs" by auto
  show fA: "f \<in> A" using f(1) sub by auto
  have fp: "f AND ADDR_MASK = f" using frame_addr [OF ia f(1)] .
  then have page: "is_page f" by (simp add: is_page_def)
  have fresh: "f \<notin> tables ?m ?root" using f(1) disj by auto
  show e: "(NEW_ENTRY OR f) AND ADDR_MASK = f" using NEW_ENTRY_bits(2) [of f] fp by simp
  note link = fresh_table_walk [OF t w i NEW_ENTRY_bits(1) e absent fresh page]
  show "same_pages st st'" using link(4) by (simp add: same_pages_def lookup_def st'_def)
  have "tables ((zero_upto 512 f ?m)(p + 8 * i := NEW_ENTRY OR f)) ?root \<inter> free_frames fs = {}"
    using link(2) f(2) disj by blast
  then show "tables_inv free_frames invar A st'" using link(1,2) f sub fA by (auto simp: tables_inv_def st'_def)
  show "lookup st' (is @ [i]) = Some f" using link(3) by (simp add: lookup_def st'_def)
qed

lemma ensure_table_ok:
  assumes inv: "tables_inv free_frames invar A st" and tr: "reached tr (offset st) A"
    and p: "lookup st is = Some p" "length is \<le> 2" "valid_path is" and i: "i < 512"
  obtains r st' where "ensure_table alloc tr (p + offset st) i st = Some (r, st')"
    "tables_inv free_frames invar A st'" "same_regs st st'" "same_pages st st'"
    "r = rc_fail \<or> r = rc_ok \<and> (\<exists>q. lookup st' (is @ [i]) = Some q \<and>
       next_table tr (p + offset st) i st' = q + offset st)"
proof -
  let ?m = "memory st" and ?root = "current_pml4 st" and ?t = "p + offset st"
  from inv have ia: "invar (frames st)" and sub: "tables ?m ?root \<subseteq> A" by (simp_all add: tables_inv_def)
  have w: "walk_from ?m ?root is = Some p" using p(1) by (simp add: lookup_def)
  have p3: "length is \<le> 3" using p(2) by simp
  have pt: "p \<in> tables ?m ?root" by (rule tablesI [OF w p3 p(3)])
  then have loc: "tr (entry_addr ?t i) = p + 8 * i" using tr sub i by (auto simp: reached_def)
  show ?thesis
  proof (cases "read_entry tr ?t i st AND PRESENT_FLAG = 0")
    case False
    then have "ensure_table alloc tr ?t i st = Some (rc_ok, st)" by (simp add: ensure_table_def)
    moreover have "lookup st (is @ [i]) = Some (?m (p + 8 * i) AND ADDR_MASK)"
      using False w by (simp add: lookup_def walk_append read_entry_def loc)
    moreover have "next_table tr ?t i st = (?m (p + 8 * i) AND ADDR_MASK) + offset st"
      by (simp add: next_table_def read_entry_def loc)
    ultimately show ?thesis using that inv by auto
  next
    case True
    have absent: "?m (p + 8 * i) AND PRESENT_FLAG = 0" using True by (simp add: read_entry_def loc)
    obtain r f fs where a: "alloc (frames st) 0 = Some (r, f, fs)"
      using alloc_returns [OF ia, of 0] by auto
    show ?thesis
    proof (cases "r = rc_ok")
      case False
      then have "r = rc_fail" "fs = frames st" using alloc_fail [OF ia a] by auto
      then have "ensure_table alloc tr ?t i st = Some (rc_fail, st)"
        using True a by (simp add: ensure_table_def)
      then show ?thesis using that inv by auto
    next
      case ok: True
      define st' where "st' = st\<lparr>frames := fs, memory := (zero_upto 512 f ?m)(p + 8 * i := NEW_ENTRY OR f)\<rparr>"
      note linked = frame_linked [OF inv w p(2,3) i absent a [unfolded ok], folded st'_def]
      have "ensure_table alloc tr ?t i st = Some (rc_ok, st')"
        using True a ok clear_page_eq [OF tr linked(1), of "st\<lparr>frames := fs\<rparr>"]
        by (simp add: ensure_table_def read_entry_def loc st'_def write_entry_def)
      moreover have "next_table tr ?t i st' = f + offset st"
        using linked(2) by (simp add: next_table_def read_entry_def loc st'_def)
      ultimately show ?thesis using that linked(3-5) by (auto simp: same_regs_def st'_def)
    qed
  qed
qed

lemma set_leaf_ok:
  assumes inv: "tables_inv free_frames invar A st" and tr: "reached tr (offset st) A"
    and p: "lookup st is = Some p" "length is = 3" "valid_path is" and i: "i < 512"
  obtains r st' where "set_leaf tr (p + offset st) i pa st = (r, st')"
    "tables_inv free_frames invar A st'" "same_regs st st'"
    "r = rc_busy \<and> st' = st \<and> lookup st (is @ [i]) \<noteq> None \<or>
     r = rc_ok \<and> lookup st (is @ [i]) = None \<and> (\<forall>js. length js = 4 \<longrightarrow> valid_path js \<longrightarrow>
       lookup st' js = (if js = is @ [i] then Some (pa AND ADDR_MASK) else lookup st js))"
proof -
  let ?m = "memory st" and ?root = "current_pml4 st" and ?t = "p + offset st"
  from inv have t: "tree ?m ?root" and sub: "tables ?m ?root \<subseteq> A" by (simp_all add: tables_inv_def)
  have w: "walk_from ?m ?root is = Some p" using p(1) by (simp add: lookup_def)
  have pt: "p \<in> tables ?m ?root" using p by (intro tablesI [OF w]) simp_all
  then have loc: "tr (entry_addr ?t i) = p + 8 * i" using tr sub i by (auto simp: reached_def)
  have l: "lookup st (is @ [i]) = (if ?m (p + 8 * i) AND PRESENT_FLAG = 0 then None
      else Some (?m (p + 8 * i) AND ADDR_MASK))"
    using w by (simp add: lookup_def walk_append)
  show ?thesis
  proof (cases "?m (p + 8 * i) AND PRESENT_FLAG = 0")
    case False
    then have "set_leaf tr ?t i pa st = (rc_busy, st)" by (simp add: set_leaf_def read_entry_def loc)
    then show ?thesis using that inv l False by auto
  next
    case True
    define e where "e = NEW_ENTRY OR (pa AND ADDR_MASK)"
    have e: "e AND PRESENT_FLAG \<noteq> 0" "e AND ADDR_MASK = pa AND ADDR_MASK"
      using NEW_ENTRY_bits(1) NEW_ENTRY_bits(2) [of pa] by (simp_all add: e_def)
    define st' where "st' = st\<lparr>memory := ?m(p + 8 * i := e)\<rparr>"
    have s: "set_leaf tr ?t i pa st = (rc_ok, st')"
      using True by (simp add: set_leaf_def read_entry_def loc st'_def e_def write_entry_def)
    note leaf = set_leaf_walk [OF t w p(2,3) i e(1)]
    have inv': "tables_inv free_frames invar A st'" using inv leaf(1,2) by (simp add: tables_inv_def st'_def)
    have "\<forall>js. length js = 4 \<longrightarrow> valid_path js \<longrightarrow>
        lookup st' js = (if js = is @ [i] then Some (pa AND ADDR_MASK) else lookup st js)"
      using leaf(3) e(2) by (simp add: lookup_def st'_def)
    then show ?thesis using that [OF s inv'] l True by (simp add: same_regs_def st'_def)
  qed
qed

text \<open>A state on the way down: the tables as at the start, and \<open>t\<close> points to the table at the end of the path.\<close>

definition at_table :: "u64 set \<Rightarrow> 'a paging \<Rightarrow> 'a paging \<Rightarrow> u64 list \<Rightarrow> u64 \<Rightarrow> bool" where
  "at_table A st s path t \<longleftrightarrow> tables_inv free_frames invar A s \<and> same_regs st s \<and> same_pages st s \<and>
     length path \<le> 3 \<and> valid_path path \<and> (\<exists>q. lookup s path = Some q \<and> t = q + offset s)"

lemma one_level_down:
  assumes at: "at_table A st s path t" and tr: "reached tr (offset st) A" and short: "length path \<le> 2" and i: "i < 512"
  obtains (fails) s' where "ensure_table alloc tr t i s = Some (rc_fail, s')" "tables_inv free_frames invar A s'" "same_regs st s'" "same_pages st s'"
    | (down) s' where "ensure_table alloc tr t i s = Some (rc_ok, s')" "at_table A st s' (path @ [i]) (next_table tr t i s')"
proof -
  from at obtain q where inv: "tables_inv free_frames invar A s" and q: "lookup s path = Some q" "t = q + offset s"
    and same: "same_regs st s" "same_pages st s" and v: "valid_path path"
    by (auto simp: at_table_def)
  have trs: "reached tr (offset s) A" using tr same(1) by (simp add: same_regs_def)
  obtain r s' where e: "ensure_table alloc tr t i s = Some (r, s')" "tables_inv free_frames invar A s'" "same_regs s s'" "same_pages s s'"
    "r = rc_fail \<or> r = rc_ok \<and> (\<exists>q. lookup s' (path @ [i]) = Some q \<and> next_table tr t i s' = q + offset s)"
    unfolding q(2) by (rule ensure_table_ok [OF inv trs q(1) short v i])
  have "same_regs st s'" "same_pages st s'" using same e(3,4) same_regs_trans same_pages_trans by blast+
  moreover have "offset s' = offset s" using e(3) by (simp add: same_regs_def)
  ultimately show ?thesis using that e short v i by (auto simp: at_table_def)
qed

text \<open>
  The specification of \<open>page_map\<close>: it returns; it keeps the invariant; success maps the page, which
  was not mapped, and no other page; "busy" means the page was mapped and nothing changes; a
  failure changes no mapping.
\<close>

lemma page_map_ok:
  assumes inv: "tables_inv free_frames invar A st" and tr: "reached tr (offset st) A"
  shows "\<exists>r st'. page_map alloc tr va pa st = Some (r, st') \<and>
    tables_inv free_frames invar A st' \<and> same_regs st st' \<and>
    (r = rc_ok \<and> lookup st (va_path va) = None \<and> (\<forall>js. length js = 4 \<longrightarrow> valid_path js \<longrightarrow>
       lookup st' js = (if js = va_path va then Some (pa AND ADDR_MASK) else lookup st js)) \<or>
     r = rc_busy \<and> lookup st (va_path va) \<noteq> None \<and> same_pages st st' \<or>
     r = rc_fail \<and> same_pages st st')"
proof -
  let ?i4 = "VA_GET_PML4_INDEX va" and ?i3 = "VA_GET_PDP_INDEX va"
    and ?i2 = "VA_GET_PD_INDEX va" and ?i1 = "VA_GET_PT_INDEX va"
  note bounds = va_index_bounds [of va]
  have short: "length ([] :: u64 list) \<le> 2" "length ([] @ [?i4]) \<le> 2" "length (([] @ [?i4]) @ [?i3]) \<le> 2" by simp_all
  have at0: "at_table A st st [] (current_pml4 st + offset st)" using inv by (simp add: at_table_def lookup_def same_regs_def same_pages_def)
  show ?thesis
  proof (cases rule: one_level_down [OF at0 tr short(1) bounds(1), case_names fails down])
    case (down s1)
    show ?thesis
    proof (cases rule: one_level_down [OF down(2) tr short(2) bounds(2), case_names fails down])
      case (down s2)
      note d1 = \<open>ensure_table alloc tr (current_pml4 st + offset st) ?i4 st = Some (rc_ok, s1)\<close> and d2 = down(1)
      show ?thesis
      proof (cases rule: one_level_down [OF down(2) tr short(3) bounds(3), case_names fails down])
        case (down s3)
        then obtain q where at: "tables_inv free_frames invar A s3" "same_regs st s3" "same_pages st s3" "lookup s3 [?i4, ?i3, ?i2] = Some q"
          and t: "next_table tr (next_table tr (next_table tr (current_pml4 st + offset st) ?i4 s1) ?i3 s2) ?i2 s3 = q + offset s3"
          by (auto simp: at_table_def)
        have tr3: "reached tr (offset s3) A" using tr at(2) by (simp add: same_regs_def)
        obtain r s4 where e: "set_leaf tr (q + offset s3) ?i1 pa s3 = (r, s4)" "tables_inv free_frames invar A s4" "same_regs s3 s4"
          "r = rc_busy \<and> s4 = s3 \<and> lookup s3 ([?i4, ?i3, ?i2] @ [?i1]) \<noteq> None \<or>
           r = rc_ok \<and> lookup s3 ([?i4, ?i3, ?i2] @ [?i1]) = None \<and> (\<forall>js. length js = 4 \<longrightarrow> valid_path js \<longrightarrow>
             lookup s4 js = (if js = [?i4, ?i3, ?i2] @ [?i1] then Some (pa AND ADDR_MASK) else lookup s3 js))"
          by (rule set_leaf_ok [OF at(1) tr3 at(4) _ _ bounds(4)]) (use bounds in auto)
        have p: "[?i4, ?i3, ?i2] @ [?i1] = va_path va" "length (va_path va) = 4" "valid_path (va_path va)"
          using bounds by (simp_all add: va_path_def)
        have "page_map alloc tr va pa st = Some (r, s4)" using d1 d2 down(1) e(1) by (simp add: page_map_def t)
        moreover have "same_regs st s4" using same_regs_trans [OF at(2) e(3)] .
        ultimately show ?thesis using e(2,4) at(3) p(2,3) unfolding p(1) by (auto simp: same_pages_def)
      qed (use d1 d2 in \<open>simp_all add: page_map_def\<close>)
    qed (use down(1) in \<open>simp_all add: page_map_def\<close>)
  qed (simp_all add: page_map_def)
qed

end

section \<open>Properties\<close>

text \<open>The kernel's state: the mapper over the bitmap allocator, with the shifts of an x86 processor.\<close>

abbreviation kernel_inv :: "u64 set \<Rightarrow> bitmap paging \<Rightarrow> bool" where
  "kernel_inv \<equiv> tables_inv (free_frames x86_ov) phys_inv_low"

abbreviation kernel_page_map ::
    "(u64 \<Rightarrow> u64) \<Rightarrow> u64 \<Rightarrow> u64 \<Rightarrow> bitmap paging \<Rightarrow> (rc \<times> bitmap paging) option" where
  "kernel_page_map \<equiv> page_map (page_physical_alloc x86_ov)"

text \<open>C4: \<open>page_map\<close> with \<open>page_physical_alloc\<close> always returns, keeps the page tables a tree whose
  tables are disjoint from the free frames, and: on success the page was unmapped, is now mapped
  to the frame, and no other page of the address space is mapped differently; the code 1 means the
  page was mapped already, and no mapping changes; on failure no mapping changes.\<close>

theorem page_map_correct:
  assumes "kernel_inv A st" and "reached tr (offset st) A"
  shows "\<exists>r st'. kernel_page_map tr va pa st = Some (r, st') \<and> kernel_inv A st' \<and> same_regs st st' \<and>
    (r = rc_ok \<and> lookup st (va_path va) = None \<and> (\<forall>js. length js = 4 \<longrightarrow> valid_path js \<longrightarrow>
       lookup st' js = (if js = va_path va then Some (pa AND ADDR_MASK) else lookup st js)) \<or>
     r = rc_busy \<and> lookup st (va_path va) \<noteq> None \<and> same_pages st st' \<or>
     r = rc_fail \<and> same_pages st st')"
  using x86_low.page_map_ok [OF assms] by blast

text \<open>A small machine: 64 free frames, then the empty top table at \<open>0x40000\<close>; memory is reached at
  its own address and again \<open>2^39\<close> higher.\<close>

definition small_machine :: "bitmap paging" where
  "small_machine = \<lparr>memory = (\<lambda>_. 0), current_pml4 = 0x40000, offset = 0x8000000000,
     frames = [0], cr3 = 0x40000\<rparr>"

definition small_tr :: "u64 \<Rightarrow> u64" where
  "small_tr a = (if a < 0x8000000000 then a else a - 0x8000000000)"

definition small_frames :: "u64 set" where
  "small_frames = {p. is_page p \<and> p < 0x44000}"

lemma small_reached: "reached small_tr 0x8000000000 small_frames"
proof -
  have "small_tr (p + 0x8000000000 + 8 * i) = p + 8 * i \<and> small_tr (p + 8 * i) = p + 8 * i"
    if p: "is_page p" "p < 0x44000" and i: "i < 512" for p i
  proof -
    have u: "unat (p + 8 * i) = unat p + 8 * unat i" by (rule entry_unat [OF p(1) i])
    moreover have "unat p < 0x44000" "unat i < 512" using p i by (simp_all add: word_less_nat_alt)
    ultimately have lt: "unat (p + 8 * i) < 0x8000000000" by simp
    then have "unat (0x8000000000 + (p + 8 * i)) = 0x8000000000 + unat (p + 8 * i)"
      by (subst unat_add_no_wrap) simp_all
    then have "\<not> 0x8000000000 + (p + 8 * i) < 0x8000000000" by (simp add: word_less_nat_alt)
    moreover have e: "p + 0x8000000000 + 8 * i = 0x8000000000 + (p + 8 * i)" by simp
    moreover have "p + 8 * i < 0x8000000000" using lt by (simp add: word_less_nat_alt)
    ultimately show ?thesis unfolding e by (simp add: small_tr_def)
  qed
  then show ?thesis by (simp add: reached_def small_frames_def entry_addr_def)
qed

lemma small_free_below: "f \<in> free_frames x86_ov [0] \<Longrightarrow> f < 0x40000"
proof -
  assume "f \<in> free_frames x86_ov [0]"
  then obtain off where off: "f = frame_of (of_nat 0) off" "off < 64"
    by (auto simp: free_frames_def slot_free_def)
  have "unat (of_nat (off * 4096) :: u64) = off * 4096" using off(2) by (intro unat_of_nat_u64) simp
  then have "unat f = off * 4096" using frame_of_low [of 0 off] off by simp
  then show "f < 0x40000" using off(2) by (simp add: word_less_nat_alt)
qed

lemma small_inv: "kernel_inv small_frames small_machine"
proof -
  have w: "walk_from (\<lambda>_. 0) p is = (if is = [] then Some p else None)" for p "is"
    by (cases "is") simp_all
  have r: "is_page 0x40000" by (simp add: is_page_def ADDR_MASK_def)
  have t: "tables (\<lambda>_. 0) 0x40000 = {0x40000}" by (auto simp: tables_def w)
  have inv: "phys_inv_low [0]" by (simp add: phys_inv_low_def)
  have f: "is_page f \<and> f < 0x40000" if fr: "f \<in> free_frames x86_ov [0]" for f
    using free_frames_addr [OF inv fr] small_free_below [OF fr] by (simp add: is_page_def)
  have "tree (\<lambda>_. 0) 0x40000" using r by (auto simp: tree_def w split: if_splits)
  moreover have "free_frames x86_ov [0] \<subseteq> small_frames"
  proof
    fix g assume "g \<in> free_frames x86_ov [0]"
    from f [OF this] show "g \<in> small_frames" by (simp add: small_frames_def word_less_nat_alt)
  qed
  moreover have "0x40000 \<notin> free_frames x86_ov [0]" using f [of "0x40000"] by auto
  ultimately show ?thesis
    using r inv by (simp add: tables_inv_def small_machine_def t small_frames_def)
qed

theorem page_map_correct_witness:
  "\<exists>r st'. kernel_page_map small_tr 0x1234000 0x5000 small_machine = Some (r, st') \<and> kernel_inv small_frames st'"
  using page_map_correct [OF small_inv, of small_tr "0x1234000" "0x5000"] small_reached
  by (auto simp: small_machine_def)

lemma page_map_in_table_core:
  assumes "kernel_inv A (st\<lparr>current_pml4 := pml4\<rparr>)" and "reached tr (offset st) A"
  shows "\<exists>r st'. page_map_in_table (page_physical_alloc x86_ov) tr pml4 va pa st = Some (r, st') \<and>
    same_regs st st' \<and> kernel_inv A (st'\<lparr>current_pml4 := pml4\<rparr>) \<and>
    (r = rc_ok \<longrightarrow> walk_from (memory st') pml4 (va_path va) = Some (pa AND ADDR_MASK))"
proof -
  have "reached tr (offset (st\<lparr>current_pml4 := pml4\<rparr>)) A" using assms(2) by simp
  from x86_low.page_map_ok [OF assms(1) this, of va pa] obtain r s' where
    s': "kernel_page_map tr va pa (st\<lparr>current_pml4 := pml4\<rparr>) = Some (r, s')" "kernel_inv A s'"
      "same_regs (st\<lparr>current_pml4 := pml4\<rparr>) s'"
    and ok: "r = rc_ok \<Longrightarrow> lookup s' (va_path va) = Some (pa AND ADDR_MASK)"
    using va_index_bounds [of va] by (auto simp: va_path_def)
  have p: "current_pml4 s' = pml4" using s'(3) by (simp add: same_regs_def)
  then have "s'\<lparr>current_pml4 := pml4\<rparr> = s'" by simp
  then show ?thesis
    using s' ok p by (auto simp: page_map_in_table_def same_regs_def lookup_def)
qed

text \<open>\<open>page_map_in_table\<close> maps the page in the tree it is given and puts the current tree back.\<close>

theorem page_map_in_table_ok:
  assumes "kernel_inv A (st\<lparr>current_pml4 := pml4\<rparr>)" and "reached tr (offset st) A"
  shows "\<exists>r st'. page_map_in_table (page_physical_alloc x86_ov) tr pml4 va pa st = Some (r, st') \<and>
    same_regs st st' \<and> kernel_inv A (st'\<lparr>current_pml4 := pml4\<rparr>) \<and>
    (r = rc_ok \<longrightarrow> walk_from (memory st') pml4 (va_path va) = Some (pa AND ADDR_MASK))"
  by (rule page_map_in_table_core [OF assms])

theorem page_map_in_table_ok_witness:
  "\<exists>r st'. page_map_in_table (page_physical_alloc x86_ov) small_tr 0x40000 0x1000 0x2000
     (small_machine\<lparr>current_pml4 := 0\<rparr>) = Some (r, st') \<and> current_pml4 st' = 0"
proof -
  have "small_machine\<lparr>current_pml4 := 0x40000\<rparr> = small_machine" by (simp add: small_machine_def)
  then show ?thesis
    using page_map_in_table_ok [of small_frames "0x40000" "small_machine\<lparr>current_pml4 := 0\<rparr>" small_tr "0x1000" "0x2000"]
      small_inv small_reached
    by (auto simp: same_regs_def small_machine_def)
qed

text \<open>\<open>page_map_multiple\<close> maps another page than it is asked to: \<open>va_addr + index << 12\<close> is
  \<open>(va_addr + index) << 12\<close>. Asked for one page at \<open>va\<close>, it leaves the mapping of \<open>va\<close> as it was,
  unless \<open>va\<close> and \<open>va << 12\<close> happen to be the same page.\<close>

theorem page_map_multiple_wrong_page:
  assumes "kernel_inv A st" and "reached tr (offset st) A" and "va_path (push_bit 12 va) \<noteq> va_path va"
  shows "\<exists>r st'. page_map_multiple (page_physical_alloc x86_ov) tr 1 va pas st = Some (r, st') \<and>
    lookup st' (va_path va) = lookup st (va_path va)"
proof -
  obtain r s' where s': "kernel_page_map tr (push_bit 12 va) (pas 0) st = Some (r, s')"
    and "lookup s' (va_path va) = lookup st (va_path va)"
    using x86_low.page_map_ok [OF assms(1,2), of "push_bit 12 va" "pas 0"] assms(3) va_index_bounds [of va]
    by (auto simp: va_path_def same_pages_def)
  moreover have "\<exists>r'. page_map_multiple (page_physical_alloc x86_ov) tr 1 va pas st = Some (r', s')"
    using s' by (cases "r = 0") (simp_all add: page_map_multiple_def)
  ultimately show ?thesis by blast
qed

theorem page_map_multiple_wrong_page_witness:
  "\<exists>r st'. page_map_multiple (page_physical_alloc x86_ov) small_tr 1 0x1000 (\<lambda>_. 0x2000) small_machine = Some (r, st') \<and>
    lookup st' (va_path 0x1000) = None"
proof -
  have "va_path (push_bit 12 0x1000) \<noteq> va_path 0x1000"
    by (simp add: va_path_def va_index_take_bit push_bit_eq_mult drop_bit_eq_div take_bit_eq_mod)
  moreover have "lookup small_machine (va_path 0x1000) = None"
    by (simp add: lookup_def va_path_def small_machine_def)
  ultimately show ?thesis
    using page_map_multiple_wrong_page [OF small_inv, of small_tr "0x1000" "\<lambda>_. 0x2000"] small_reached
    by (simp add: small_machine_def)
qed

text \<open>A leaf made absent.\<close>

lemma clear_leaf_walk:
  assumes t: "tree m root" and p: "walk_from m root is = Some p" "length is = 3" "valid_path is"
    and i: "i < 512" and e: "e AND PRESENT_FLAG = 0" and js: "length js = 4" "valid_path js"
  shows "walk_from (m(p + 8 * i := e)) root js = (if js = is @ [i] then None else walk_from m root js)"
proof -
  have p3: "length is \<le> 3" using p(2) by simp
  have w: "walk_from (m(p + 8 * i := e)) root is = Some p"
    using write_entry_walk [OF t p(1) p3 p(3) i, of "is" e] p by simp
  show ?thesis
  proof (cases "\<exists>rest. js = is @ i # rest")
    case True
    then have "js = is @ [i]" using js(1) p(2) by auto
    then show ?thesis using w e by (simp add: walk_append)
  next
    case False
    then have "walk_from (m(p + 8 * i := e)) root js = walk_from m root js"
      using js by (intro write_entry_walk [OF t p(1) p3 p(3) i]) simp_all
    then show ?thesis using False by auto
  qed
qed

lemma clear_leaf_tables:
  assumes t: "tree m root" and p: "walk_from m root is = Some p" "length is = 3" "valid_path is" and i: "i < 512"
  shows "tree (m(p + 8 * i := e)) root \<and> tables (m(p + 8 * i := e)) root = tables m root"
proof -
  have p3: "length is \<le> 3" using p(2) by simp
  have "walk_from (m(p + 8 * i := e)) root js = walk_from m root js" if "length js \<le> 3" "valid_path js" for js
    using that p(2) by (intro write_entry_walk [OF t p(1) p3 p(3) i]) auto
  from tree_cong [OF t this] show ?thesis by auto
qed

lemma page_unmap_core:
  assumes inv: "tables_inv free ok A st" and tr: "reached tr (offset st) A"
    and mapped: "lookup st (va_path va) = Some f" and range: "va < offset st \<or> 0x0000FF8000000000 < va"
  shows "\<exists>st'. page_unmap tr va phys0 st = (None, phys0, st') \<and> same_regs st st' \<and>
    frames st' = frames st \<and> tables_inv free ok A st' \<and>
    (\<forall>js. length js = 4 \<longrightarrow> valid_path js \<longrightarrow>
       lookup st' js = (if js = va_path va then None else lookup st js))"
proof -
  let ?m = "memory st" and ?root = "current_pml4 st"
  let ?i4 = "VA_GET_PML4_INDEX va" and ?i3 = "VA_GET_PDP_INDEX va"
    and ?i2 = "VA_GET_PD_INDEX va" and ?i1 = "VA_GET_PT_INDEX va"
  note b = va_index_bounds [of va]
  from inv have t: "tree ?m ?root" and sub: "tables ?m ?root \<subseteq> A" by (simp_all add: tables_inv_def)
  define p3 where "p3 = ?m (?root + 8 * ?i4) AND ADDR_MASK"
  define p2 where "p2 = ?m (p3 + 8 * ?i3) AND ADDR_MASK"
  define p1 where "p1 = ?m (p2 + 8 * ?i2) AND ADDR_MASK"
  have w: "walk_from ?m ?root [?i4] = Some p3" "walk_from ?m ?root [?i4, ?i3] = Some p2"
    "walk_from ?m ?root [?i4, ?i3, ?i2] = Some p1"
    using mapped by (auto simp: lookup_def va_path_def p1_def p2_def p3_def split: if_splits)
  have A: "?root \<in> A" "p3 \<in> A" "p2 \<in> A" "p1 \<in> A"
    using sub root_in_tables tablesI [OF w(1)] tablesI [OF w(2)] tablesI [OF w(3)] b by auto
  have n: "next_table tr ?root ?i4 st = p3 + offset st"
    "next_table tr (p3 + offset st) ?i3 st = p2 + offset st"
    "next_table tr (p2 + offset st) ?i2 st = p1 + offset st"
    using tr A b by (simp_all add: next_table_def read_entry_def reached_def p1_def p2_def p3_def)
  have loc: "tr (entry_addr (p1 + offset st) ?i1) = p1 + 8 * ?i1" using tr A b by (simp add: reached_def)
  define e where "e = ?m (p1 + 8 * ?i1) AND NOT PRESENT_FLAG"
  have e: "e AND PRESENT_FLAG = 0" by (simp add: e_def and.assoc)
  define st' where "st' = st\<lparr>memory := ?m(p1 + 8 * ?i1 := e)\<rparr>"
  have "\<not> (offset st \<le> va \<and> va \<le> 0x0000FF8000000000)" using range by auto
  then have "page_unmap tr va phys0 st = (None, phys0, st')"
    by (simp add: page_unmap_def Let_def n read_entry_def write_entry_def loc st'_def e_def)
  moreover have "lookup st' js = (if js = va_path va then None else lookup st js)"
    if "length js = 4" "valid_path js" for js
    using clear_leaf_walk [OF t w(3) _ _ b(4) e that] b by (simp add: lookup_def st'_def va_path_def)
  moreover have "tables_inv free ok A st'"
    using inv clear_leaf_tables [OF t w(3) _ _ b(4), of e] b by (simp add: tables_inv_def st'_def)
  ultimately show ?thesis by (auto simp: same_regs_def st'_def)
qed

text \<open>C28: \<open>page_unmap\<close> of a mapped page outside the reserved range unmaps that page and no other.
  It does not tell the caller which frame the page had: \<open>*physical_address\<close> keeps the value it
  came with, though \<open>page_allocator_init\<close> passes it on to \<open>page_physical_free\<close>.\<close>

theorem page_unmap_ok:
  assumes "kernel_inv A st" and "reached tr (offset st) A"
    and "lookup st (va_path va) = Some f" and "va < offset st \<or> 0x0000FF8000000000 < va"
  shows "\<exists>st'. page_unmap tr va phys0 st = (None, phys0, st') \<and> same_regs st st' \<and>
    (\<forall>js. length js = 4 \<longrightarrow> valid_path js \<longrightarrow>
       lookup st' js = (if js = va_path va then None else lookup st js))"
  using page_unmap_core [OF assms, of phys0] by blast

text \<open>The small machine with page 0 mapped to the frame \<open>0x5000\<close>.\<close>

definition mapped_machine :: "bitmap paging" where
  "mapped_machine = small_machine\<lparr>memory := (\<lambda>_. 0)(0x40000 := 0x41007, 0x41000 := 0x42007,
     0x42000 := 0x43007, 0x43000 := 0x5007)\<rparr>"

lemma page_numerals: "is_page 0x40000" "is_page 0x41000" "is_page 0x42000" "is_page 0x43000"
  by (simp_all add: is_page_def ADDR_MASK_def)

lemma not_in_page: "is_page p \<Longrightarrow> is_page q \<Longrightarrow> q \<noteq> p \<Longrightarrow> k < 512 \<Longrightarrow> p + 8 * k \<noteq> q"
  using entry_inj [of p q k 0] by auto

lemma mapped_inv: "kernel_inv small_frames mapped_machine"
proof -
  let ?R = "0x40000 :: u64"
  define m0 where "m0 = (\<lambda>_ :: u64. 0 :: u64)"
  define m1 where "m1 = m0(0x40000 := 0x41007)"
  define m2 where "m2 = m1(0x41000 := 0x42007)"
  define m3 where "m3 = m2(0x42000 := 0x43007)"
  define m4 where "m4 = m3(0x43000 := 0x5007)"
  note pn = page_numerals
  have t0: "tree m0 ?R" "tables m0 ?R \<subseteq> {?R}"
    using small_inv root_in_tables [of ?R m0]
    by (auto simp: tables_inv_def small_machine_def m0_def tables_def split: if_splits elim: walk_from.elims)
  have v: "e AND PRESENT_FLAG \<noteq> 0" "e AND ADDR_MASK = f"
    if "(e, f) \<in> {(0x41007, 0x41000), (0x42007, 0x42000), (0x43007, 0x43000), (0x5007, 0x5000)}" for e f
    using that by (auto simp: PRESENT_FLAG_def ADDR_MASK_def)
  have fr1: "0x41000 \<notin> tables m0 ?R" using t0(2) by auto
  have t1: "tree m1 ?R" "tables m1 ?R \<subseteq> insert 0x41000 (tables m0 ?R)" "walk_from m1 ?R [0] = Some 0x41000"
    using link_table_walk(1-3) [OF t0(1) _ _ _ _ _ _ _ fr1, of "[]" ?R 0 "0x41007"] v [of "0x41007" "0x41000"]
    by (simp_all add: m0_def m1_def)
  have s1: "tables m1 ?R \<subseteq> {0x41000, 0x40000}" using order_trans [OF t1(2) insert_mono [OF t0(2)]] .
  then have fr2: "0x42000 \<notin> tables m1 ?R" by auto
  have z2: "m1 (0x42000 + 8 * k) = 0" if "k < 512" for k
    using not_in_page [OF pn(3) pn(1) _ that] by (simp add: m1_def m0_def)
  have a2: "m1 (0x41000 + 8 * 0) AND PRESENT_FLAG = 0" by (simp add: m1_def m0_def)
  have t2: "tree m2 ?R" "tables m2 ?R \<subseteq> insert 0x42000 (tables m1 ?R)" "walk_from m2 ?R [0, 0] = Some 0x42000"
    using link_table_walk(1-3) [OF t1(1,3) _ _ _ _ _ a2 fr2 z2, of "0x42007"] v [of "0x42007" "0x42000"]
    by (simp_all add: m2_def)
  have s2: "tables m2 ?R \<subseteq> {0x42000, 0x41000, 0x40000}" using order_trans [OF t2(2) insert_mono [OF s1]] .
  then have fr3: "0x43000 \<notin> tables m2 ?R" by auto
  have z3: "m2 (0x43000 + 8 * k) = 0" if "k < 512" for k
    using not_in_page [OF pn(4) pn(1) _ that] not_in_page [OF pn(4) pn(2) _ that]
    by (simp add: m2_def m1_def m0_def)
  have a3: "m2 (0x42000 + 8 * 0) AND PRESENT_FLAG = 0" by (simp add: m2_def m1_def m0_def)
  have t3: "tree m3 ?R" "tables m3 ?R \<subseteq> insert 0x43000 (tables m2 ?R)" "walk_from m3 ?R [0, 0, 0] = Some 0x43000"
    using link_table_walk(1-3) [OF t2(1,3) _ _ _ _ _ a3 fr3 z3, of "0x43007"] v [of "0x43007" "0x43000"]
    by (simp_all add: m3_def)
  have t4: "tree m4 ?R" "tables m4 ?R = tables m3 ?R"
    using set_leaf_walk(1,2) [OF t3(1,3), of 0 "0x5007"] v [of "0x5007" "0x5000"] by (simp_all add: m4_def)
  have "tables m3 ?R \<subseteq> {0x43000, 0x42000, 0x41000, 0x40000}"
    using order_trans [OF t3(2) insert_mono [OF s2]] .
  then have sub: "tables m4 ?R \<subseteq> {0x40000, 0x41000, 0x42000, 0x43000}"
    using t4(2) by auto
  have inv: "free_frames x86_ov [0] \<subseteq> small_frames" "phys_inv_low [0]"
    using small_inv by (simp_all add: tables_inv_def small_machine_def)
  have "free_frames x86_ov [0] \<inter> {0x40000, 0x41000, 0x42000, 0x43000} = {}"
    using small_free_below by fastforce
  with sub have disj: "tables m4 ?R \<inter> free_frames x86_ov [0] = {}" by blast
  have "{0x40000, 0x41000, 0x42000, 0x43000} \<subseteq> small_frames"
    using pn by (simp add: small_frames_def)
  with sub have below: "tables m4 ?R \<subseteq> small_frames" by (rule subset_trans)
  have m: "memory mapped_machine = m4" "current_pml4 mapped_machine = ?R" "frames mapped_machine = [0]"
    by (simp_all add: mapped_machine_def small_machine_def m4_def m3_def m2_def m1_def m0_def)
  show ?thesis
    unfolding tables_inv_def m by (intro conjI inv t4(1) disj below)
qed

theorem page_unmap_ok_witness:
  "\<exists>st'. page_unmap small_tr 0 7 mapped_machine = (None, 7, st') \<and> lookup st' [0, 0, 0, 0] = None"
proof -
  have p: "va_path 0 = [0, 0, 0, 0]" by (simp add: va_path_def va_index_take_bit)
  have l: "lookup mapped_machine (va_path 0) = Some 0x5000"
    by (simp add: p lookup_def mapped_machine_def small_machine_def PRESENT_FLAG_def ADDR_MASK_def)
  have r: "reached small_tr (offset mapped_machine) small_frames"
    using small_reached by (simp add: mapped_machine_def small_machine_def)
  have o: "0 < offset mapped_machine" by (simp add: mapped_machine_def small_machine_def)
  show ?thesis
    using page_unmap_ok [OF mapped_inv r l disjI1 [OF o], of 7] p by auto
qed

text \<open>The canonical addresses: the bits above the translated ones repeat bit 47.\<close>

definition canonical :: "u64 \<Rightarrow> bool" where
  "canonical va \<longleftrightarrow> (\<forall>n. 47 \<le> n \<longrightarrow> n < 64 \<longrightarrow> bit va n = bit va 47)"

lemma index_bit: "(i :: u64) < 512 \<Longrightarrow> bit i n \<Longrightarrow> n < 9"
proof (rule ccontr)
  assume i: "i < 512" and b: "bit i n" and "\<not> n < 9"
  then have "unat i < 2 ^ 9" by (simp add: word_less_nat_alt)
  then have "\<not> bit (of_nat (unat i) :: u64) n"
    using \<open>\<not> n < 9\<close> by (intro bit_of_nat_bound [of _ 9]) simp_all
  with b show False by simp
qed

text \<open>\<open>OFFSETS_TO_ADDR\<close> builds the canonical virtual address of four table indices: the
  \<open>VA_GET\<close> macros take it apart into the same indices, its top bits repeat bit 47 and its page
  offset is 0.\<close>

theorem va_roundtrip:
  assumes "a < 512" "b < 512" "c < 512" "d < 512"
  shows "VA_GET_PML4_INDEX (OFFSETS_TO_ADDR a b c d) = a \<and> VA_GET_PDP_INDEX (OFFSETS_TO_ADDR a b c d) = b \<and>
    VA_GET_PD_INDEX (OFFSETS_TO_ADDR a b c d) = c \<and> VA_GET_PT_INDEX (OFFSETS_TO_ADDR a b c d) = d \<and>
    canonical (OFFSETS_TO_ADDR a b c d) \<and> OFFSETS_TO_ADDR a b c d AND 0xFFF = 0"
proof -
  note ib = index_bit [OF assms(1)] index_bit [OF assms(2)] index_bit [OF assms(3)] index_bit [OF assms(4)]
  have a8: "a AND 0x100 \<noteq> 0 \<longleftrightarrow> bit a 8"
    by (simp add: bit_iff_and_push_bit_not_eq_0 push_bit_eq_mult)
  have ff: "(0xffff :: u64) = mask 16" by (simp add: mask_eq_exp_minus_1)
  have bits: "bit (OFFSETS_TO_ADDR a b c d) n \<longleftrightarrow> n < 64 \<and>
     (48 \<le> n \<and> bit a 8 \<or> 39 \<le> n \<and> bit a (n - 39) \<or> 30 \<le> n \<and> bit b (n - 30) \<or>
      21 \<le> n \<and> bit c (n - 21) \<or> 12 \<le> n \<and> bit d (n - 12))" for n
    unfolding OFFSETS_TO_ADDR_def a8 ff by (auto simp: bit_simps)
  let ?o = "OFFSETS_TO_ADDR a b c d"
  have "VA_GET_PML4_INDEX ?o = a"
    unfolding va_index_take_bit by (rule bit_word_eqI) (auto simp: bit_simps bits dest: ib)
  moreover have "VA_GET_PDP_INDEX ?o = b"
    unfolding va_index_take_bit by (rule bit_word_eqI) (auto simp: bit_simps bits dest: ib)
  moreover have "VA_GET_PD_INDEX ?o = c"
    unfolding va_index_take_bit by (rule bit_word_eqI) (auto simp: bit_simps bits dest: ib)
  moreover have "VA_GET_PT_INDEX ?o = d"
    unfolding va_index_take_bit by (rule bit_word_eqI) (auto simp: bit_simps bits dest: ib)
  moreover have "canonical ?o"
  proof -
    have "bit ?o n \<longleftrightarrow> bit a 8" if n: "47 \<le> n" "n < 64" for n
    proof (cases "n = 47")
      case True
      then show ?thesis by (auto simp: bits dest: ib)
    next
      case False
      then show ?thesis using n by (auto simp: bits dest: ib)
    qed
    then show ?thesis by (simp add: canonical_def)
  qed
  moreover have "?o AND 0xFFF = 0"
  proof -
    have "?o AND 0xFFF = take_bit 12 ?o" by (simp add: take_bit_eq_mask mask_eq_exp_minus_1)
    also have "\<dots> = 0" by (rule bit_word_eqI) (auto simp: bit_simps bits)
    finally show ?thesis .
  qed
  ultimately show ?thesis by blast
qed

theorem va_roundtrip_witness: "VA_GET_PML4_INDEX (OFFSETS_TO_ADDR 511 1 2 3) = 511"
  using va_roundtrip [of 511 1 2 3] by simp

end
