(* ===== verification/Page_Alloc.thy ===== *)
theory Page_Alloc
  imports Virt_Props Page_Props
begin

text \<open>
  The page allocation functions of \<open>kernel/kernel/memory.c\<close> that put the three parts together: a
  frame from the bitmap, a place in the virtual address map, an entry in the page tables.

  \<open>kernel_panic\<close> does not return (\<open>None\<close>). \<open>ur\<close> is what the caller sees as the result of a function
  that ended without a \<open>return\<close> (\<open>page_unmap\<close>), which C leaves undefined. In the functions that
  pass the pointer \<open>frame\<close> where \<open>*frame\<close> was meant, \<open>frame_ptr\<close> is that pointer.
\<close>

section \<open>The state\<close>

record kernel =
  mapper :: "bitmap paging"
  vmap :: virtual_map

definition set_frames :: "bitmap \<Rightarrow> kernel \<Rightarrow> kernel" where
  "set_frames bm ks = ks\<lparr>mapper := (mapper ks)\<lparr>frames := bm\<rparr>\<rparr>"

definition free_physical :: "(nat \<Rightarrow> u64) \<Rightarrow> u64 \<Rightarrow> kernel \<Rightarrow> kernel" where
  "free_physical ov f ks = set_frames (page_physical_free ov (frames (mapper ks)) f) ks"

text \<open>\<open>page_virtual_free\<close>, its result ignored.\<close>

definition free_virtual :: "(nat \<Rightarrow> u64) \<Rightarrow> u64 \<Rightarrow> kernel \<Rightarrow> kernel option" where
  "free_virtual ov f ks = map_option (\<lambda>(_, v). ks\<lparr>vmap := v\<rparr>) (page_virtual_free ov (vmap ks) f)"

text \<open>\<open>page_physical_alloc(&physical_page)\<close>; \<open>physical_page\<close> is not initialised before.\<close>

definition alloc_physical :: "(nat \<Rightarrow> u64) \<Rightarrow> kernel \<Rightarrow> (rc \<times> u64 \<times> kernel) option" where
  "alloc_physical ov ks =
     map_option (\<lambda>(r, f, bm). (r, f, set_frames bm ks)) (page_physical_alloc ov (frames (mapper ks)) 0)"

definition map_physical ::
    "(nat \<Rightarrow> u64) \<Rightarrow> (u64 \<Rightarrow> u64) \<Rightarrow> u64 \<Rightarrow> u64 \<Rightarrow> kernel \<Rightarrow> (rc \<times> kernel) option" where
  "map_physical ov tr va f ks =
     map_option (\<lambda>(r, p). (r, ks\<lparr>mapper := p\<rparr>)) (page_map (page_physical_alloc ov) tr va f (mapper ks))"

section \<open>One page\<close>

text \<open>The end of the \<open>page_alloc\<close> functions: map, panic, or undo.\<close>

definition map_or_undo ::
    "(nat \<Rightarrow> u64) \<Rightarrow> (u64 \<Rightarrow> u64) \<Rightarrow> u64 \<Rightarrow> u64 \<Rightarrow> kernel \<Rightarrow> (rc \<times> kernel) option" where
  "map_or_undo ov tr va physical_page ks =
     do { (r, ks) \<leftarrow> map_physical ov tr va physical_page ks;
       (if r = rc_busy then None
        else if r = rc_fail
          then map_option (Pair rc_fail) (free_virtual ov va (free_physical ov physical_page ks))
        else Some (rc_ok, ks)) }"

definition page_alloc ::
    "(nat \<Rightarrow> u64) \<Rightarrow> (u64 \<Rightarrow> u64) \<Rightarrow> u64 \<Rightarrow> kernel \<Rightarrow> (rc \<times> u64 \<times> kernel) option" where
  "page_alloc ov tr frame ks =
     do { (r, physical_page, ks) \<leftarrow> alloc_physical ov ks;
       (if r = rc_fail then Some (rc_fail, frame, ks)
        else do {
          (r, frame, v) \<leftarrow> page_virtual_alloc ov (vmap ks);
          let ks = ks\<lparr>vmap := v\<rparr>;
          (if r = rc_fail then Some (rc_fail, frame, free_physical ov physical_page ks)
           else map_option (\<lambda>(r, ks). (r, frame, ks)) (map_or_undo ov tr frame physical_page ks)) }) }"

definition page_alloc_at ::
    "(nat \<Rightarrow> u64) \<Rightarrow> (u64 \<Rightarrow> u64) \<Rightarrow> u64 \<Rightarrow> kernel \<Rightarrow> (rc \<times> kernel) option" where
  "page_alloc_at ov tr frame ks =
     do { (r, physical_page, ks) \<leftarrow> alloc_physical ov ks;
       (if r = rc_fail then Some (rc_fail, ks)
        else do {
          (r, v) \<leftarrow> page_virtual_alloc_at ov (vmap ks) frame;
          let ks = ks\<lparr>vmap := v\<rparr>;
          (if r \<noteq> rc_ok then Some (r, free_physical ov physical_page ks)
           else map_or_undo ov tr frame physical_page ks) }) }"

definition page_alloc_after ::
    "(nat \<Rightarrow> u64) \<Rightarrow> (u64 \<Rightarrow> u64) \<Rightarrow> u64 \<Rightarrow> u64 \<Rightarrow> kernel \<Rightarrow> (rc \<times> u64 \<times> kernel) option" where
  "page_alloc_after ov tr base frame ks =
     do { (r, physical_page, ks) \<leftarrow> alloc_physical ov ks;
       (if r = rc_fail then Some (rc_fail, frame, ks)
        else do {
          (r, frame, v) \<leftarrow> page_virtual_alloc_after ov (vmap ks) base frame;
          let ks = ks\<lparr>vmap := v\<rparr>;
          (if r = rc_fail then Some (rc_fail, frame, free_physical ov physical_page ks)
           else map_option (\<lambda>(r, ks). (r, frame, ks)) (map_or_undo ov tr frame physical_page ks)) }) }"

text \<open>\<open>page_map(frame, ...)\<close> and \<open>page_virtual_free(frame)\<close> get the pointer.\<close>

definition page_alloc_beyond ::
    "(nat \<Rightarrow> u64) \<Rightarrow> (u64 \<Rightarrow> u64) \<Rightarrow> u64 \<Rightarrow> u64 \<Rightarrow> u64 \<Rightarrow> u64 \<Rightarrow> kernel \<Rightarrow> (rc \<times> u64 \<times> kernel) option" where
  "page_alloc_beyond ov tr base jump_count frame_ptr frame ks =
     do { (r, physical_page, ks) \<leftarrow> alloc_physical ov ks;
       (if r = rc_fail then Some (rc_fail, frame, ks)
        else do {
          (r, frame, v) \<leftarrow> page_virtual_alloc_beyond ov (vmap ks) base jump_count frame;
          let ks = ks\<lparr>vmap := v\<rparr>;
          (if r \<noteq> rc_ok then Some (r, frame, free_physical ov physical_page ks)
           else map_option (\<lambda>(r, ks). (r, frame, ks)) (map_or_undo ov tr frame_ptr physical_page ks)) }) }"

definition page_alloc_beyond_ex ::
    "(nat \<Rightarrow> u64) \<Rightarrow> (u64 \<Rightarrow> u64) \<Rightarrow> u64 \<Rightarrow> u64 \<Rightarrow> u64 \<Rightarrow> kernel \<Rightarrow> (rc \<times> u64 \<times> kernel) option" where
  "page_alloc_beyond_ex ov tr base jump_count frame ks =
     do { (r, physical_page, ks) \<leftarrow> alloc_physical ov ks;
       (if r = rc_fail then Some (rc_fail, frame, ks)
        else do {
          (r, frame, v) \<leftarrow> page_virtual_alloc_beyond_ex ov (vmap ks) base jump_count frame;
          let ks = ks\<lparr>vmap := v\<rparr>;
          (if r = rc_fail then Some (rc_fail, frame, free_physical ov physical_page ks)
           else map_option (\<lambda>(r, ks). (r, frame, ks)) (map_or_undo ov tr frame physical_page ks)) }) }"

section \<open>Freeing\<close>

text \<open>The result of \<open>page_unmap\<close> as the caller reads it.\<close>

definition unmap_result :: "rc \<Rightarrow> rc option \<Rightarrow> rc" where
  "unmap_result ur r = (case r of Some r \<Rightarrow> r | None \<Rightarrow> ur)"

definition page_free ::
    "(nat \<Rightarrow> u64) \<Rightarrow> rc \<Rightarrow> (u64 \<Rightarrow> u64) \<Rightarrow> u64 \<Rightarrow> kernel \<Rightarrow> kernel option" where
  "page_free ov ur tr frame ks =
     (let (r, _, p) = page_unmap tr frame 0 (mapper ks);
          ks = ks\<lparr>mapper := p\<rparr>
      in if unmap_result ur r = rc_fail then Some ks else free_virtual ov frame ks)"

text \<open>Every turn unmaps its own page and frees the virtual page \<open>frame\<close>.\<close>

fun page_free_multiple_loop ::
    "(nat \<Rightarrow> u64) \<Rightarrow> rc \<Rightarrow> (u64 \<Rightarrow> u64) \<Rightarrow> u64 \<Rightarrow> nat list \<Rightarrow> kernel \<Rightarrow> kernel option" where
  "page_free_multiple_loop ov ur tr frame [] ks = Some ks"
| "page_free_multiple_loop ov ur tr frame (i # is) ks =
     (let (r, _, p) = page_unmap tr (frame + pages (of_nat i)) 0 (mapper ks);
          ks = ks\<lparr>mapper := p\<rparr>
      in do {
        ks \<leftarrow> (if unmap_result ur r = rc_fail then Some ks else free_virtual ov frame ks);
        page_free_multiple_loop ov ur tr frame is ks })"

definition page_free_multiple ::
    "(nat \<Rightarrow> u64) \<Rightarrow> rc \<Rightarrow> (u64 \<Rightarrow> u64) \<Rightarrow> u64 \<Rightarrow> u64 \<Rightarrow> kernel \<Rightarrow> kernel option" where
  "page_free_multiple ov ur tr frame count ks =
     page_free_multiple_loop ov ur tr frame [0..<unat count] ks"

section \<open>Several pages\<close>

text \<open>
  The loop all the \<open>page_alloc_multiple\<close> functions share. \<open>addr i\<close> is the address of page \<open>i\<close>:
  \<open>*frame + (i << 12)\<close> where the code says so, and \<open>frame + (i << 12)\<close>, an addition of 8-byte
  elements to the pointer, where it does not dereference.
\<close>

fun map_pages_loop ::
    "(nat \<Rightarrow> u64) \<Rightarrow> rc \<Rightarrow> (u64 \<Rightarrow> u64) \<Rightarrow> (u64 \<Rightarrow> u64) \<Rightarrow> u64 \<Rightarrow> nat list \<Rightarrow> kernel \<Rightarrow> (rc \<times> kernel) option" where
  "map_pages_loop ov ur tr addr alloc_count [] ks = Some (rc_ok, ks)"
| "map_pages_loop ov ur tr addr alloc_count (n # ns) ks =
     (let i = of_nat n;
          give_up = (\<lambda>free ks. do {
            ks \<leftarrow> (if i > 0 then page_free_multiple ov ur tr (addr 0) i ks else Some ks);
            (_, v) \<leftarrow> page_virtual_free_multiple ov (vmap (free ks)) (addr i) (alloc_count - i);
            Some (rc_fail, (free ks)\<lparr>vmap := v\<rparr>) })
      in do {
        (r, physical_page, ks) \<leftarrow> alloc_physical ov ks;
        (if r = rc_fail then give_up id ks
         else do {
           (r, ks) \<leftarrow> map_physical ov tr (addr i) physical_page ks;
           (if r = rc_fail then give_up (free_physical ov physical_page) ks
            else if r = rc_busy then None
            else map_pages_loop ov ur tr addr alloc_count ns ks) }) })"

text \<open>Reserve the block in the virtual map, then map its pages.\<close>

definition map_pages ::
    "(nat \<Rightarrow> u64) \<Rightarrow> rc \<Rightarrow> (u64 \<Rightarrow> u64) \<Rightarrow> (u64 \<Rightarrow> u64 \<Rightarrow> u64) \<Rightarrow> u64 \<Rightarrow>
     (rc \<times> u64 \<times> virtual_map) option \<Rightarrow> kernel \<Rightarrow> (rc \<times> u64 \<times> kernel) option" where
  "map_pages ov ur tr addr_of alloc_count reserved ks =
     do { (r, frame, v) \<leftarrow> reserved;
       let ks = ks\<lparr>vmap := v\<rparr>;
       (if r \<noteq> rc_ok then Some (r, frame, ks)
        else map_option (\<lambda>(r, ks). (r, frame, ks))
          (map_pages_loop ov ur tr (addr_of frame) alloc_count [0..<unat alloc_count] ks)) }"

definition through_value :: "u64 \<Rightarrow> u64 \<Rightarrow> u64" where
  "through_value frame i = frame + pages i"

definition through_pointer :: "u64 \<Rightarrow> u64 \<Rightarrow> u64 \<Rightarrow> u64" where
  "through_pointer frame_ptr frame i = frame_ptr + 8 * pages i"

definition page_alloc_multiple ::
    "(nat \<Rightarrow> u64) \<Rightarrow> rc \<Rightarrow> (u64 \<Rightarrow> u64) \<Rightarrow> u64 \<Rightarrow> u64 \<Rightarrow> kernel \<Rightarrow> (rc \<times> u64 \<times> kernel) option" where
  "page_alloc_multiple ov ur tr frame alloc_count ks =
     map_pages ov ur tr through_value alloc_count
       (page_virtual_alloc_multiple ov (vmap ks) frame alloc_count) ks"

definition page_alloc_multiple_ex ::
    "(nat \<Rightarrow> u64) \<Rightarrow> rc \<Rightarrow> (u64 \<Rightarrow> u64) \<Rightarrow> u64 \<Rightarrow> u64 \<Rightarrow> kernel \<Rightarrow> (rc \<times> u64 \<times> kernel) option" where
  "page_alloc_multiple_ex ov ur tr frame alloc_count ks =
     map_pages ov ur tr through_value alloc_count
       (page_virtual_alloc_multiple_ex ov (vmap ks) frame alloc_count) ks"

definition page_alloc_multiple_at ::
    "(nat \<Rightarrow> u64) \<Rightarrow> rc \<Rightarrow> (u64 \<Rightarrow> u64) \<Rightarrow> u64 \<Rightarrow> u64 \<Rightarrow> kernel \<Rightarrow> (rc \<times> kernel) option" where
  "page_alloc_multiple_at ov ur tr frame alloc_count ks =
     map_option (\<lambda>(r, _, ks). (r, ks)) (map_pages ov ur tr through_value alloc_count
       (with_frame frame (page_virtual_alloc_multiple_at ov (vmap ks) frame alloc_count)) ks)"

definition page_alloc_multiple_after ::
    "(nat \<Rightarrow> u64) \<Rightarrow> rc \<Rightarrow> (u64 \<Rightarrow> u64) \<Rightarrow> u64 \<Rightarrow> u64 \<Rightarrow> u64 \<Rightarrow> u64 \<Rightarrow> kernel \<Rightarrow>
     (rc \<times> u64 \<times> kernel) option" where
  "page_alloc_multiple_after ov ur tr base alloc_count frame_ptr frame ks =
     map_pages ov ur tr (through_pointer frame_ptr) alloc_count
       (page_virtual_alloc_multiple_after ov (vmap ks) base alloc_count frame) ks"

definition page_alloc_multiple_after_ex ::
    "(nat \<Rightarrow> u64) \<Rightarrow> rc \<Rightarrow> (u64 \<Rightarrow> u64) \<Rightarrow> u64 \<Rightarrow> u64 \<Rightarrow> u64 \<Rightarrow> u64 \<Rightarrow> kernel \<Rightarrow>
     (rc \<times> u64 \<times> kernel) option" where
  "page_alloc_multiple_after_ex ov ur tr base alloc_count frame_ptr frame ks =
     map_pages ov ur tr (through_pointer frame_ptr) alloc_count
       (page_virtual_alloc_multiple_after_ex ov (vmap ks) base alloc_count frame) ks"

definition page_alloc_multiple_beyond ::
    "(nat \<Rightarrow> u64) \<Rightarrow> rc \<Rightarrow> (u64 \<Rightarrow> u64) \<Rightarrow> u64 \<Rightarrow> u64 \<Rightarrow> u64 \<Rightarrow> u64 \<Rightarrow> u64 \<Rightarrow> kernel \<Rightarrow>
     (rc \<times> u64 \<times> kernel) option" where
  "page_alloc_multiple_beyond ov ur tr base alloc_count jump_count frame_ptr frame ks =
     map_pages ov ur tr (through_pointer frame_ptr) alloc_count
       (page_virtual_alloc_multiple_beyond ov (vmap ks) base alloc_count jump_count frame) ks"

definition page_alloc_multiple_beyond_ex ::
    "(nat \<Rightarrow> u64) \<Rightarrow> rc \<Rightarrow> (u64 \<Rightarrow> u64) \<Rightarrow> u64 \<Rightarrow> u64 \<Rightarrow> u64 \<Rightarrow> u64 \<Rightarrow> u64 \<Rightarrow> kernel \<Rightarrow>
     (rc \<times> u64 \<times> kernel) option" where
  "page_alloc_multiple_beyond_ex ov ur tr base alloc_count jump_count frame_ptr frame ks =
     map_pages ov ur tr (through_pointer frame_ptr) alloc_count
       (page_virtual_alloc_multiple_beyond_ex ov (vmap ks) base alloc_count jump_count frame) ks"

text \<open>The stubs at the end of the file.\<close>

definition kmalloc :: "u64 \<Rightarrow> u64" where
  "kmalloc bytes = 0"

definition kfree :: "u64 \<Rightarrow> kernel \<Rightarrow> kernel" where
  "kfree ptr ks = ks"

section \<open>Properties\<close>

lemma alloc_physical_x86:
  assumes "phys_inv_low (frames (mapper ks))"
  obtains "alloc_physical x86_ov ks = Some (rc_fail, 0, ks)"
  | f bm where "alloc_physical x86_ov ks = Some (rc_ok, f, set_frames bm ks)"
      "f \<in> free_frames x86_ov (frames (mapper ks))" "phys_inv_low bm"
      "free_frames x86_ov bm \<subseteq> free_frames x86_ov (frames (mapper ks)) - {f}"
proof -
  obtain r f bm where a: "page_physical_alloc x86_ov (frames (mapper ks)) 0 = Some (r, f, bm)"
    using x86_low.alloc_returns [OF assms, of 0] by auto
  show ?thesis
  proof (cases "r = rc_ok")
    case True
    then show ?thesis
      using x86_low.alloc_ok [OF assms a True] a that(2) by (simp add: alloc_physical_def)
  next
    case False
    from x86_low.alloc_fail [OF assms a False]
    have "alloc_physical x86_ov ks = Some (rc_fail, 0, ks)"
      using a by (simp add: alloc_physical_def set_frames_def)
    then show ?thesis by (rule that(1))
  qed
qed


text \<open>\<open>page_free\<close> never gives the frame of the page back: whatever it is called with, the
  bitmap of physical pages is the one from before.\<close>

theorem page_free_leaks:
  assumes "page_free ov ur tr frame ks = Some ks'"
  shows "frames (mapper ks') = frames (mapper ks)"
proof -
  have "frames (snd (snd (page_unmap tr frame 0 (mapper ks)))) = frames (mapper ks)"
    by (simp add: page_unmap_def Let_def)
  then show ?thesis
    using assms by (auto simp: page_free_def free_virtual_def Let_def split: prod.splits if_splits)
qed


section \<open>Witnesses\<close>

definition small_kernel :: kernel where
  "small_kernel = \<lparr>mapper = small_machine, vmap = two_map\<rparr>"


theorem page_free_leaks_witness:
  "\<exists>ks'. page_free x86_ov rc_fail small_tr 0x2000 small_kernel = Some ks' \<and> frames (mapper ks') = [0]"
proof -
  obtain ks' where k: "page_free x86_ov rc_fail small_tr 0x2000 small_kernel = Some ks'"
    by (simp add: page_free_def unmap_result_def Let_def page_unmap_def small_kernel_def small_machine_def)
  from page_free_leaks [OF this] k show ?thesis
    by (simp add: small_kernel_def small_machine_def)
qed

end
