(* ===== verification/Page_Isolation.thy ===== *)
theory Page_Isolation
  imports Page_Alloc
begin

text \<open>
  Runs of the page allocator: whatever sequence of allocations and frees succeeds, no frame is given to two
  pages, and no frame of a page is a page table or is free. The mapper is used once more with its contract,
  for the allocator that also keeps a set of frames that are given out.
\<close>

section \<open>Frames that are given out\<close>

definition keeps :: "u64 set \<Rightarrow> bitmap \<Rightarrow> bool" where
  "keeps R bm \<longleftrightarrow> phys_inv_low bm \<and> free_frames x86_ov bm \<inter> R = {} \<and> (\<forall>f \<in> R. f AND ADDR_MASK = f)"

text \<open>No page table is free or given out.\<close>

abbreviation reserved_inv :: "u64 set \<Rightarrow> u64 set \<Rightarrow> bitmap paging \<Rightarrow> bool" where
  "reserved_inv R \<equiv> tables_inv (\<lambda>bm. free_frames x86_ov bm \<union> R) (keeps R)"

interpretation reserving: frame_allocator "page_physical_alloc x86_ov" "\<lambda>bm. free_frames x86_ov bm \<union> R" "keeps R"
  for R
proof unfold_locales
  fix s f r fr s'
  assume k: "keeps R s"
  then have inv: "phys_inv_low s" and out: "free_frames x86_ov s \<inter> R = {}" by (simp_all add: keeps_def)
  show "\<exists>r. page_physical_alloc x86_ov s f = Some r" by (rule x86_low.alloc_returns [OF inv])
  show "fr \<in> free_frames x86_ov s \<union> R \<Longrightarrow> fr AND ADDR_MASK = fr"
    using k free_frames_addr [OF inv] by (auto simp: keeps_def)
  assume a: "page_physical_alloc x86_ov s f = Some (r, fr, s')"
  show "r \<noteq> rc_ok \<Longrightarrow> r = rc_fail \<and> fr = f \<and> s' = s" by (rule x86_low.alloc_fail [OF inv a])
  assume "r = rc_ok"
  from x86_low.alloc_ok [OF inv a this] show "fr \<in> free_frames x86_ov s \<union> R \<and>
      free_frames x86_ov s' \<union> R \<subseteq> free_frames x86_ov s \<union> R - {fr} \<and> keeps R s'"
    using k out by (auto simp: keeps_def)
qed

lemma reserved_empty: "reserved_inv {} A st \<longleftrightarrow> kernel_inv A st"
  by (simp add: tables_inv_def keeps_def)

lemma reserved_kernel: "reserved_inv R A st \<Longrightarrow> kernel_inv A st"
  by (auto simp: tables_inv_def keeps_def)

lemma reserved_out:
  "reserved_inv R A st \<Longrightarrow> f \<in> R \<Longrightarrow> f \<notin> tables (memory st) (current_pml4 st) \<and> f \<notin> free_frames x86_ov (frames st)"
  by (auto simp: tables_inv_def keeps_def)

section \<open>One step\<close>

text \<open>The end that the four functions share: a frame is there, the virtual map is done, the page is mapped.\<close>

lemma map_step:
  assumes inv: "reserved_inv R A (mapper ks)" and tr: "reached tr (offset (mapper ks)) A"
    and a: "alloc_physical x86_ov ks = Some (r0, phys, ks1)" "r0 \<noteq> rc_fail"
    and m: "map_or_undo x86_ov tr va phys (ks1\<lparr>vmap := v\<rparr>) = Some (rc_ok, ks')"
  shows "phys \<in> free_frames x86_ov (frames (mapper ks)) \<and> phys \<notin> R \<and> reserved_inv (insert phys R) A (mapper ks') \<and>
    same_regs (mapper ks) (mapper ks') \<and> lookup (mapper ks) (va_path va) = None \<and>
    (\<forall>js. length js = 4 \<longrightarrow> valid_path js \<longrightarrow>
       lookup (mapper ks') js = (if js = va_path va then Some phys else lookup (mapper ks) js))"
proof -
  have low: "phys_inv_low (frames (mapper ks))" using inv by (simp add: tables_inv_def keeps_def)
  obtain bm where ks1: "ks1 = set_frames bm ks" and ph: "phys \<in> free_frames x86_ov (frames (mapper ks))" "phys_inv_low bm"
    "free_frames x86_ov bm \<subseteq> free_frames x86_ov (frames (mapper ks)) - {phys}"
    by (rule alloc_physical_x86 [OF low]) (use a in auto)
  have addr: "phys AND ADDR_MASK = phys" by (rule free_frames_addr [OF low ph(1)])
  have out: "phys \<notin> R" using inv ph(1) by (auto simp: tables_inv_def keeps_def)
  let ?st = "mapper ks1"
  have inv1: "reserved_inv (insert phys R) A ?st"
    using inv ph addr by (auto simp: tables_inv_def keeps_def ks1 set_frames_def)
  have st: "lookup ?st js = lookup (mapper ks) js" "offset ?st = offset (mapper ks)" "same_regs (mapper ks) ?st" for js
    by (simp_all add: ks1 set_frames_def lookup_def same_regs_def)
  have tr1: "reached tr (offset ?st) A" using tr st(2) by simp
  from reserving.page_map_ok [OF inv1 tr1, of va phys] obtain r p where
    p: "kernel_page_map tr va phys ?st = Some (r, p)" "reserved_inv (insert phys R) A p" "same_regs ?st p" and
    cases: "r = rc_ok \<and> lookup ?st (va_path va) = None \<and> (\<forall>js. length js = 4 \<longrightarrow> valid_path js \<longrightarrow>
       lookup p js = (if js = va_path va then Some (phys AND ADDR_MASK) else lookup ?st js)) \<or>
     r = rc_busy \<or> r = rc_fail" by blast
  have mp: "map_physical x86_ov tr va phys (ks1\<lparr>vmap := v\<rparr>) = Some (r, ks1\<lparr>vmap := v, mapper := p\<rparr>)"
    using p(1) by (simp add: map_physical_def)
  have "r = rc_ok" using m cases by (auto simp: map_or_undo_def mp split: if_splits)
  then have "mapper ks' = p" using m by (auto simp: map_or_undo_def mp)
  then show ?thesis
    using \<open>r = rc_ok\<close> cases p(2,3) ph(1) out addr st same_regs_trans [OF st(3) p(3)] by auto
qed

text \<open>A successful allocation of a page, with one of the functions that map the page they reserve.\<close>

inductive alloc_call :: "(u64 \<Rightarrow> u64) \<Rightarrow> u64 \<Rightarrow> kernel \<Rightarrow> kernel \<Rightarrow> bool" for tr where
  page_alloc: "page_alloc x86_ov tr frame ks = Some (rc_ok, va, ks') \<Longrightarrow> alloc_call tr va ks ks'"
| page_alloc_at: "page_alloc_at x86_ov tr va ks = Some (rc_ok, ks') \<Longrightarrow> alloc_call tr va ks ks'"
| page_alloc_after: "page_alloc_after x86_ov tr base frame ks = Some (rc_ok, va, ks') \<Longrightarrow> alloc_call tr va ks ks'"
| page_alloc_beyond_ex: "page_alloc_beyond_ex x86_ov tr base n frame ks = Some (rc_ok, va, ks') \<Longrightarrow> alloc_call tr va ks ks'"

inductive_cases alloc_callE: "alloc_call tr va ks ks'"

lemma alloc_call_maps:
  assumes "alloc_call tr va ks ks'"
  obtains r0 phys ks1 v where "alloc_physical x86_ov ks = Some (r0, phys, ks1)" "r0 \<noteq> rc_fail"
    "map_or_undo x86_ov tr va phys (ks1\<lparr>vmap := v\<rparr>) = Some (rc_ok, ks')"
  using assms
  by (elim alloc_callE) (auto simp: page_alloc_def page_alloc_at_def page_alloc_after_def page_alloc_beyond_ex_def Let_def bind_eq_Some_conv split: if_splits)

lemma alloc_call_ok:
  assumes "alloc_call tr va ks ks'" and "reserved_inv R A (mapper ks)" and "reached tr (offset (mapper ks)) A"
  shows "\<exists>phys. phys \<in> free_frames x86_ov (frames (mapper ks)) \<and> phys \<notin> R \<and> reserved_inv (insert phys R) A (mapper ks') \<and>
    same_regs (mapper ks) (mapper ks') \<and> lookup (mapper ks) (va_path va) = None \<and>
    (\<forall>js. length js = 4 \<longrightarrow> valid_path js \<longrightarrow>
       lookup (mapper ks') js = (if js = va_path va then Some phys else lookup (mapper ks) js))"
  using assms(1) by (rule alloc_call_maps) (use map_step [OF assms(2,3)] in blast)

lemma page_free_ok:
  assumes run: "page_free x86_ov ur tr va ks = Some ks'"
    and inv: "reserved_inv R A (mapper ks)" and tr: "reached tr (offset (mapper ks)) A"
    and mapped: "lookup (mapper ks) (va_path va) = Some f" and range: "va < offset (mapper ks) \<or> 0x0000FF8000000000 < va"
  shows "reserved_inv R A (mapper ks') \<and> same_regs (mapper ks) (mapper ks') \<and> frames (mapper ks') = frames (mapper ks) \<and>
    (\<forall>js. length js = 4 \<longrightarrow> valid_path js \<longrightarrow>
       lookup (mapper ks') js = (if js = va_path va then None else lookup (mapper ks) js))"
proof -
  from page_unmap_core [OF inv tr mapped range, of 0] obtain p where
    p: "page_unmap tr va 0 (mapper ks) = (None, 0, p)" "same_regs (mapper ks) p" "frames p = frames (mapper ks)"
    "reserved_inv R A p"
    "\<forall>js. length js = 4 \<longrightarrow> valid_path js \<longrightarrow> lookup p js = (if js = va_path va then None else lookup (mapper ks) js)" by blast
  have "mapper ks' = p" using run p(1) by (auto simp: page_free_def free_virtual_def Let_def split: if_splits)
  then show ?thesis using p(2-5) by simp
qed

section \<open>Runs\<close>

text \<open>\<open>manages tr ks0 owned ks\<close>: from \<open>ks0\<close> a run of successful allocations and of frees leads to \<open>ks\<close>, and \<open>owned\<close> are
  the pages allocated and not freed, each with the frame it was mapped to when it was allocated.\<close>

inductive manages :: "(u64 \<Rightarrow> u64) \<Rightarrow> kernel \<Rightarrow> (u64 \<times> u64) list \<Rightarrow> kernel \<Rightarrow> bool" for tr ks0 where
  start: "manages tr ks0 [] ks0"
| alloc: "manages tr ks0 owned ks \<Longrightarrow> alloc_call tr va ks ks' \<Longrightarrow> lookup (mapper ks') (va_path va) = Some phys \<Longrightarrow>
    manages tr ks0 ((va, phys) # owned) ks'"
| free: "manages tr ks0 owned ks \<Longrightarrow> (va, phys) \<in> set owned \<Longrightarrow>
    va < offset (mapper ks) \<or> 0x0000FF8000000000 < va \<Longrightarrow> page_free x86_ov ur tr va ks = Some ks' \<Longrightarrow>
    manages tr ks0 (filter (\<lambda>(w, _). va_path w \<noteq> va_path va) owned) ks'"

text \<open>The invariant of a run; \<open>R\<close> are the frames given out so far, those of freed pages included.\<close>

definition run_inv :: "u64 set \<Rightarrow> kernel \<Rightarrow> u64 set \<Rightarrow> (u64 \<times> u64) list \<Rightarrow> kernel \<Rightarrow> bool" where
  "run_inv A ks0 R owned ks \<longleftrightarrow> reserved_inv R A (mapper ks) \<and> same_regs (mapper ks0) (mapper ks) \<and>
     snd ` set owned \<subseteq> R \<and> distinct (map snd owned) \<and> distinct (map (\<lambda>x. va_path (fst x)) owned) \<and>
     (\<forall>(va, phys) \<in> set owned. lookup (mapper ks) (va_path va) = Some phys \<and> lookup (mapper ks0) (va_path va) = None) \<and>
     (\<forall>js. length js = 4 \<longrightarrow> valid_path js \<longrightarrow> js \<notin> (\<lambda>x. va_path (fst x)) ` set owned \<longrightarrow>
        lookup (mapper ks) js = lookup (mapper ks0) js)"

lemma va_path_valid: "length (va_path va) = 4 \<and> valid_path (va_path va)"
  using va_index_bounds [of va] by (simp add: va_path_def)

text \<open>The parts of the invariant.\<close>

lemma run_invD:
  assumes "run_inv A ks0 R owned ks"
  shows "reserved_inv R A (mapper ks)" "same_regs (mapper ks0) (mapper ks)" "snd ` set owned \<subseteq> R"
    "distinct (map snd owned)" "distinct (map (\<lambda>x. va_path (fst x)) owned)"
    "(w, p) \<in> set owned \<Longrightarrow> lookup (mapper ks) (va_path w) = Some p \<and> lookup (mapper ks0) (va_path w) = None"
    "length js = 4 \<Longrightarrow> valid_path js \<Longrightarrow> js \<notin> (\<lambda>x. va_path (fst x)) ` set owned \<Longrightarrow>
       lookup (mapper ks) js = lookup (mapper ks0) js"
  using assms unfolding run_inv_def by blast+

lemma run_invI:
  assumes "reserved_inv R A (mapper ks)" "same_regs (mapper ks0) (mapper ks)" "snd ` set owned \<subseteq> R"
    "distinct (map snd owned)" "distinct (map (\<lambda>x. va_path (fst x)) owned)"
    "\<And>w p. (w, p) \<in> set owned \<Longrightarrow> lookup (mapper ks) (va_path w) = Some p \<and> lookup (mapper ks0) (va_path w) = None"
    "\<And>js. length js = 4 \<Longrightarrow> valid_path js \<Longrightarrow> js \<notin> (\<lambda>x. va_path (fst x)) ` set owned \<Longrightarrow>
       lookup (mapper ks) js = lookup (mapper ks0) js"
  shows "run_inv A ks0 R owned ks"
  using assms unfolding run_inv_def by blast

lemma run_inv_alloc:
  assumes inv: "run_inv A ks0 R owned ks" and tr: "reached tr (offset (mapper ks)) A"
    and a: "alloc_call tr va ks ks'" and l: "lookup (mapper ks') (va_path va) = Some phys"
  shows "run_inv A ks0 (insert phys R) ((va, phys) # owned) ks' \<and> phys \<in> free_frames x86_ov (frames (mapper ks))"
proof -
  have res: "reserved_inv R A (mapper ks)" using inv by (simp add: run_inv_def)
  obtain f where
    f: "f \<in> free_frames x86_ov (frames (mapper ks))" "f \<notin> R" "reserved_inv (insert f R) A (mapper ks')"
      "same_regs (mapper ks) (mapper ks')" "lookup (mapper ks) (va_path va) = None"
    and all: "\<forall>js. length js = 4 \<longrightarrow> valid_path js \<longrightarrow>
      lookup (mapper ks') js = (if js = va_path va then Some f else lookup (mapper ks) js)"
    using alloc_call_ok [OF a res tr] by blast
  have look: "lookup (mapper ks') js = (if js = va_path va then Some f else lookup (mapper ks) js)"
    if "length js = 4" "valid_path js" for js using all that by blast
  note i = run_invD [OF inv]
  have phys: "f = phys" using look [of "va_path va"] l va_path_valid [of va] by simp
  have fresh: "va_path va \<noteq> va_path w" if "(w, p) \<in> set owned" for w p
    using i(6) [OF that] f(5) by auto
  have out: "va_path va \<notin> (\<lambda>x. va_path (fst x)) ` set owned" using fresh by force
  have old: "lookup (mapper ks0) (va_path va) = None"
    using i(7) [of "va_path va"] out f(5) va_path_valid [of va] by simp
  have "run_inv A ks0 (insert phys R) ((va, phys) # owned) ks'"
  proof (rule run_invI)
    show "reserved_inv (insert phys R) A (mapper ks')" using f(3) phys by simp
    show "same_regs (mapper ks0) (mapper ks')" by (rule same_regs_trans [OF i(2) f(4)])
    show "snd ` set ((va, phys) # owned) \<subseteq> insert phys R" using i(3) by auto
    show "distinct (map snd ((va, phys) # owned))" using i(3,4) f(2) phys by auto
    show "distinct (map (\<lambda>x. va_path (fst x)) ((va, phys) # owned))" using i(5) out by simp
    show "lookup (mapper ks') (va_path w) = Some p \<and> lookup (mapper ks0) (va_path w) = None"
      if "(w, p) \<in> set ((va, phys) # owned)" for w p
    proof (cases "(w, p) \<in> set owned")
      case True
      have "lookup (mapper ks') (va_path w) = lookup (mapper ks) (va_path w)"
        using look [of "va_path w"] va_path_valid [of w] not_sym [OF fresh [OF True]] by simp
      then show ?thesis using i(6) [OF True] by simp
    qed (use that l old in auto)
    show "lookup (mapper ks') js = lookup (mapper ks0) js"
      if "length js = 4" "valid_path js" "js \<notin> (\<lambda>x. va_path (fst x)) ` set ((va, phys) # owned)" for js
      using look [OF that(1,2)] i(7) [OF that(1,2)] that(3) by simp
  qed
  then show ?thesis using f(1) phys by simp
qed

lemma run_inv_free:
  assumes inv: "run_inv A ks0 R owned ks" and tr: "reached tr (offset (mapper ks)) A"
    and o: "(va, phys) \<in> set owned" and range: "va < offset (mapper ks) \<or> 0x0000FF8000000000 < va"
    and run: "page_free x86_ov ur tr va ks = Some ks'"
  shows "run_inv A ks0 R (filter (\<lambda>(w, _). va_path w \<noteq> va_path va) owned) ks'"
proof -
  let ?kept = "filter (\<lambda>(w, _). va_path w \<noteq> va_path va) owned"
  note i = run_invD [OF inv]
  have m: "lookup (mapper ks) (va_path va) = Some phys" and old: "lookup (mapper ks0) (va_path va) = None"
    using i(6) [OF o] by simp_all
  note pf = page_free_ok [OF run i(1) tr m range]
  then have f: "reserved_inv R A (mapper ks')" "same_regs (mapper ks) (mapper ks')" by blast+
  have look: "lookup (mapper ks') js = (if js = va_path va then None else lookup (mapper ks) js)"
    if "length js = 4" "valid_path js" for js using pf that by blast
  show ?thesis
  proof (rule run_invI)
    show "reserved_inv R A (mapper ks')" by (rule f(1))
    show "same_regs (mapper ks0) (mapper ks')" by (rule same_regs_trans [OF i(2) f(2)])
    show "snd ` set ?kept \<subseteq> R" using i(3) by auto
    show "distinct (map snd ?kept)" "distinct (map (\<lambda>x. va_path (fst x)) ?kept)"
      using i(4,5) by (simp_all add: distinct_map_filter)
    show "lookup (mapper ks') (va_path w) = Some p \<and> lookup (mapper ks0) (va_path w) = None"
      if "(w, p) \<in> set ?kept" for w p
      using look [of "va_path w"] va_path_valid [of w] i(6) [of w p] that by simp
    show "lookup (mapper ks') js = lookup (mapper ks0) js"
      if "length js = 4" "valid_path js" "js \<notin> (\<lambda>x. va_path (fst x)) ` set ?kept" for js
    proof (cases "js = va_path va")
      case False
      then have "js \<notin> (\<lambda>x. va_path (fst x)) ` set owned" using that(3) by force
      then show ?thesis using False look [OF that(1,2)] i(7) [OF that(1,2)] by simp
    qed (use look [OF that(1,2)] old in simp)
  qed
qed

lemma manages_inv:
  assumes run: "manages tr ks0 owned ks" and inv: "kernel_inv A (mapper ks0)" and tr: "reached tr (offset (mapper ks0)) A"
  shows "\<exists>R. run_inv A ks0 R owned ks"
  using run
proof induction
  case start
  have "reserved_inv {} A (mapper ks0)" using inv by (simp only: reserved_empty)
  then have "run_inv A ks0 {} [] ks0" by (simp add: run_inv_def)
  then show ?case by blast
next
  case (alloc owned ks va ks' phys)
  then obtain R where R: "run_inv A ks0 R owned ks" by blast
  then have "reached tr (offset (mapper ks)) A" using tr by (simp add: run_inv_def same_regs_def)
  then show ?case using run_inv_alloc [OF R _ alloc(2,3)] by blast
next
  case (free owned ks va phys ur ks')
  then obtain R where R: "run_inv A ks0 R owned ks" by blast
  then have "reached tr (offset (mapper ks)) A" using tr by (simp add: run_inv_def same_regs_def)
  then show ?case using run_inv_free [OF R _ free(2-4)] by blast
qed

text \<open>C1: after any run of successful page allocations and frees, no two allocated pages share a frame; every one is
  still mapped to the frame it got, which is neither a page table nor free; the page tables are a tree apart
  from the free frames; and no page outside the run is mapped differently than before.\<close>

theorem pages_isolated:
  assumes "manages tr ks0 owned ks" and "kernel_inv A (mapper ks0)" and "reached tr (offset (mapper ks0)) A"
  shows "distinct (map snd owned) \<and> distinct (map (\<lambda>x. va_path (fst x)) owned) \<and> kernel_inv A (mapper ks) \<and>
    (\<forall>(va, phys) \<in> set owned. lookup (mapper ks) (va_path va) = Some phys \<and>
       phys \<notin> tables (memory (mapper ks)) (current_pml4 (mapper ks)) \<and> phys \<notin> free_frames x86_ov (frames (mapper ks))) \<and>
    (\<forall>js. length js = 4 \<longrightarrow> valid_path js \<longrightarrow> js \<notin> (\<lambda>x. va_path (fst x)) ` set owned \<longrightarrow>
       lookup (mapper ks) js = lookup (mapper ks0) js)"
proof -
  from manages_inv [OF assms] obtain R where R: "run_inv A ks0 R owned ks" by blast
  note i = run_invD [OF R]
  have "lookup (mapper ks) (va_path va) = Some phys \<and> phys \<notin> tables (memory (mapper ks)) (current_pml4 (mapper ks)) \<and>
      phys \<notin> free_frames x86_ov (frames (mapper ks))" if "(va, phys) \<in> set owned" for va phys
    using reserved_out [OF i(1), of phys] i(3) i(6) [OF that] that by force
  then show ?thesis using i(4,5,7) reserved_kernel [OF i(1)] by blast
qed

section \<open>Witness\<close>

text \<open>Page 0 is mapped; the page at 0x2000 is allocated and freed again.\<close>

definition mapped_kernel :: kernel where
  "mapped_kernel = \<lparr>mapper = mapped_machine, vmap = two_map\<rparr>"

definition first_run :: "(rc \<times> kernel) option" where
  "first_run = page_alloc_at x86_ov small_tr 0x2000 mapped_kernel"

definition second_run :: "kernel option" where
  "second_run = do { (_, ks) \<leftarrow> first_run; page_free x86_ov rc_ok small_tr 0x2000 ks }"

lemma runs_evaluated:
  "map_option (\<lambda>(r, ks). (r, lookup (mapper ks) (va_path 0x2000), offset (mapper ks))) first_run =
     Some (rc_ok, Some 0x3F000, 0x8000000000)"
  "second_run \<noteq> None"
  by code_simp+

theorem pages_isolated_witness:
  "\<exists>ks ks'. manages small_tr mapped_kernel [(0x2000, 0x3F000)] ks \<and> manages small_tr mapped_kernel [] ks' \<and>
     page_free x86_ov rc_ok small_tr 0x2000 ks = Some ks' \<and> 0x3F000 \<notin> tables (memory (mapper ks)) (current_pml4 (mapper ks)) \<and>
     lookup (mapper ks) (va_path 0) = Some 0x5000"
proof -
  have at: "kernel_inv small_frames (mapper mapped_kernel)" "reached small_tr (offset (mapper mapped_kernel)) small_frames"
    using mapped_inv small_reached by (simp_all add: mapped_kernel_def mapped_machine_def small_machine_def)
  obtain ks where 1: "page_alloc_at x86_ov small_tr 0x2000 mapped_kernel = Some (rc_ok, ks)"
    "lookup (mapper ks) (va_path 0x2000) = Some 0x3F000" "offset (mapper ks) = 0x8000000000"
    using runs_evaluated(1) by (auto simp: first_run_def)
  obtain ks' where 2: "page_free x86_ov rc_ok small_tr 0x2000 ks = Some ks'"
    using runs_evaluated(2) 1 by (auto simp: second_run_def first_run_def)
  have m: "manages small_tr mapped_kernel [(0x2000, 0x3F000)] ks"
    by (rule alloc [OF start alloc_call.page_alloc_at [OF 1(1)] 1(2)])
  have "manages small_tr mapped_kernel (filter (\<lambda>(w, _). va_path w \<noteq> va_path 0x2000) [(0x2000, 0x3F000)]) ks'"
    by (rule free [OF m _ _ 2, of "0x3F000"]) (simp_all add: 1(3))
  then have m': "manages small_tr mapped_kernel [] ks'" by simp
  have p: "va_path 0 = [0, 0, 0, 0]" "va_path 0x2000 = [0, 0, 0, 2]" by (simp_all add: va_path_def va_index_take_bit)
  have "lookup (mapper mapped_kernel) (va_path 0) = Some 0x5000"
    by (simp add: p lookup_def mapped_kernel_def mapped_machine_def small_machine_def PRESENT_FLAG_def ADDR_MASK_def)
  moreover have "length (va_path 0) = 4" "valid_path (va_path 0)" using va_path_valid [of 0] by simp_all
  ultimately show ?thesis using pages_isolated [OF m at] m m' 2 p by auto
qed

end
