(* ===== verification/Page_Init.thy ===== *)
theory Page_Init
  imports Page_Alloc
begin

text \<open>
  \<open>page_allocator_init\<close> of \<open>kernel/kernel/memory.c\<close>: it chooses a place for the bitmap in the
  memory map of the firmware, marks the free pages, and sets up the virtual address map.

  \<open>sov w n\<close> is what \<open>w >> n\<close> gives for a count of 64 or more, which C leaves undefined. \<open>un\<close> is the
  value of the local variable that is passed to \<open>page_physical_free\<close> without having been set.
\<close>

section \<open>What the bootloader hands over\<close>

record efi_memory_descriptor =
  mem_type :: u32
  physical_start :: u64
  number_of_pages :: u64

record boot_table =
  mapping_base :: u64
  font_pointer :: u64
  kernel_start_pointer :: u64
  kernel_page_count :: u64
  pml4_pointer :: u64
  used_mapping_page_count :: u64

text \<open>\<open>EfiLoaderCode\<close>, \<open>EfiLoaderData\<close>, \<open>EfiBootServicesCode\<close>, \<open>EfiBootServicesData\<close>,
  \<open>EfiConventionalMemory\<close>.\<close>

definition usable_type :: "u32 \<Rightarrow> bool" where
  "usable_type t \<longleftrightarrow> t = 1 \<or> t = 2 \<or> t = 3 \<or> t = 4 \<or> t = 7"

definition required_pages :: u64 where
  "required_pages = 32"

section \<open>Choosing the place of the bitmap\<close>

record choice =
  descriptors :: "efi_memory_descriptor list"
  page_bitmap_at :: u64
  reserved_pages :: u64
  reserved_index :: nat
  font_to_do :: bool
  kernel_to_do :: bool

definition retype :: "nat \<Rightarrow> u32 \<Rightarrow> choice \<Rightarrow> choice" where
  "retype i t c = c\<lparr>descriptors := (descriptors c)[i := (descriptors c ! i)\<lparr>mem_type := t\<rparr>]\<rparr>"

text \<open>One turn of the first loop, with the two type corrections, which are never to do.\<close>

definition choose_step :: "boot_table \<Rightarrow> nat \<Rightarrow> choice \<Rightarrow> choice" where
  "choose_step bt i c =
     (let d = descriptors c ! i;
          c = (if physical_start d \<le> font_pointer bt \<and> font_to_do c
               then (retype i 0x12 c)\<lparr>font_to_do := False\<rparr> else c);
          c = (if physical_start d \<le> kernel_start_pointer bt \<and> kernel_to_do c
               then (retype i 0x12 c)\<lparr>kernel_to_do := False\<rparr> else c);
          d = descriptors c ! i
      in if usable_type (mem_type d) \<and> required_pages \<le> number_of_pages d \<and>
            number_of_pages d < reserved_pages c
         then c\<lparr>page_bitmap_at := physical_start d, reserved_pages := number_of_pages d,
                reserved_index := i\<rparr>
         else c)"

text \<open>\<open>None\<close> when no region is large enough; otherwise the region gets type \<open>0x11\<close>.\<close>

definition choose_bitmap :: "boot_table \<Rightarrow> u64 \<Rightarrow> efi_memory_descriptor list \<Rightarrow> choice option" where
  "choose_bitmap bt old descs =
     (let c = fold (choose_step bt) [0..<length descs]
        \<lparr>descriptors = descs, page_bitmap_at = old, reserved_pages = - 1, reserved_index = 0,
          font_to_do = False, kernel_to_do = False\<rparr>
      in if reserved_pages c = - 1 then None else Some (retype (reserved_index c) 0x11 c))"

section \<open>Marking the free pages\<close>

definition c_shr :: "(u64 \<Rightarrow> nat \<Rightarrow> u64) \<Rightarrow> u64 \<Rightarrow> nat \<Rightarrow> u64" where
  "c_shr sov w n = (if n < 64 then drop_bit n w else sov w n)"

text \<open>
  One page: \<open>d->physical_start >> 12 + i\<close> is a shift by \<open>12 + i\<close>. A store outside the bitmap is
  \<open>None\<close>.
\<close>

definition clear_page_bit ::
    "(nat \<Rightarrow> u64) \<Rightarrow> (u64 \<Rightarrow> nat \<Rightarrow> u64) \<Rightarrow> u64 \<Rightarrow> nat \<Rightarrow> bitmap \<Rightarrow> bitmap option" where
  "clear_page_bit ov sov start i bm =
     (let addr = c_shr sov start (12 + i);
          bitmap_index = unat (drop_bit 6 addr);
          bitmap_offset = unat (addr AND 63)
      in if bitmap_index < length bm
         then Some (bm[bitmap_index := bm ! bitmap_index AND NOT (c_one_shl ov bitmap_offset)])
         else None)"

fun clear_page_bits ::
    "(nat \<Rightarrow> u64) \<Rightarrow> (u64 \<Rightarrow> nat \<Rightarrow> u64) \<Rightarrow> u64 \<Rightarrow> nat list \<Rightarrow> bitmap \<Rightarrow> bitmap option" where
  "clear_page_bits ov sov start [] bm = Some bm"
| "clear_page_bits ov sov start (i # is) bm =
     do { bm \<leftarrow> clear_page_bit ov sov start i bm; clear_page_bits ov sov start is bm }"

definition mark_descriptor ::
    "(nat \<Rightarrow> u64) \<Rightarrow> (u64 \<Rightarrow> nat \<Rightarrow> u64) \<Rightarrow> boot_table \<Rightarrow> efi_memory_descriptor \<Rightarrow> bitmap \<Rightarrow> bitmap option" where
  "mark_descriptor ov sov bt d bm =
     (let from_page = (\<lambda>n. clear_page_bits ov sov (physical_start d) [unat n..<unat (number_of_pages d)] bm)
      in if mem_type d = 0x10 then from_page (used_mapping_page_count bt)
         else if mem_type d = 0x11 then from_page required_pages
         else if usable_type (mem_type d) then from_page 0
         else Some bm)"

fun mark_descriptors ::
    "(nat \<Rightarrow> u64) \<Rightarrow> (u64 \<Rightarrow> nat \<Rightarrow> u64) \<Rightarrow> boot_table \<Rightarrow> efi_memory_descriptor list \<Rightarrow> bitmap \<Rightarrow> bitmap option" where
  "mark_descriptors ov sov bt [] bm = Some bm"
| "mark_descriptors ov sov bt (d # ds) bm =
     do { bm \<leftarrow> mark_descriptor ov sov bt d bm; mark_descriptors ov sov bt ds bm }"

definition full_bitmap :: bitmap where
  "full_bitmap = replicate (unat (push_bit 9 required_pages)) (- 1)"

section \<open>The virtual address map\<close>

text \<open>The loops \<open>while (result == 1)\<close>: the result, the kernel and the counter.\<close>

partial_function (option) map_past_busy ::
    "(nat \<Rightarrow> u64) \<Rightarrow> (u64 \<Rightarrow> u64) \<Rightarrow> boot_table \<Rightarrow> u64 \<Rightarrow> rc \<Rightarrow> u64 \<Rightarrow> kernel \<Rightarrow> (rc \<times> u64 \<times> kernel) option" where
  "map_past_busy ov tr bt phys result i ks =
     (if result = rc_busy
      then do {
        (result, ks) \<leftarrow> map_physical ov tr (kernel_start_pointer bt + push_bit 12 (kernel_page_count bt + i)) phys ks;
        map_past_busy ov tr bt phys result (i + 1) ks }
      else Some (result, i, ks))"

declare map_past_busy.simps [code]

definition map_next_page ::
    "(nat \<Rightarrow> u64) \<Rightarrow> (u64 \<Rightarrow> u64) \<Rightarrow> boot_table \<Rightarrow> u64 \<Rightarrow> u64 \<Rightarrow> kernel \<Rightarrow> (rc \<times> u64 \<times> kernel) option" where
  "map_next_page ov tr bt phys i ks =
     do { (result, ks) \<leftarrow> map_physical ov tr (kernel_start_pointer bt + push_bit 12 (kernel_page_count bt)) phys ks;
       map_past_busy ov tr bt phys result i ks }"

definition unmap_page :: "(u64 \<Rightarrow> u64) \<Rightarrow> u64 \<Rightarrow> kernel \<Rightarrow> kernel" where
  "unmap_page tr va ks = ks\<lparr>mapper := snd (snd (page_unmap tr va 0 (mapper ks)))\<rparr>"

text \<open>The address of the page of nodes, from the counter of the first loop.\<close>

definition map_address :: "boot_table \<Rightarrow> u64 \<Rightarrow> u64" where
  "map_address bt i = kernel_start_pointer bt + push_bit 12 (kernel_page_count bt + i - 1)"

definition init_virtual ::
    "(nat \<Rightarrow> u64) \<Rightarrow> (u64 \<Rightarrow> u64) \<Rightarrow> u64 \<Rightarrow> boot_table \<Rightarrow> kernel \<Rightarrow> (rc \<times> kernel) option" where
  "init_virtual ov tr un bt ks =
     do { (r, map_phys, ks) \<leftarrow> alloc_physical ov ks;
       (if r = rc_fail then Some (rc_fail, ks) else do {
       (r, i, ks) \<leftarrow> map_next_page ov tr bt map_phys 0 ks;
       (if r = rc_fail then Some (rc_fail, free_physical ov map_phys ks) else do {
       let va = map_address bt i;
       (r, bits_phys, ks) \<leftarrow> alloc_physical ov ks;
       (if r = rc_fail then Some (rc_fail, free_physical ov un (unmap_page tr va ks)) else do {
       (r, i, ks) \<leftarrow> map_next_page ov tr bt bits_phys i ks;
       (if r = rc_fail
        then Some (rc_fail, free_physical ov bits_phys (free_physical ov un (unmap_page tr va ks)))
        else Some (rc_ok, ks\<lparr>vmap := init_virtual_map ov (mapping_base bt) va (vmap ks)\<rparr>)) }) }) }) }"

section \<open>The whole\<close>

definition page_allocator_init ::
    "(nat \<Rightarrow> u64) \<Rightarrow> (u64 \<Rightarrow> nat \<Rightarrow> u64) \<Rightarrow> (u64 \<Rightarrow> u64) \<Rightarrow> u64 \<Rightarrow> boot_table \<Rightarrow> efi_memory_descriptor list \<Rightarrow>
     u64 \<Rightarrow> kernel \<Rightarrow> (rc \<times> kernel) option" where
  "page_allocator_init ov sov tr un bt descs old_bitmap ks =
     (case choose_bitmap bt old_bitmap descs of
        None \<Rightarrow> Some (rc_fail, ks)
      | Some c \<Rightarrow> do {
          bm \<leftarrow> mark_descriptors ov sov bt (descriptors c) full_bitmap;
          let p = snd (page_mapper_init (mapping_base bt) (pml4_pointer bt) (mapper ks));
          init_virtual ov tr un bt (set_frames bm (ks\<lparr>mapper := p\<rparr>)) })"

section \<open>Properties\<close>

text \<open>A region the bitmap could go to.\<close>

definition candidate :: "efi_memory_descriptor \<Rightarrow> bool" where
  "candidate d \<longleftrightarrow> usable_type (mem_type d) \<and> 32 \<le> unat (number_of_pages d) \<and> number_of_pages d \<noteq> - 1"

definition choice_inv :: "efi_memory_descriptor list \<Rightarrow> nat \<Rightarrow> choice \<Rightarrow> bool" where
  "choice_inv ds n c \<longleftrightarrow> descriptors c = ds \<and> \<not> font_to_do c \<and> \<not> kernel_to_do c \<and>
     (if reserved_pages c = - 1 then \<forall>j < n. \<not> candidate (ds ! j)
      else reserved_index c < n \<and> candidate (ds ! reserved_index c) \<and>
        reserved_pages c = number_of_pages (ds ! reserved_index c) \<and>
        page_bitmap_at c = physical_start (ds ! reserved_index c) \<and>
        (\<forall>j < n. candidate (ds ! j) \<longrightarrow> reserved_pages c \<le> number_of_pages (ds ! j)))"

lemma choose_step_inv:
  assumes "choice_inv ds n c"
  shows "choice_inv ds (Suc n) (choose_step bt n c)"
proof -
  let ?d = "ds ! n"
  have c: "descriptors c = ds" "\<not> font_to_do c" "\<not> kernel_to_do c" using assms by (simp_all add: choice_inv_def)
  have step: "choose_step bt n c =
      (if usable_type (mem_type ?d) \<and> required_pages \<le> number_of_pages ?d \<and> number_of_pages ?d < reserved_pages c
       then c\<lparr>page_bitmap_at := physical_start ?d, reserved_pages := number_of_pages ?d, reserved_index := n\<rparr>
       else c)"
    by (simp add: choose_step_def c Let_def)
  have max: "w < - 1 \<longleftrightarrow> w \<noteq> - 1" for w :: u64
    using word_n1_ge [of w] by (auto simp: order.order_iff_strict)
  have req: "required_pages \<le> w \<longleftrightarrow> 32 \<le> unat w" for w
    by (simp add: required_pages_def word_le_nat_alt)
  show ?thesis
  proof (cases "usable_type (mem_type ?d) \<and> required_pages \<le> number_of_pages ?d \<and> number_of_pages ?d < reserved_pages c")
    case True
    then have n1: "number_of_pages ?d \<noteq> - 1" using word_n1_ge [of "reserved_pages c"] by auto
    then have cand: "candidate ?d" using True by (simp add: candidate_def req)
    have le: "number_of_pages ?d \<le> number_of_pages (ds ! j)" if "j < Suc n" "candidate (ds ! j)" for j
      using that True assms by (auto simp: choice_inv_def less_Suc_eq split: if_splits)
    show ?thesis
      unfolding step using True n1 cand le c by (simp add: choice_inv_def)
  next
    case False
    have cd: "reserved_pages c \<noteq> - 1 \<and> reserved_pages c \<le> number_of_pages ?d" if cand: "candidate ?d"
    proof -
      have "usable_type (mem_type ?d)" "required_pages \<le> number_of_pages ?d" "number_of_pages ?d < - 1"
        using cand unfolding candidate_def req max by blast+
      with False have "\<not> number_of_pages ?d < reserved_pages c" by blast
      with \<open>number_of_pages ?d < - 1\<close> show ?thesis by (metis not_le)
    qed
    have "choice_inv ds (Suc n) c"
    proof (cases "reserved_pages c = - 1")
      case True
      then have "\<not> candidate ?d" using cd by blast
      then show ?thesis using assms True by (simp add: choice_inv_def less_Suc_eq)
    next
      case False
      then show ?thesis using assms cd by (auto simp: choice_inv_def less_Suc_eq)
    qed
    then show ?thesis unfolding step if_not_P [OF False] .
  qed
qed

lemma choose_loop_inv:
  "n \<le> length ds \<Longrightarrow> choice_inv ds 0 c \<Longrightarrow> choice_inv ds n (fold (choose_step bt) [0..<n] c)"
  by (induction n) (simp_all add: choose_step_inv)

text \<open>C32: the bitmap goes to the smallest usable region of the firmware's memory map that has 32
  pages, and initialisation fails here exactly when there is no such region. The chosen region, and
  no other, is retyped.\<close>

theorem init_choice:
  "case choose_bitmap bt old ds of
     None \<Rightarrow> \<forall>d \<in> set ds. \<not> candidate d
   | Some c \<Rightarrow> \<exists>i < length ds. candidate (ds ! i) \<and> page_bitmap_at c = physical_start (ds ! i) \<and>
       (\<forall>d \<in> set ds. candidate d \<longrightarrow> number_of_pages (ds ! i) \<le> number_of_pages d) \<and>
       descriptors c = ds[i := (ds ! i)\<lparr>mem_type := 0x11\<rparr>]"
proof -
  let ?c0 = "\<lparr>descriptors = ds, page_bitmap_at = old, reserved_pages = - 1, reserved_index = 0,
      font_to_do = False, kernel_to_do = False\<rparr>"
  define c where "c = fold (choose_step bt) [0..<length ds] ?c0"
  have "choice_inv ds 0 ?c0" by (simp add: choice_inv_def)
  then have inv: "choice_inv ds (length ds) c" unfolding c_def by (intro choose_loop_inv) simp_all
  have e: "choose_bitmap bt old ds =
      (if reserved_pages c = - 1 then None else Some (retype (reserved_index c) 0x11 c))"
    unfolding choose_bitmap_def c_def Let_def by (rule refl)
  show ?thesis
  proof (cases "reserved_pages c = - 1")
    case True
    then show ?thesis using inv by (auto simp: e choice_inv_def in_set_conv_nth)
  next
    case False
    then show ?thesis
      unfolding e if_not_P [OF False] option.case
      using inv by (intro exI [of _ "reserved_index c"]) (auto simp: choice_inv_def retype_def in_set_conv_nth)
  qed
qed

lemma clear_page_bits_append:
  "clear_page_bits ov sov start (is @ js) bm =
     Option.bind (clear_page_bits ov sov start is bm) (clear_page_bits ov sov start js)"
  by (induction "is" arbitrary: bm) (auto split: Option.bind_splits)

lemma clear_low_bit:
  assumes "p < 31" "i < 52" "bm \<noteq> []"
  shows "clear_page_bit ov sov (of_nat (p * 4096)) i bm =
    Some (bm[0 := bm ! 0 AND NOT (push_bit (p div 2 ^ i) 1)])"
proof -
  have "unat (of_nat (p * 4096) :: u64) = p * 4096" using assms(1) by (intro unat_of_nat_u64) simp
  then have "unat (drop_bit (12 + i) (of_nat (p * 4096) :: u64)) = p * 4096 div 2 ^ (12 + i)"
    by (simp only: unat_drop_bit_div)
  also have "\<dots> = p div 2 ^ i" by (simp add: power_add div_mult2_eq)
  finally have a: "unat (c_shr sov (of_nat (p * 4096)) (12 + i)) = p div 2 ^ i"
    using assms(2) by (simp add: c_shr_def)
  have small: "p div 2 ^ i < 31" using assms(1) by (meson div_le_dividend le_less_trans)
  have "unat (drop_bit 6 (c_shr sov (of_nat (p * 4096)) (12 + i))) = 0"
    using small by (simp only: unat_drop_bit_div a) simp
  moreover have "unat (c_shr sov (of_nat (p * 4096)) (12 + i) AND 63) = p div 2 ^ i"
    using small unat_and_low [of "c_shr sov (of_nat (p * 4096)) (12 + i)"] a by simp
  ultimately show ?thesis
    using assms(3) c_one_shl_push [OF small] by (simp add: clear_page_bit_def Let_def)
qed



text \<open>When the page after the kernel is free, as it is meant to be, the page for the nodes is
  mapped there, at \<open>kernel_page_count\<close> pages after the kernel's start, but
  \<open>virtual_address_map\<close> is set one page lower: the nodes are written over the last page of the
  kernel.\<close>

theorem init_map_address_off:
  assumes "map_physical ov tr (kernel_start_pointer bt + push_bit 12 (kernel_page_count bt)) phys ks = Some (rc_ok, ks')"
  shows "map_next_page ov tr bt phys 0 ks = Some (rc_ok, 0, ks') \<and>
    map_address bt 0 + PAGE = kernel_start_pointer bt + push_bit 12 (kernel_page_count bt)"
proof -
  have "map_next_page ov tr bt phys 0 ks = Some (rc_ok, 0, ks')"
    using assms by (simp add: map_next_page_def) (subst map_past_busy.simps, simp)
  then show ?thesis by (simp add: map_address_def push_bit_eq_mult algebra_simps)
qed

lemma maps_next: "\<exists>ks'. map_physical x86_ov small_tr 0x1000 0x7000 \<lparr>mapper = mapped_machine, vmap = two_map\<rparr> = Some (rc_ok, ks')"
proof -
  have p: "VA_GET_PML4_INDEX 0x1000 = 0" "VA_GET_PDP_INDEX 0x1000 = 0" "VA_GET_PD_INDEX 0x1000 = 0" "VA_GET_PT_INDEX 0x1000 = 1"
    by (simp_all add: VA_GET_PML4_INDEX_def VA_GET_PDP_INDEX_def VA_GET_PD_INDEX_def VA_GET_PT_INDEX_def)
  have e: "ensure_table al small_tr (0x8000040000) 0 mapped_machine = Some (rc_ok, mapped_machine)"
    "ensure_table al small_tr (0x8000041000) 0 mapped_machine = Some (rc_ok, mapped_machine)"
    "ensure_table al small_tr (0x8000042000) 0 mapped_machine = Some (rc_ok, mapped_machine)"
    "next_table small_tr 0x8000040000 0 mapped_machine = 0x8000041000"
    "next_table small_tr 0x8000041000 0 mapped_machine = 0x8000042000"
    "next_table small_tr 0x8000042000 0 mapped_machine = 0x8000043000"
    "read_entry small_tr 0x8000043000 1 mapped_machine = 0"
    "current_pml4 mapped_machine + offset mapped_machine = 0x8000040000" for al
    by (simp_all add: ensure_table_def next_table_def read_entry_def entry_addr_def small_tr_def
        mapped_machine_def small_machine_def PRESENT_FLAG_def ADDR_MASK_def)
  show ?thesis
    by (simp add: map_physical_def page_map_def p e set_leaf_def Let_def)
qed

theorem init_map_address_off_witness:
  "\<exists>ks'. map_next_page x86_ov small_tr \<lparr>mapping_base = 0, font_pointer = 0, kernel_start_pointer = 0,
     kernel_page_count = 1, pml4_pointer = 0x40000, used_mapping_page_count = 0\<rparr> 0x7000 0
     \<lparr>mapper = mapped_machine, vmap = two_map\<rparr> = Some (rc_ok, 0, ks')"
proof -
  let ?bt = "\<lparr>mapping_base = 0, font_pointer = 0, kernel_start_pointer = 0,
     kernel_page_count = 1, pml4_pointer = 0x40000, used_mapping_page_count = 0\<rparr>"
  have v: "kernel_start_pointer ?bt + push_bit 12 (kernel_page_count ?bt) = 0x1000" by (simp add: push_bit_eq_mult)
  obtain ks' where "map_physical x86_ov small_tr 0x1000 0x7000 \<lparr>mapper = mapped_machine, vmap = two_map\<rparr> = Some (rc_ok, ks')"
    using maps_next by blast
  from init_map_address_off [of x86_ov small_tr ?bt "0x7000", unfolded v, OF this] show ?thesis by blast
qed

definition small_map :: "efi_memory_descriptor list" where
  "small_map = [\<lparr>mem_type = 7, physical_start = 0x1000, number_of_pages = 16\<rparr>,
     \<lparr>mem_type = 7, physical_start = 0x100000, number_of_pages = 0x800\<rparr>,
     \<lparr>mem_type = 2, physical_start = 0x900000, number_of_pages = 64\<rparr>,
     \<lparr>mem_type = 0, physical_start = 0xA00000, number_of_pages = 48\<rparr>]"

theorem init_choice_witness:
  "\<exists>c. choose_bitmap \<lparr>mapping_base = 0, font_pointer = 0, kernel_start_pointer = 0, kernel_page_count = 1,
     pml4_pointer = 0, used_mapping_page_count = 0\<rparr> 0 small_map = Some c \<and> page_bitmap_at c = 0x900000 \<and>
     map mem_type (descriptors c) = [7, 7, 0x11, 0]"
proof -
  let ?bt = "\<lparr>mapping_base = 0, font_pointer = 0, kernel_start_pointer = 0, kernel_page_count = 1,
     pml4_pointer = 0, used_mapping_page_count = 0\<rparr>" and ?old = "0 :: u64"
  have d: "candidate (small_map ! i) \<longleftrightarrow> i = 1 \<or> i = 2" if "i < 4" for i
  proof -
    from that have "i = 0 \<or> i = 1 \<or> i = 2 \<or> i = 3" by auto
    then show ?thesis by (auto simp: candidate_def usable_type_def small_map_def)
  qed
  have l: "length small_map = 4" by (simp add: small_map_def)
  then have mem: "small_map ! 1 \<in> set small_map" "small_map ! 2 \<in> set small_map" by simp_all
  have "choose_bitmap ?bt ?old small_map \<noteq> None"
    using init_choice [of small_map ?bt ?old] mem(2) d [of 2] by (auto split: option.splits)
  then obtain c where c: "choose_bitmap ?bt ?old small_map = Some c" by auto
  from init_choice [of small_map ?bt ?old] obtain i where i: "i < 4" "candidate (small_map ! i)"
    "page_bitmap_at c = physical_start (small_map ! i)"
    "\<forall>d \<in> set small_map. candidate d \<longrightarrow> number_of_pages (small_map ! i) \<le> number_of_pages d"
    "descriptors c = small_map[i := (small_map ! i)\<lparr>mem_type := 0x11\<rparr>]"
    unfolding c l option.case by blast
  have "number_of_pages (small_map ! i) \<le> number_of_pages (small_map ! 2)" using i(4) mem(2) d [of 2] by auto
  moreover have "i = 1 \<or> i = 2" using d i(1,2) by blast
  ultimately have "i = 2" by (auto simp: small_map_def)
  with c i(3,5) show ?thesis by (simp add: small_map_def)
qed

end
