(* ===== verification/Bytes.thy ===== *)
theory Bytes
  imports LibC_String
begin

text \<open>
  Little-endian fields of a structure in byte memory: what the compiler makes of a store to, or a
  read of, a 16-, 32- or 64-bit member. Used for the descriptor tables of the processor and for
  the headers of the font and of the kernel file.
\<close>

section \<open>Stores and reads\<close>

definition put8 :: "u64 \<Rightarrow> u8 \<Rightarrow> byte_mem \<Rightarrow> byte_mem" where
  "put8 a v m = m(a := v)"

definition put16 :: "u64 \<Rightarrow> u16 \<Rightarrow> byte_mem \<Rightarrow> byte_mem" where
  "put16 a v m = m(a := ucast v, a + 1 := ucast (drop_bit 8 v))"

definition put32 :: "u64 \<Rightarrow> u32 \<Rightarrow> byte_mem \<Rightarrow> byte_mem" where
  "put32 a v m = put16 (a + 2) (ucast (drop_bit 16 v)) (put16 a (ucast v) m)"

definition get16 :: "byte_mem \<Rightarrow> u64 \<Rightarrow> u16" where
  "get16 m a = ucast (m a) OR push_bit 8 (ucast (m (a + 1)))"

definition get32 :: "byte_mem \<Rightarrow> u64 \<Rightarrow> u32" where
  "get32 m a = ucast (get16 m a) OR push_bit 16 (ucast (get16 m (a + 2)))"

definition get64 :: "byte_mem \<Rightarrow> u64 \<Rightarrow> u64" where
  "get64 m a = ucast (get32 m a) OR push_bit 32 (ucast (get32 m (a + 4)))"

section \<open>What a read sees of a store\<close>

lemma join_halves16: "(ucast (ucast v :: u8) :: u16) OR push_bit 8 (ucast (ucast (drop_bit 8 v) :: u8)) = v"
  for v :: u16
  by (rule bit_word_eqI) (auto simp: bit_simps)

lemma join_halves32: "(ucast (ucast v :: u16) :: u32) OR push_bit 16 (ucast (ucast (drop_bit 16 v) :: u16)) = v"
  for v :: u32
  by (rule bit_word_eqI) (auto simp: bit_simps)

lemma add_eq_iff_diff: "a + b = a + c \<longleftrightarrow> b = c" for a b c :: u64
  by simp

lemma put8_at: "put8 a v m x = (if x = a then v else m x)"
  by (simp add: put8_def)

lemma put16_at:
  "put16 a v m x = (if x = a + 1 then ucast (drop_bit 8 v) else if x = a then ucast v else m x)"
  by (simp add: put16_def)

lemma put32_at:
  "put32 a v m x =
    (if x = a + 3 then ucast (drop_bit 24 v) else if x = a + 2 then ucast (drop_bit 16 v)
     else if x = a + 1 then ucast (drop_bit 8 v) else if x = a then ucast v else m x)"
proof -
  have "ucast (drop_bit 8 (ucast (drop_bit 16 v) :: u16)) = (ucast (drop_bit 24 v) :: u8)"
    "ucast (ucast (drop_bit 16 v) :: u16) = (ucast (drop_bit 16 v) :: u8)"
    "ucast (drop_bit 8 (ucast v :: u16)) = (ucast (drop_bit 8 v) :: u8)"
    "ucast (ucast v :: u16) = (ucast v :: u8)"
    by (rule bit_word_eqI; auto simp: bit_simps)+
  then show ?thesis by (auto simp: put32_def put16_at)
qed

lemmas put_at = put8_at put16_at put32_at

lemma get16_put16 [simp]: "get16 (put16 a v m) a = v"
  using join_halves16 [of v] by (simp add: get16_def put16_at)

lemma get32_put32 [simp]: "get32 (put32 a v m) a = v"
proof -
  have "get16 (put16 (a + 2) (ucast (drop_bit 16 v)) (put16 a (ucast v) m)) a = ucast v"
    using join_halves16 [of "ucast v"] by (simp add: get16_def put16_at)
  then show ?thesis using join_halves32 [of v] by (simp add: get32_def put32_def)
qed

lemma get32_apart: "get32 (put32 (a + 4) v m) a = get32 m a"
  by (simp add: get32_def get16_def put32_at add.assoc)

lemma join_halves64: "(ucast (ucast v :: u32) :: u64) OR push_bit 32 (ucast (ucast (drop_bit 32 v) :: u32)) = v"
  for v :: u64
  by (rule bit_word_eqI) (auto simp: bit_simps)

lemma get64_halves: "get64 (put32 (a + 4) (ucast (drop_bit 32 v)) (put32 a (ucast v) m)) a = v"
  using join_halves64 [of v] by (simp add: get64_def get32_apart)

lemma get16_cong: "m a = m' a \<Longrightarrow> m (a + 1) = m' (a + 1) \<Longrightarrow> get16 m a = get16 m' a"
  by (simp add: get16_def)

end
