(* ===== verification/Descriptors.thy ===== *)
theory Descriptors
  imports Bytes
begin

text \<open>
  The descriptor tables of the processor: \<open>kernel/arch/x86_64/gdt.c\<close> and the table part of
  \<open>kernel/arch/x86_64/interrupts.c\<close>. The tables are byte memory; \<open>gdt\<close>, \<open>tss\<close>, \<open>stack\<close>, \<open>idt\<close> and
  the handlers are the addresses of the objects of the source. The assembly that loads the
  registers is not modelled: its arguments are results.
\<close>

section \<open>The global descriptor table\<close>

text \<open>\<open>struct gdt_entry_t\<close>: limit_low 0, base_low 2, base_mid 4, access 5, granularity 6, base_high 7.\<close>

definition gdt_set_entry ::
    "u64 \<Rightarrow> u32 \<Rightarrow> u32 \<Rightarrow> u32 \<Rightarrow> u8 \<Rightarrow> u8 \<Rightarrow> byte_mem \<Rightarrow> byte_mem" where
  "gdt_set_entry gdt idx base limit access gran m =
     (let e = gdt + 8 * ucast idx;
          m = put16 (e + 2) (ucast (base AND 0xFFFF)) m;
          m = put8 (e + 4) (ucast (drop_bit 16 base AND 0xFF)) m;
          m = put8 (e + 7) (ucast (drop_bit 24 base AND 0xFF)) m;
          m = put16 e (ucast (limit AND 0xFFFF)) m;
          m = put8 (e + 6) (ucast (drop_bit 16 limit AND 0x0F)) m;
          m = put8 (e + 6) (m (e + 6) OR (gran AND 0xF0)) m
      in put8 (e + 5) access m)"

text \<open>\<open>struct gdt_entry_long_t\<close> over two entries: base_high 8, mbz 12.\<close>

definition gdt_set_entry_long ::
    "u64 \<Rightarrow> u32 \<Rightarrow> u64 \<Rightarrow> u32 \<Rightarrow> u8 \<Rightarrow> u8 \<Rightarrow> byte_mem \<Rightarrow> byte_mem" where
  "gdt_set_entry_long gdt idx base limit access gran m =
     (let e = gdt + 8 * ucast idx;
          m = put32 (e + 12) 0 m;
          m = put16 (e + 2) (ucast (base AND 0xFFFF)) m;
          m = put8 (e + 4) (ucast (drop_bit 16 base AND 0xFF)) m;
          m = put8 (e + 7) (ucast (drop_bit 24 base AND 0xFF)) m;
          m = put32 (e + 8) (ucast (drop_bit 32 base)) m;
          m = put16 e (ucast (limit AND 0xFFFF)) m;
          m = put8 (e + 6) (ucast (drop_bit 16 limit AND 0x0F)) m;
          m = put8 (e + 6) (m (e + 6) OR (gran AND 0xF0)) m
      in put8 (e + 5) access m)"

text \<open>\<open>struct tss_t\<close> has 104 bytes; \<open>ist\<close> starts at byte 36.\<close>

definition write_tss :: "u64 \<Rightarrow> u64 \<Rightarrow> byte_mem \<Rightarrow> byte_mem" where
  "write_tss tss stack m =
     put32 (tss + 40) (ucast (drop_bit 32 stack)) (put32 (tss + 36) (ucast (stack AND 0xFFFFFFFF)) m)"

definition TSS_GDT_IDX :: u32 where "TSS_GDT_IDX = 5"

text \<open>
  The result code, the arguments of \<open>set_gdt\<close> and of \<open>set_tss\<close>, and the memory.
\<close>

definition load_gdt ::
    "u64 \<Rightarrow> u64 \<Rightarrow> u64 \<Rightarrow> byte_mem \<Rightarrow> rc \<times> (u64 \<times> u64) \<times> u64 \<times> byte_mem" where
  "load_gdt gdt tss stack m =
     (let m = gdt_set_entry gdt 0 0 0 0 0 m;
          m = gdt_set_entry gdt 1 0 0xFFFFFFFF 0x9A 0xAF m;
          m = gdt_set_entry gdt 2 0 0xFFFFFFFF 0x92 0xAF m;
          m = gdt_set_entry gdt 3 0 0xFFFFFFFF 0xFA 0xAF m;
          m = gdt_set_entry gdt 4 0 0xFFFFFFFF 0xF2 0xAF m;
          m = gdt_set_entry_long gdt TSS_GDT_IDX tss 104 0x89 0x40 m;
          m = write_tss tss stack m
      in (rc_ok, (gdt, 8 * 7 - 1), ucast TSS_GDT_IDX * 8, m))"

section \<open>The interrupt descriptor table\<close>

text \<open>
  \<open>struct idt_entry\<close>: target_offset_15_0 0, target_selector 2, interrupt_stack_table 4,
  type_attributes 5, target_offset_31_16 6, target_offset_63_32 8, _reserved 12.
\<close>

definition set_idt_entry :: "u64 \<Rightarrow> u8 \<Rightarrow> u64 \<Rightarrow> u16 \<Rightarrow> u8 \<Rightarrow> byte_mem \<Rightarrow> byte_mem" where
  "set_idt_entry idt idx fn_addr attributes ist m =
     (let e = idt + 16 * ucast idx;
          m = put16 e (ucast (fn_addr AND 0x0000ffff)) m;
          m = put16 (e + 6) (ucast (drop_bit 16 fn_addr AND 0x0000ffff)) m;
          m = put32 (e + 8) (ucast (drop_bit 32 fn_addr AND 0xffffffff)) m;
          m = put16 (e + 2) 0x08 m;
          m = put8 (e + 5) (ucast attributes) m
      in put8 (e + 4) (ist AND 0x07) m)"

definition clear_idt_entry :: "u64 \<Rightarrow> nat \<Rightarrow> byte_mem \<Rightarrow> byte_mem" where
  "clear_idt_entry idt i m =
     (let e = idt + 16 * of_nat i
      in put32 (e + 12) 0 (put8 (e + 5) 0 (put16 (e + 2) 0 (put32 (e + 8) 0 (put16 (e + 6) 0
           (put16 e 0 (put8 (e + 4) 0 m)))))))"

text \<open>The result code, the arguments of \<open>load_idt\<close> and the memory.\<close>

definition install_interrupts ::
    "u64 \<Rightarrow> u64 \<Rightarrow> u64 \<Rightarrow> byte_mem \<Rightarrow> rc \<times> (u64 \<times> u64) \<times> byte_mem" where
  "install_interrupts idt breakpoint_handler double_fault_handler m =
     (let m = fold (clear_idt_entry idt) [0..<256] m;
          m = set_idt_entry idt 3 breakpoint_handler 0x8e 0 m;
          m = set_idt_entry idt 8 double_fault_handler 0x8e 1 m
      in (rc_ok, (idt, 16 * 256), m))"

section \<open>What the processor reads\<close>

definition seg_base :: "byte_mem \<Rightarrow> u64 \<Rightarrow> u32" where
  "seg_base m e = ucast (get16 m (e + 2)) OR push_bit 16 (ucast (m (e + 4))) OR push_bit 24 (ucast (m (e + 7)))"

definition seg_limit :: "byte_mem \<Rightarrow> u64 \<Rightarrow> u32" where
  "seg_limit m e = ucast (get16 m e) OR push_bit 16 (ucast (m (e + 6) AND 0x0F))"

definition seg_flags :: "byte_mem \<Rightarrow> u64 \<Rightarrow> u8" where
  "seg_flags m e = m (e + 6) AND 0xF0"

text \<open>A 16-byte system descriptor.\<close>

definition sys_base :: "byte_mem \<Rightarrow> u64 \<Rightarrow> u64" where
  "sys_base m e = ucast (seg_base m e) OR push_bit 32 (ucast (get32 m (e + 8)))"

definition gate_target :: "byte_mem \<Rightarrow> u64 \<Rightarrow> u64" where
  "gate_target m e = ucast (get16 m e) OR push_bit 16 (ucast (get16 m (e + 6))) OR
     push_bit 32 (ucast (get32 m (e + 8)))"

text \<open>The present bit of a gate.\<close>

definition gate_present :: "byte_mem \<Rightarrow> u64 \<Rightarrow> bool" where
  "gate_present m e \<longleftrightarrow> bit (m (e + 5)) 7"

section \<open>Properties\<close>

lemma and_masks:
  "(w :: u32) AND 0xFFFF = take_bit 16 w" "(w :: u32) AND 0xFF = take_bit 8 w" "(w :: u32) AND 0x0F = take_bit 4 w"
  "(x :: u64) AND 0xFFFF = take_bit 16 x" "(x :: u64) AND 0xFF = take_bit 8 x" "(x :: u64) AND 0xFFFFFFFF = take_bit 32 x"
  "(y :: u8) AND 0x0F = take_bit 4 y" "(y :: u8) AND 0x07 = take_bit 3 y"
  "(w :: u32) AND 0xFFFFF = take_bit 20 w"
  by (simp_all add: take_bit_eq_mask mask_eq_exp_minus_1)

lemma high_nibble: "(0xF0 :: u8) = push_bit 4 (mask 4)"
  by (simp add: mask_eq_exp_minus_1 push_bit_eq_mult)

lemma seg_parts:
  "(ucast (ucast (take_bit 16 b) :: u16) :: u32) OR push_bit 16 (ucast (ucast (take_bit 8 (drop_bit 16 b)) :: u8)) OR
     push_bit 24 (ucast (ucast (take_bit 8 (drop_bit 24 b)) :: u8)) = b" for b :: u32
proof (rule bit_word_eqI)
  fix n assume "n < LENGTH(32)"
  then show "bit ((ucast (ucast (take_bit 16 b) :: u16) :: u32) OR push_bit 16 (ucast (ucast (take_bit 8 (drop_bit 16 b)) :: u8)) OR
     push_bit 24 (ucast (ucast (take_bit 8 (drop_bit 24 b)) :: u8))) n = bit b n"
    by (cases "n < 24"; cases "n < 16") (auto simp: bit_simps not_less)
qed

lemma limit_parts:
  "(ucast (ucast (take_bit 16 l) :: u16) :: u32) OR
     push_bit 16 (ucast (take_bit 4 (ucast (take_bit 4 (drop_bit 16 l)) OR (g AND 0xF0)) :: u8)) = take_bit 20 l"
  for l :: u32
  unfolding high_nibble by (rule bit_word_eqI) (auto simp: bit_simps)

lemma flag_parts: "(ucast (take_bit 4 (l :: u32)) OR (g AND 0xF0)) AND 0xF0 = g AND (0xF0 :: u8)"
  unfolding high_nibble by (rule bit_word_eqI) (auto simp: bit_simps)

section \<open>Round trips\<close>

lemma gdt_set_entry_bytes:
  "gdt_set_entry gdt idx base limit access gran m =
     (let e = gdt + 8 * ucast idx in m
       (e := ucast (ucast (take_bit 16 limit) :: u16), e + 1 := ucast (drop_bit 8 (ucast (take_bit 16 limit) :: u16)),
        e + 2 := ucast (ucast (take_bit 16 base) :: u16), e + 3 := ucast (drop_bit 8 (ucast (take_bit 16 base) :: u16)),
        e + 4 := ucast (take_bit 8 (drop_bit 16 base)), e + 5 := access,
        e + 6 := ucast (take_bit 4 (drop_bit 16 limit)) OR (gran AND 0xF0), e + 7 := ucast (take_bit 8 (drop_bit 24 base))))"
  by (auto simp: gdt_set_entry_def Let_def and_masks put16_def put8_def fun_eq_iff)

text \<open>Where the entries of a table are: different entries do not touch.\<close>

lemma entry_apart:
  assumes "i < 256" "j < 256" "i \<noteq> j" "k < 16" "l < 16"
  shows "t + 16 * of_nat i + of_nat k \<noteq> t + 16 * of_nat j + (of_nat l :: u64)"
proof
  assume "t + 16 * of_nat i + of_nat k = t + 16 * of_nat j + (of_nat l :: u64)"
  then have "(of_nat (16 * i + k) :: u64) = of_nat (16 * j + l)" by (simp add: algebra_simps)
  then have "16 * i + k = 16 * j + l" using assms by (subst (asm) of_nat_inj_word) auto
  then have "(16 * i + k) div 16 = (16 * j + l) div 16" by simp
  with assms show False by simp
qed

lemma gdt_entry_core:
  fixes gdt idx
  defines "e \<equiv> gdt + 8 * ucast (idx :: u32)"
  shows "seg_base (gdt_set_entry gdt idx base limit access gran m) e = base"
    "seg_limit (gdt_set_entry gdt idx base limit access gran m) e = take_bit 20 limit"
    "gdt_set_entry gdt idx base limit access gran m (e + 5) = access"
    "seg_flags (gdt_set_entry gdt idx base limit access gran m) e = gran AND 0xF0"
  unfolding gdt_set_entry_bytes Let_def e_def [symmetric]
  using seg_parts [of base] limit_parts [of limit gran] flag_parts [of "drop_bit 16 limit" gran]
    join_halves16 [of "ucast (take_bit 16 base)"] join_halves16 [of "ucast (take_bit 16 limit)"]
  by (simp_all add: seg_base_def seg_limit_def seg_flags_def get16_def and_masks)

lemma gdt_entry_frame:
  assumes "a \<notin> (\<lambda>k. gdt + 8 * ucast idx + of_nat k) ` {..<8}"
  shows "gdt_set_entry gdt idx base limit access gran m a = m a"
proof -
  define e where "e = gdt + 8 * ucast idx"
  have "a \<noteq> e \<and> a \<noteq> e + 1 \<and> a \<noteq> e + 2 \<and> a \<noteq> e + 3 \<and> a \<noteq> e + 4 \<and> a \<noteq> e + 5 \<and> a \<noteq> e + 6 \<and> a \<noteq> e + 7"
    using assms unfolding e_def [symmetric] by (auto simp: image_iff lessThan_nat_numeral lessThan_Suc)
  then show ?thesis unfolding gdt_set_entry_bytes Let_def e_def [symmetric] by simp
qed

text \<open>C26: what \<open>gdt_set_entry\<close> stores, the processor reads back: base, the low 20 bits of the
  limit, access byte and flags are those of the call, and only the eight bytes of the entry are
  written.\<close>

theorem gdt_entry_roundtrip:
  "let e = gdt + 8 * ucast idx; m' = gdt_set_entry gdt idx base limit access gran m in
     seg_base m' e = base \<and> seg_limit m' e = take_bit 20 limit \<and> m' (e + 5) = access \<and>
     seg_flags m' e = gran AND 0xF0 \<and> {a. m' a \<noteq> m a} \<subseteq> (\<lambda>k. e + of_nat k) ` {..<8}"
proof -
  have "{a. gdt_set_entry gdt idx base limit access gran m a \<noteq> m a} \<subseteq>
      (\<lambda>k. gdt + 8 * ucast idx + of_nat k) ` {..<8}"
    using gdt_entry_frame by blast
  then show ?thesis by (simp add: Let_def gdt_entry_core)
qed

lemma base_parts: "(ucast (ucast (b :: u64) :: u32) :: u64) OR push_bit 32 (ucast (ucast (drop_bit 32 b) :: u32)) = b"
  by (rule bit_word_eqI) (auto simp: bit_simps)

text \<open>The two halves of a long entry.\<close>

lemma gdt_set_entry_long_split:
  "gdt_set_entry_long gdt idx base limit access gran m =
     (let e = gdt + 8 * ucast idx
      in put32 (e + 8) (ucast (drop_bit 32 base)) (put32 (e + 12) 0
           (gdt_set_entry gdt idx (ucast base) limit access gran m)))"
proof -
  have u: "ucast ((ucast base :: u32) AND 0xFFFF) = (ucast (base AND 0xFFFF) :: u16)"
    "ucast (drop_bit 16 (ucast base :: u32) AND 0xFF) = (ucast (drop_bit 16 base AND 0xFF) :: u8)"
    "ucast (drop_bit 24 (ucast base :: u32) AND 0xFF) = (ucast (drop_bit 24 base AND 0xFF) :: u8)"
    unfolding and_masks by (rule bit_word_eqI; auto simp: bit_simps)+
  show ?thesis
    by (rule ext) (simp add: gdt_set_entry_long_def gdt_set_entry_def Let_def put_at u)
qed

lemma gdt_long_core:
  "let e = gdt + 8 * ucast idx; m' = gdt_set_entry_long gdt idx base limit access gran m in
     sys_base m' e = base \<and> seg_limit m' e = take_bit 20 limit \<and> m' (e + 5) = access \<and>
     seg_flags m' e = gran AND 0xF0 \<and> get32 m' (e + 12) = 0"
proof -
  define e where "e = gdt + 8 * ucast idx"
  define m0 where "m0 = gdt_set_entry gdt idx (ucast base) limit access gran m"
  define m' where "m' = put32 (e + 8) (ucast (drop_bit 32 base)) (put32 (e + 12) 0 m0)"
  have m': "gdt_set_entry_long gdt idx base limit access gran m = m'"
    by (simp add: gdt_set_entry_long_split Let_def e_def m0_def m'_def)
  have low: "m' (e + k) = m0 (e + k)" if "k \<in> {0, 1, 2, 3, 4, 5, 6, 7}" for k
    using that by (auto simp: m'_def put32_at)
  have zero: "get32 m' (e + 12) = 0"
    by (simp add: m'_def get32_def get16_def put32_at)
  have "get32 m' (e + 8) = ucast (drop_bit 32 base)" by (simp add: m'_def)
  moreover have "seg_base m' e = seg_base m0 e" "seg_limit m' e = seg_limit m0 e" "m' (e + 5) = m0 (e + 5)"
    "seg_flags m' e = seg_flags m0 e"
    using low [of 0] low [of 1] low [of 2] low [of 3] low [of 4] low [of 5] low [of 6] low [of 7]
    by (simp_all add: seg_base_def seg_limit_def seg_flags_def get16_def add.assoc)
  ultimately show ?thesis
    using gdt_entry_core [of gdt idx "ucast base" limit access gran m] base_parts [of base] zero
    unfolding m' Let_def e_def [symmetric] m0_def [symmetric] by (simp add: sys_base_def)
qed

section \<open>The tables the kernel sets up\<close>

text \<open>The descriptor of a flat long-mode segment with a given access byte.\<close>

definition flat_segment :: "byte_mem \<Rightarrow> u64 \<Rightarrow> u8 \<Rightarrow> bool" where
  "flat_segment m e access \<longleftrightarrow> seg_base m e = 0 \<and> seg_limit m e = 0xFFFFF \<and> m (e + 5) = access \<and> seg_flags m e = 0xA0"

text \<open>Byte \<open>n\<close> of the table belongs to entry \<open>n div 8\<close>.\<close>

lemma gdt_entry_other:
  assumes "n < 56" "i < 7" "n div 8 \<noteq> i"
  shows "gdt_set_entry gdt (of_nat i) base limit access gran m (gdt + of_nat n) = m (gdt + of_nat n)"
proof (rule gdt_entry_frame)
  have i: "(ucast (of_nat i :: u32) :: u64) = of_nat i"
  proof -
    have "i = 0 \<or> i = 1 \<or> i = 2 \<or> i = 3 \<or> i = 4 \<or> i = 5 \<or> i = 6" using assms(2) by linarith
    then show ?thesis by auto
  qed
  have "gdt + of_nat n \<noteq> gdt + 8 * of_nat i + (of_nat k :: u64)" if "k < 8" for k
  proof
    assume "gdt + of_nat n = gdt + 8 * of_nat i + (of_nat k :: u64)"
    then have "(of_nat n :: u64) = of_nat (8 * i + k)" by simp
    then have "n = 8 * i + k" using assms that by (subst (asm) of_nat_inj_word) auto
    then show False using assms(3) that by simp
  qed
  then show "gdt + of_nat n \<notin> (\<lambda>k. gdt + 8 * ucast (of_nat i :: u32) + of_nat k) ` {..<8}"
    unfolding i by auto
qed

lemma gdt_long_other:
  assumes "n < 40"
  shows "gdt_set_entry_long gdt 5 base limit access gran m (gdt + of_nat n) = m (gdt + of_nat n)"
proof -
  have far: "gdt + of_nat n \<noteq> gdt + (of_nat k :: u64)" if "40 \<le> k" "k < 56" for k
    using that assms of_nat_inj_word [of n k, where 'a = 64] by auto
  show ?thesis
    using far [of 48] far [of 49] far [of 50] far [of 51] far [of 52] far [of 53] far [of 54] far [of 55]
      gdt_entry_other [of n 5 gdt "ucast base" limit access gran m] assms
    by (simp add: gdt_set_entry_long_split Let_def put32_at add.assoc less_mult_imp_div_less)
qed

lemma flat_cong:
  assumes "\<And>k. k \<in> {0 ..< 8} \<Longrightarrow> m' (e + of_nat k) = m (e + of_nat k)"
  shows "flat_segment m' e access = flat_segment m e access"
  using assms [of 0] assms [of 1] assms [of 2] assms [of 3] assms [of 4] assms [of 5] assms [of 6] assms [of 7]
  by (simp add: flat_segment_def seg_base_def seg_limit_def seg_flags_def get16_def add.assoc)

lemma flat_set: "flat_segment (gdt_set_entry gdt idx 0 0xFFFFFFFF access 0xAF m) (gdt + 8 * ucast idx) access"
  by (simp add: flat_segment_def gdt_entry_core and_masks [symmetric])

lemma flat_kept:
  assumes "flat_segment m (gdt + 8 * of_nat j) access" and i: "i < 7" "j < 7" "i \<noteq> j"
  shows "flat_segment (gdt_set_entry gdt (of_nat i) base limit acc gran m) (gdt + 8 * of_nat j) access"
proof -
  have "gdt_set_entry gdt (of_nat i) base limit acc gran m (gdt + 8 * of_nat j + of_nat k) = m (gdt + 8 * of_nat j + of_nat k)"
    if "k \<in> {0 ..< 8}" for k
    using gdt_entry_other [of "8 * j + k" i gdt base limit acc gran m] that i by (simp add: add.assoc)
  then show ?thesis using assms(1) flat_cong by blast
qed

lemma ucast_low: "ucast (take_bit 32 (w :: u64)) = (ucast w :: u32)"
  by (rule bit_word_eqI) (auto simp: bit_simps)

text \<open>The first five entries, as \<open>load_gdt\<close> sets them one after the other.\<close>

lemma first_entries:
  fixes gdt :: u64 and m :: byte_mem
  defines "a0 \<equiv> gdt_set_entry gdt (of_nat 0) 0 0 0 0 m"
  defines "a1 \<equiv> gdt_set_entry gdt (of_nat 1) 0 0xFFFFFFFF 0x9A 0xAF a0"
  defines "a2 \<equiv> gdt_set_entry gdt (of_nat 2) 0 0xFFFFFFFF 0x92 0xAF a1"
  defines "a3 \<equiv> gdt_set_entry gdt (of_nat 3) 0 0xFFFFFFFF 0xFA 0xAF a2"
  defines "a4 \<equiv> gdt_set_entry gdt (of_nat 4) 0 0xFFFFFFFF 0xF2 0xAF a3"
  shows "flat_segment a4 (gdt + 8 * of_nat 1) 0x9A" "flat_segment a4 (gdt + 8 * of_nat 2) 0x92"
    "flat_segment a4 (gdt + 8 * of_nat 3) 0xFA" "flat_segment a4 (gdt + 8 * of_nat 4) 0xF2"
    "k < 8 \<Longrightarrow> a4 (gdt + of_nat k) = 0"
proof -
  have s: "flat_segment (gdt_set_entry gdt (of_nat j) 0 0xFFFFFFFF acc 0xAF x) (gdt + 8 * of_nat j) acc"
    if "j \<in> {1, 2, 3, 4}" for j acc x
    using flat_set [of gdt "of_nat j" acc x] that by auto
  have f1: "flat_segment a1 (gdt + 8 * of_nat 1) 0x9A" unfolding a1_def by (rule s) simp
  have f2: "flat_segment a2 (gdt + 8 * of_nat 1) 0x9A" "flat_segment a2 (gdt + 8 * of_nat 2) 0x92"
    unfolding a2_def by (rule flat_kept [OF f1], simp_all, rule s [of 2, simplified])
  have f3: "flat_segment a3 (gdt + 8 * of_nat 1) 0x9A" "flat_segment a3 (gdt + 8 * of_nat 2) 0x92"
    "flat_segment a3 (gdt + 8 * of_nat 3) 0xFA"
    unfolding a3_def by (rule f2 [THEN flat_kept]; simp)+ (rule s, simp)
  show "flat_segment a4 (gdt + 8 * of_nat 1) 0x9A" "flat_segment a4 (gdt + 8 * of_nat 2) 0x92"
    "flat_segment a4 (gdt + 8 * of_nat 3) 0xFA" "flat_segment a4 (gdt + 8 * of_nat 4) 0xF2"
    unfolding a4_def by (rule f3 [THEN flat_kept]; simp)+ (rule s, simp)
  assume k: "k < 8"
  then have "k = 0 \<or> k = 1 \<or> k = 2 \<or> k = 3 \<or> k = 4 \<or> k = 5 \<or> k = 6 \<or> k = 7" by linarith
  then have "a0 (gdt + of_nat k) = 0" by (auto simp: a0_def gdt_set_entry_bytes Let_def)
  moreover have other: "gdt_set_entry gdt (of_nat i) 0 0xFFFFFFFF acc 0xAF x (gdt + of_nat k) = x (gdt + of_nat k)"
    if "i < 7 \<and> 0 < i" for i acc x
    using that k by (intro gdt_entry_other) simp_all
  ultimately show "a4 (gdt + of_nat k) = 0"
    unfolding a1_def a2_def a3_def a4_def by (subst other, simp)+
qed

lemma long_entry_cong:
  assumes "\<And>j. 40 \<le> j \<Longrightarrow> j < 52 \<Longrightarrow> m' (gdt + of_nat j) = m (gdt + of_nat j)"
  shows "sys_base m' (gdt + 40) = sys_base m (gdt + 40)" "seg_limit m' (gdt + 40) = seg_limit m (gdt + 40)"
    "m' (gdt + 45) = m (gdt + 45)"
  using assms [of 40] assms [of 41] assms [of 42] assms [of 43] assms [of 44] assms [of 45] assms [of 46]
    assms [of 47] assms [of 48] assms [of 49] assms [of 50] assms [of 51]
  by (simp_all add: sys_base_def seg_base_def seg_limit_def get32_def get16_def add.assoc)

text \<open>C24: after \<open>load_gdt\<close> entry 0 is null, entries 1 to 4 are the flat code and data segments of
  the kernel and of user mode, the task register selects the long descriptor of the task state
  segment, and the first interrupt stack of that segment is the lowest address of
  \<open>double_fault_stack\<close>. Stacks grow down, so the first push of the double fault handler is
  outside the array.\<close>

theorem load_gdt_ok:
  assumes "\<forall>k < 104. \<forall>j < 56. tss + of_nat k \<noteq> gdt + (of_nat j :: u64)"
  shows "\<exists>m'. load_gdt gdt tss stack m = (rc_ok, (gdt, 55), 40, m') \<and>
    (\<forall>k < 8. m' (gdt + of_nat k) = 0) \<and>
    flat_segment m' (gdt + 8) 0x9A \<and> flat_segment m' (gdt + 16) 0x92 \<and>
    flat_segment m' (gdt + 24) 0xFA \<and> flat_segment m' (gdt + 32) 0xF2 \<and>
    sys_base m' (gdt + 40) = tss \<and> seg_limit m' (gdt + 40) = 104 \<and> m' (gdt + 45) = 0x89 \<and>
    get64 m' (tss + 36) = stack"
proof -
  define a4 where "a4 = gdt_set_entry gdt (of_nat 4) 0 0xFFFFFFFF 0xF2 0xAF (gdt_set_entry gdt (of_nat 3) 0 0xFFFFFFFF 0xFA 0xAF
    (gdt_set_entry gdt (of_nat 2) 0 0xFFFFFFFF 0x92 0xAF (gdt_set_entry gdt (of_nat 1) 0 0xFFFFFFFF 0x9A 0xAF
      (gdt_set_entry gdt (of_nat 0) 0 0 0 0 m))))"
  define a5 where "a5 = gdt_set_entry_long gdt 5 tss 104 0x89 0x40 a4"
  define m' where "m' = write_tss tss stack a5"
  have l: "load_gdt gdt tss stack m = (rc_ok, (gdt, 55), 40, m')"
    by (simp add: load_gdt_def a4_def a5_def m'_def TSS_GDT_IDX_def Let_def)
  have apart: "gdt + of_nat j \<noteq> tss + of_nat k" if "j < 56" "k < 104" for j k
    using assms that by metis
  have same5: "m' (gdt + of_nat j) = a5 (gdt + of_nat j)" if "j < 56" for j
    using apart [OF that, of 36] apart [OF that, of 37] apart [OF that, of 38] apart [OF that, of 39]
      apart [OF that, of 40] apart [OF that, of 41] apart [OF that, of 42] apart [OF that, of 43]
    by (simp add: m'_def write_tss_def put32_at add.assoc)
  have same4: "m' (gdt + of_nat j) = a4 (gdt + of_nat j)" if "j < 40" for j
    using same5 [of j] gdt_long_other [OF that] that by (simp add: a5_def)
  have flat: "flat_segment m' (gdt + 8 * of_nat j) acc"
    if "flat_segment a4 (gdt + 8 * of_nat j) acc" "j < 5" for j acc
  proof -
    have "m' (gdt + 8 * of_nat j + of_nat k) = a4 (gdt + 8 * of_nat j + of_nat k)" if "k \<in> {0 ..< 8}" for k
      using same4 [of "8 * j + k"] that \<open>j < 5\<close> by (simp add: add.assoc)
    then show ?thesis using that(1) flat_cong by blast
  qed
  note first = first_entries [where gdt = gdt and m = m, folded a4_def]
  have "flat_segment m' (gdt + 8) 0x9A" "flat_segment m' (gdt + 16) 0x92"
    "flat_segment m' (gdt + 24) 0xFA" "flat_segment m' (gdt + 32) 0xF2"
    using first(1-4) [THEN flat] by simp_all
  moreover have "m' (gdt + of_nat k) = 0" if "k < 8" for k using first(5) [OF that] same4 [of k] that by simp
  moreover have "sys_base m' (gdt + 40) = tss \<and> seg_limit m' (gdt + 40) = 104 \<and> m' (gdt + 45) = 0x89"
    using long_entry_cong [of m' gdt a5] same5
      gdt_long_core [where gdt = gdt and idx = 5 and base = tss and limit = 104 and access = "0x89" and gran = "0x40" and m = a4]
    by (simp add: a5_def Let_def and_masks add.assoc)
  moreover have "get64 m' (tss + 36) = stack"
    using get64_halves [of "tss + 36" stack a5] by (simp add: m'_def write_tss_def and_masks ucast_low add.assoc)
  ultimately show ?thesis using l by blast
qed

theorem load_gdt_ok_witness:
  "\<exists>m'. load_gdt 0x1000 0x2000 0x3000 (\<lambda>_. 0) = (rc_ok, (0x1000, 55), 40, m') \<and>
     flat_segment m' 0x1008 0x9A \<and> sys_base m' 0x1028 = 0x2000 \<and> get64 m' 0x2024 = 0x3000"
proof -
  have "(0x2000 :: u64) + of_nat k \<noteq> 0x1000 + of_nat j" if "k < 104" "j < 56" for k j
  proof
    assume "(0x2000 :: u64) + of_nat k = 0x1000 + of_nat j"
    then have "(of_nat (0x2000 + k) :: u64) = of_nat (0x1000 + j)" by simp
    then show False using that by (subst (asm) of_nat_inj_word) simp_all
  qed
  then show ?thesis using load_gdt_ok [of "0x2000" "0x1000" "0x3000" "\<lambda>_. 0"] by auto
qed

section \<open>Interrupt gates\<close>

lemma gate_parts:
  "(ucast (ucast (f AND 0x0000ffff) :: u16) :: u64) OR push_bit 16 (ucast (ucast (drop_bit 16 f AND 0x0000ffff) :: u16)) OR
     push_bit 32 (ucast (ucast (drop_bit 32 f AND 0xffffffff) :: u32)) = f" for f :: u64
proof -
  have m: "(w :: u64) AND 0x0000ffff = take_bit 16 w" "(w :: u64) AND 0xffffffff = take_bit 32 w" for w
    by (simp_all add: take_bit_eq_mask mask_eq_exp_minus_1)
  show ?thesis
    unfolding m
  proof (rule bit_word_eqI)
    fix n assume "n < LENGTH(64)"
    then show "bit ((ucast (ucast (take_bit 16 f) :: u16) :: u64) OR push_bit 16 (ucast (ucast (take_bit 16 (drop_bit 16 f)) :: u16)) OR
       push_bit 32 (ucast (ucast (take_bit 32 (drop_bit 32 f)) :: u32))) n = bit f n"
      by (cases "n < 32"; cases "n < 16") (auto simp: bit_simps not_less)
  qed
qed

lemma idt_entry_core:
  fixes idt idx
  defines "e \<equiv> idt + 16 * ucast (idx :: u8)"
  shows "gate_target (set_idt_entry idt idx fn attributes ist m) e = fn"
    "get16 (set_idt_entry idt idx fn attributes ist m) (e + 2) = 0x08"
    "set_idt_entry idt idx fn attributes ist m (e + 5) = ucast attributes"
    "set_idt_entry idt idx fn attributes ist m (e + 4) = ist AND 7"
proof -
  let ?m = "set_idt_entry idt idx fn attributes ist m"
  have "get16 ?m e = ucast (fn AND 0xffff)" "get16 ?m (e + 6) = ucast (drop_bit 16 fn AND 0xffff)"
    "get16 ?m (e + 2) = 8"
    unfolding set_idt_entry_def Let_def e_def [symmetric]
    using join_halves16 [of "ucast (fn AND 0xffff)"] join_halves16 [of "ucast (drop_bit 16 fn AND 0xffff)"] join_halves16 [of 8]
    by (simp_all add: get16_def put_at add.assoc)
  moreover have "get32 ?m (e + 8) = ucast (drop_bit 32 fn AND 0xffffffff)"
  proof -
    have "get32 ?m (e + 8) = get32 (put32 (e + 8) (ucast (drop_bit 32 fn AND 0xffffffff)) m) (e + 8)"
      unfolding set_idt_entry_def Let_def e_def [symmetric] get32_def get16_def by (simp add: put_at add.assoc)
    then show ?thesis by simp
  qed
  ultimately show "gate_target ?m e = fn" "get16 ?m (e + 2) = 0x08"
    using gate_parts [of fn] by (simp_all add: gate_target_def)
  show "?m (e + 5) = ucast attributes" "?m (e + 4) = ist AND 7"
    unfolding set_idt_entry_def Let_def e_def [symmetric] by (simp_all add: put_at)
qed

lemma set_idt_entry_frame:
  assumes "n div 16 \<noteq> unat idx" "n < 4096"
  shows "set_idt_entry idt idx fn attributes ist m (idt + of_nat n) = m (idt + of_nat n)"
proof -
  have i: "(16 * ucast idx :: u64) = of_nat (16 * unat idx)" by simp
  have far: "idt + of_nat n \<noteq> idt + 16 * ucast idx + (of_nat k :: u64)" if "k < 16" for k
  proof
    assume "idt + of_nat n = idt + 16 * ucast idx + (of_nat k :: u64)"
    then have "(of_nat n :: u64) = of_nat (16 * unat idx + k)" by simp
    moreover have "unat idx < 256" using unat_word_less [of idx] by simp
    ultimately have "n = 16 * unat idx + k" using assms(2) that by (subst (asm) of_nat_inj_word) auto
    then show False using assms(1) that by simp
  qed
  show ?thesis
    using far [of 0] far [of 1] far [of 2] far [of 3] far [of 4] far [of 5] far [of 6] far [of 7] far [of 8]
      far [of 9] far [of 10] far [of 11]
    by (simp add: set_idt_entry_def Let_def put_at add.assoc)
qed

lemma clear_idt_entry_at:
  "clear_idt_entry idt i m x = (if x \<in> (\<lambda>k. idt + 16 * of_nat i + of_nat k) ` {..<16} then 0 else m x)"
proof -
  define e where "e = idt + 16 * of_nat i"
  define d where "d = x - e"
  have x: "x = e + d" by (simp add: d_def)
  have "x \<in> (\<lambda>k. e + of_nat k) ` {..<16} \<longleftrightarrow> (\<exists>k < 16. d = of_nat k)" by (auto simp: x)
  also have "\<dots> \<longleftrightarrow> d \<in> {0, 1, 2, 3, 4, 5, 6, 7, 8, 9, 10, 11, 12, 13, 14, 15}"
    by (simp add: numeral_eq_Suc less_Suc_eq ex_disj_distrib conj_disj_distribR)
  finally have mem: "x \<in> (\<lambda>k. e + of_nat k) ` {..<16} \<longleftrightarrow> d \<in> {0, 1, 2, 3, 4, 5, 6, 7, 8, 9, 10, 11, 12, 13, 14, 15}" .
  have c: "clear_idt_entry idt i m x = (if d \<in> {0, 1, 2, 3, 4, 5, 6, 7, 8, 9, 10, 11, 12, 13, 14, 15} then 0 else m (e + d))"
    unfolding clear_idt_entry_def Let_def e_def [symmetric] x by (simp add: put_at add.assoc)
  show ?thesis unfolding c e_def [symmetric] mem by (simp add: x)
qed

lemma clear_idt_upto:
  "fold (clear_idt_entry idt) [0..<n] m x = (if \<exists>j < 16 * n. x = idt + of_nat j then 0 else m x)"
proof (induction n)
  case (Suc n)
  have "(\<exists>j < 16 * Suc n. x = idt + of_nat j) \<longleftrightarrow>
      (\<exists>j < 16 * n. x = idt + of_nat j) \<or> x \<in> (\<lambda>k. idt + 16 * of_nat n + of_nat k) ` {..<16}" (is "?l \<longleftrightarrow> ?r")
  proof
    assume ?l
    then obtain j where j: "j < 16 * Suc n" "x = idt + of_nat j" by blast
    show ?r
    proof (cases "j < 16 * n")
      case False
      then have "of_nat j = (16 * of_nat n + of_nat (j - 16 * n) :: u64)" "j - 16 * n < 16"
        using j(1) by (simp_all add: of_nat_diff)
      then show ?thesis using j(2) by (auto simp: add.assoc)
    qed (use j in auto)
  next
    assume ?r
    then show ?l
    proof
      assume "x \<in> (\<lambda>k. idt + 16 * of_nat n + of_nat k) ` {..<16}"
      then obtain k where "k < 16" "x = idt + of_nat (16 * n + k)" by (auto simp: add.assoc)
      then show ?l by (intro exI [of _ "16 * n + k"]) simp
    next
      assume "\<exists>j < 16 * n. x = idt + of_nat j"
      then obtain j where "j < 16 * n" "x = idt + of_nat j" by blast
      then show ?l by (intro exI [of _ j]) simp
    qed
  qed
  moreover have "fold (clear_idt_entry idt) [0..<Suc n] m x = clear_idt_entry idt n (fold (clear_idt_entry idt) [0..<n] m) x"
    by simp
  ultimately show ?case
    using clear_idt_entry_at [of idt n "fold (clear_idt_entry idt) [0..<n] m" x] Suc by argo
qed simp

text \<open>The fields of a gate.\<close>

definition gate :: "byte_mem \<Rightarrow> u64 \<Rightarrow> u64 \<Rightarrow> u8 \<Rightarrow> u8 \<Rightarrow> bool" where
  "gate m e target attributes ist \<longleftrightarrow> gate_target m e = target \<and> get16 m (e + 2) = 0x08 \<and>
     m (e + 5) = attributes \<and> m (e + 4) = ist"

lemma gate_cong:
  assumes "\<And>k. k \<in> {0 ..< 12} \<Longrightarrow> m' (e + of_nat k) = m (e + of_nat k)"
  shows "gate m' e t a i = gate m e t a i"
  using assms [of 0] assms [of 1] assms [of 2] assms [of 3] assms [of 4] assms [of 5] assms [of 6] assms [of 7]
    assms [of 8] assms [of 9] assms [of 10] assms [of 11]
  by (simp add: gate_def gate_target_def get32_def get16_def add.assoc)

lemma install_interrupts_core:
  "\<exists>m'. install_interrupts idt bp df m = (rc_ok, (idt, 4096), m') \<and>
    gate m' (idt + 48) bp 0x8e 0 \<and> gate m' (idt + 128) df 0x8e 1 \<and>
    gate_present m' (idt + 48) \<and> gate_present m' (idt + 128) \<and>
    (\<forall>v < 256. v \<noteq> 3 \<longrightarrow> v \<noteq> 8 \<longrightarrow> (\<forall>k < 16. m' (idt + 16 * of_nat v + of_nat k) = 0) \<and>
       \<not> gate_present m' (idt + 16 * of_nat v))"
proof -
  define m0 where "m0 = fold (clear_idt_entry idt) [0..<256] m"
  define m1 where "m1 = set_idt_entry idt 3 bp 0x8e 0 m0"
  define m' where "m' = set_idt_entry idt 8 df 0x8e 1 m1"
  have r: "install_interrupts idt bp df m = (rc_ok, (idt, 4096), m')"
    by (simp add: install_interrupts_def m0_def m1_def m'_def Let_def)
  have g1: "gate m1 (idt + 48) bp 0x8e 0"
    using idt_entry_core [of idt 3 bp "0x8e" 0 m0] by (simp add: gate_def m1_def)
  have "m' (idt + 48 + of_nat k) = m1 (idt + 48 + of_nat k)" if "k \<in> {0 ..< 12}" for k
    using set_idt_entry_frame [of "48 + k" 8 idt df "0x8e" 1 m1] that by (simp add: m'_def add.assoc)
  then have g3: "gate m' (idt + 48) bp 0x8e 0" using g1 gate_cong by blast
  have g8: "gate m' (idt + 128) df 0x8e 1"
    using idt_entry_core [of idt 8 df "0x8e" 1 m1] by (simp add: gate_def m'_def)
  have zero: "m' (idt + 16 * of_nat v + of_nat k) = 0" if v: "v < 256" "v \<noteq> 3" "v \<noteq> 8" and k: "k < 16" for v k
  proof -
    have n: "(16 * v + k) div 16 = v" "16 * v + k < 4096" using v k by simp_all
    have a: "idt + 16 * of_nat v + of_nat k = idt + of_nat (16 * v + k)" by (simp add: add.assoc)
    have "m' (idt + of_nat (16 * v + k)) = m0 (idt + of_nat (16 * v + k))"
      using set_idt_entry_frame [of "16 * v + k" 8 idt df "0x8e" 1 m1] set_idt_entry_frame [of "16 * v + k" 3 idt bp "0x8e" 0 m0]
        n v by (simp add: m'_def m1_def del: of_nat_add of_nat_mult)
    also have "\<dots> = 0" using n(2) unfolding m0_def clear_idt_upto by auto
    finally show ?thesis unfolding a .
  qed
  have "gate_present m' (idt + 48)" "gate_present m' (idt + 128)"
    using g3 g8 by (simp_all add: gate_present_def gate_def)
  moreover have "\<not> gate_present m' (idt + 16 * of_nat v)" if "v < 256" "v \<noteq> 3" "v \<noteq> 8" for v
    using zero [OF that, of 5] by (simp add: gate_present_def)
  ultimately show ?thesis using r g3 g8 zero by blast
qed

text \<open>Nothing outside the table is written.\<close>

lemma set_idt_entry_outside:
  assumes "a \<notin> (\<lambda>k. idt + of_nat k) ` {..<4096}"
  shows "set_idt_entry idt idx fn attributes ist m a = m a"
proof -
  have e: "a \<noteq> idt + 16 * ucast idx + of_nat k" if "k < 16" for k
  proof
    assume "a = idt + 16 * ucast idx + of_nat k"
    then have "a = idt + of_nat (16 * unat idx + k)" by (simp add: add.assoc)
    moreover have "16 * unat idx + k < 4096" using that unat_word_less [of idx] by simp
    ultimately show False using assms by blast
  qed
  show ?thesis
    using e [of 0] e [of 1] e [of 2] e [of 3] e [of 4] e [of 5] e [of 6] e [of 7] e [of 8] e [of 9] e [of 10] e [of 11]
    by (simp add: set_idt_entry_def Let_def put_at add.assoc)
qed

lemma install_interrupts_outside:
  assumes "a \<notin> (\<lambda>k. idt + of_nat k) ` {..<4096}"
  shows "snd (snd (install_interrupts idt bp df m)) a = m a"
proof -
  have "\<not> (\<exists>j < 4096. a = idt + of_nat j)" using assms by auto
  then show ?thesis
    using assms by (auto simp: install_interrupts_def Let_def set_idt_entry_outside clear_idt_upto)
qed

text \<open>C23: after \<open>install_interrupts\<close> the table has a present gate to the breakpoint handler at vector
  3 and one to the double fault handler, on the first interrupt stack, at vector 8, both in the
  kernel's code segment; every other one of the 256 gates is zero, so not present.\<close>

theorem install_interrupts_ok:
  "\<exists>m'. install_interrupts idt bp df m = (rc_ok, (idt, 4096), m') \<and>
    gate m' (idt + 48) bp 0x8e 0 \<and> gate m' (idt + 128) df 0x8e 1 \<and>
    gate_present m' (idt + 48) \<and> gate_present m' (idt + 128) \<and>
    (\<forall>v < 256. v \<noteq> 3 \<longrightarrow> v \<noteq> 8 \<longrightarrow> (\<forall>k < 16. m' (idt + 16 * of_nat v + of_nat k) = 0) \<and>
       \<not> gate_present m' (idt + 16 * of_nat v))"
  by (rule install_interrupts_core)

theorem install_interrupts_ok_witness:
  "\<exists>m'. install_interrupts 0x1000 0x5000 0x6000 (\<lambda>_. 7) = (rc_ok, (0x1000, 4096), m') \<and>
     gate m' 0x1080 0x6000 0x8e 1 \<and> \<not> gate_present m' 0x1040 \<and> m' 0x104F = 0"
proof -
  obtain m' where m': "install_interrupts 0x1000 0x5000 0x6000 (\<lambda>_. 7) = (rc_ok, (0x1000, 4096), m')"
    "gate m' (0x1000 + 128) 0x6000 0x8e 1"
    and z: "\<forall>v < 256. v \<noteq> 3 \<longrightarrow> v \<noteq> 8 \<longrightarrow> (\<forall>k < 16. m' (0x1000 + 16 * of_nat v + of_nat k) = 0) \<and>
       \<not> gate_present m' (0x1000 + 16 * of_nat v)"
    using install_interrupts_ok [of "0x1000" "0x5000" "0x6000" "\<lambda>_. 7"] by blast
  have "(\<forall>k < 16. m' (0x1000 + 16 * of_nat 4 + of_nat k) = 0) \<and> \<not> gate_present m' (0x1000 + 16 * of_nat 4)"
    using z [rule_format, of 4] by simp
  then have "m' (0x1000 + 16 * of_nat 4 + of_nat 15) = 0" "\<not> gate_present m' (0x1000 + 16 * of_nat 4)"
    by (auto dest: spec [of _ 15])
  with m' show ?thesis by auto
qed

end
