(* ===== verification/Serial.thy ===== *)
theory Serial
  imports LibC_String
begin

text \<open>
  The serial port: \<open>kernel/kernel/serial.c\<close> over the two port instructions of
  \<open>kernel/arch/x86_64/arch_serial.c\<close>. The device is outside the program: \<open>inb\<close> and \<open>outb\<close> are
  parameters, functions on a state of the device of any type. Also here, because the port, the
  bootloader's terminal and the firmware console all write numbers with it: the loop that fills a
  buffer with hexadecimal digits.
\<close>

section \<open>Hexadecimal digits\<close>

text \<open>\<open>hexchars\<close>, without its NUL, which no index below 16 reaches.\<close>

definition hexchars :: "u8 list" where
  "hexchars = map of_char ''0123456789ABCDEF''"

text \<open>\<open>outstr[p] = hexchars[val & 0b1111]; val = val >> 4\<close> for each position in turn.\<close>

fun hex_fill :: "nat list \<Rightarrow> u64 \<Rightarrow> u8 list \<Rightarrow> u8 list" where
  "hex_fill [] val buf = buf"
| "hex_fill (p # ps) val buf =
     hex_fill ps (drop_bit 4 val) (buf[p := hexchars ! unat (val AND 15)])"

section \<open>The port\<close>

definition PORT :: u16 where "PORT = 0x3f8"

type_synonym 'd inb = "u16 \<Rightarrow> 'd \<Rightarrow> u8 \<times> 'd"
type_synonym 'd outb = "u16 \<Rightarrow> u8 \<Rightarrow> 'd \<Rightarrow> 'd"

definition serial_init :: "'d outb \<Rightarrow> 'd \<Rightarrow> 'd" where
  "serial_init outb d =
     (let d = outb (PORT + 1) 0x00 d;
          d = outb (PORT + 3) 0x80 d;
          d = outb (PORT + 0) 0x03 d;
          d = outb (PORT + 1) 0x00 d;
          d = outb (PORT + 3) 0x03 d;
          d = outb (PORT + 2) 0xC7 d
      in outb (PORT + 4) 0x0B d)"

definition is_transmit_empty :: "'d inb \<Rightarrow> 'd \<Rightarrow> u8 \<times> 'd" where
  "is_transmit_empty inb d = (let (v, d) = inb (PORT + 5) d in (v AND 0x20, d))"

text \<open>\<open>while (is_transmit_empty() == 0);\<close>\<close>

partial_function (option) wait_empty :: "'d inb \<Rightarrow> 'd \<Rightarrow> 'd option" where
  "wait_empty inb d =
     (let (v, d) = is_transmit_empty inb d in if v = 0 then wait_empty inb d else Some d)"

declare wait_empty.simps [code]

definition serial_write :: "'d inb \<Rightarrow> 'd outb \<Rightarrow> u8 \<Rightarrow> 'd \<Rightarrow> 'd option" where
  "serial_write inb outb a d = map_option (outb PORT a) (wait_empty inb d)"

text \<open>\<open>a\<close> is the memory the pointer shows, as a list of bytes.\<close>

fun serial_write_loop :: "'d inb \<Rightarrow> 'd outb \<Rightarrow> u8 list \<Rightarrow> nat list \<Rightarrow> 'd \<Rightarrow> 'd option" where
  "serial_write_loop inb outb a [] d = Some d"
| "serial_write_loop inb outb a (i # is) d =
     do { d \<leftarrow> serial_write inb outb (a ! i) d; serial_write_loop inb outb a is d }"

definition serial_write_string :: "'d inb \<Rightarrow> 'd outb \<Rightarrow> u8 list \<Rightarrow> u16 \<Rightarrow> 'd \<Rightarrow> 'd option" where
  "serial_write_string inb outb a len d = serial_write_loop inb outb a [0..<unat len] d"

text \<open>\<open>outstr\<close> is the static buffer \<open>hex64outstr\<close>, its NUL included.\<close>

definition serial_write_hex64 ::
    "'d inb \<Rightarrow> 'd outb \<Rightarrow> u64 \<Rightarrow> u8 list \<Rightarrow> 'd \<Rightarrow> (u8 list \<times> 'd) option" where
  "serial_write_hex64 inb outb val outstr d =
     (let outstr = hex_fill (map (\<lambda>i. 15 - i) [0..<16]) val outstr
      in map_option (Pair outstr) (serial_write_string inb outb outstr 17 d))"

section \<open>The digits\<close>

text \<open>The \<open>n\<close> hexadecimal digits of a number, most significant first.\<close>

definition hex_digits :: "nat \<Rightarrow> u64 \<Rightarrow> u8 list" where
  "hex_digits n val = map (\<lambda>i. hexchars ! unat (drop_bit (4 * i) val AND 15)) (rev [0..<n])"

lemma hex_fill_digits:
  "length buf = n \<Longrightarrow> hex_fill (rev [0..<n]) val (buf @ rest) = hex_digits n val @ rest"
proof (induction n arbitrary: val buf rest)
  case (Suc n)
  define d where "d = hexchars ! unat (val AND 15)"
  have "(buf @ rest)[n := d] = take n buf @ (d # rest)"
    using Suc.prems by (simp add: list_update_append upd_conv_take_nth_drop)
  then have "hex_fill (rev [0..<Suc n]) val (buf @ rest) = hex_digits n (drop_bit 4 val) @ d # rest"
    using Suc.IH [of "take n buf" "drop_bit 4 val" "d # rest"] Suc.prems by (simp add: d_def)
  moreover have "hex_digits (Suc n) val = hex_digits n (drop_bit 4 val) @ [d]"
  proof -
    have "rev [0..<Suc n] = map Suc (rev [0..<n]) @ [0]"
      by (metis map_Suc_upt rev.simps(2) rev_map upt_conv_Cons zero_less_Suc)
    then show ?thesis by (simp add: hex_digits_def d_def comp_def add.commute)
  qed
  ultimately show ?case by simp
qed (simp add: hex_digits_def)

lemma hex_positions: "map (\<lambda>i. 15 - i) [0..<16] = rev [0..<16]"
  by (simp add: numeral_eq_Suc)

section \<open>Sending\<close>

text \<open>The state after \<open>n\<close> polls of the line status register, and whether the next one is ready.\<close>

fun polled :: "'d inb \<Rightarrow> nat \<Rightarrow> 'd \<Rightarrow> 'd" where
  "polled inb 0 d = d"
| "polled inb (Suc n) d = polled inb n (snd (inb (PORT + 5) d))"

definition ready :: "'d inb \<Rightarrow> 'd \<Rightarrow> bool" where
  "ready inb d \<longleftrightarrow> fst (inb (PORT + 5) d) AND 0x20 \<noteq> 0"

lemma wait_step: "wait_empty inb d = (if ready inb d then Some (snd (inb (PORT + 5) d)) else wait_empty inb (snd (inb (PORT + 5) d)))"
  by (subst wait_empty.simps) (simp add: is_transmit_empty_def ready_def split_beta Let_def)

lemma wait_returns:
  "ready inb (polled inb n d) \<Longrightarrow> \<forall>i < n. \<not> ready inb (polled inb i d) \<Longrightarrow>
    wait_empty inb d = Some (polled inb (Suc n) d)"
proof (induction n arbitrary: d)
  case (Suc n)
  have "\<not> ready inb d" using Suc.prems(2) by (auto dest: spec [of _ 0])
  moreover have "\<forall>i < n. \<not> ready inb (polled inb i (snd (inb (PORT + 5) d)))"
    using Suc.prems(2) by (auto dest: spec [of _ "Suc _"])
  ultimately show ?case using Suc.IH [of "snd (inb (PORT + 5) d)"] Suc.prems(1) by (subst wait_step) simp
qed (subst wait_step, simp)

lemma wait_stuck:
  assumes "\<And>i. \<not> ready inb (polled inb i d)"
  shows "wait_empty inb d = None"
proof -
  have "\<And>r. wait_empty inb d = Some r \<Longrightarrow> (\<forall>i. \<not> ready inb (polled inb i d)) \<longrightarrow> False"
  proof (rule wait_empty.raw_induct [of "\<lambda>inb d r. (\<forall>i. \<not> ready inb (polled inb i d)) \<longrightarrow> False"])
    fix w inb d r
    assume IH: "\<And>inb d r. w inb d = Some r \<Longrightarrow> (\<forall>i. \<not> ready inb (polled inb i d)) \<longrightarrow> False"
      and e: "(let (v, d) = is_transmit_empty inb d in if v = 0 then w inb d else Some d) = Some r"
    show "(\<forall>i. \<not> ready inb (polled inb i d)) \<longrightarrow> False"
    proof
      assume never: "\<forall>i. \<not> ready inb (polled inb i d)"
      then have "fst (inb (PORT + 5) d) AND 0x20 = 0" by (auto simp: ready_def dest: spec [of _ 0])
      then have "w inb (snd (inb (PORT + 5) d)) = Some r"
        using e by (simp add: is_transmit_empty_def split_beta)
      moreover have "\<forall>i. \<not> ready inb (polled inb i (snd (inb (PORT + 5) d)))"
        using never by (auto dest: spec [of _ "Suc _"])
      ultimately show False using IH by blast
    qed
  qed
  then show ?thesis using assms by (cases "wait_empty inb d") auto
qed

text \<open>C27: \<open>serial_write\<close> returns exactly when some poll of the line status register finds the
  transmitter empty; it then writes its byte to the data port once, after the first such poll. On
  a port that is never ready it never returns.\<close>

theorem serial_write_exact:
  "serial_write inb outb a d =
    (if \<exists>n. ready inb (polled inb n d)
     then Some (outb PORT a (polled inb (Suc (LEAST n. ready inb (polled inb n d))) d)) else None)"
proof (cases "\<exists>n. ready inb (polled inb n d)")
  case True
  let ?n = "LEAST n. ready inb (polled inb n d)"
  have "ready inb (polled inb ?n d)" using True by (rule LeastI_ex)
  moreover have "\<forall>i < ?n. \<not> ready inb (polled inb i d)" using not_less_Least by blast
  ultimately have w: "wait_empty inb d = Some (polled inb (Suc ?n) d)" by (rule wait_returns)
  show ?thesis unfolding serial_write_def w if_P [OF True] by (rule option.map(2))
next
  case False
  then show ?thesis using wait_stuck [of inb d] by (simp add: serial_write_def)
qed

text \<open>
  What the driver relies on: the transmitter becomes empty in the end, polling sends nothing, and a
  byte written right after a poll that found the transmitter empty is sent. A byte written at
  another time may be lost.
\<close>

definition uart :: "'d inb \<Rightarrow> 'd outb \<Rightarrow> ('d \<Rightarrow> u8 list) \<Rightarrow> bool" where
  "uart inb outb sent \<longleftrightarrow>
     (\<forall>d. \<exists>n. ready inb (polled inb n d)) \<and>
     (\<forall>d. sent (snd (inb (PORT + 5) d)) = sent d) \<and>
     (\<forall>d a. ready inb d \<longrightarrow> sent (outb PORT a (snd (inb (PORT + 5) d))) = sent d @ [a])"

lemma sent_polled: "uart inb outb sent \<Longrightarrow> sent (polled inb n d) = sent d"
  by (induction n arbitrary: d) (simp_all add: uart_def)

lemma polled_Suc: "polled inb (Suc n) d = snd (inb (PORT + 5) (polled inb n d))"
  by (induction n arbitrary: d) simp_all

lemma serial_write_sent:
  assumes "uart inb outb sent"
  obtains d' where "serial_write inb outb a d = Some d'" "sent d' = sent d @ [a]"
proof -
  obtain n where n: "ready inb (polled inb n d)" "\<forall>i < n. \<not> ready inb (polled inb i d)"
    using assms exists_least_iff [of "\<lambda>n. ready inb (polled inb n d)"] by (auto simp: uart_def)
  have "serial_write inb outb a d = Some (outb PORT a (polled inb (Suc n) d))"
    using wait_returns [OF n] by (simp add: serial_write_def)
  moreover have "sent (outb PORT a (polled inb (Suc n) d)) = sent d @ [a]"
    unfolding polled_Suc using assms n(1) sent_polled [OF assms] by (simp add: uart_def)
  ultimately show ?thesis by (rule that)
qed

lemma serial_loop_sent:
  assumes "uart inb outb sent"
  shows "\<exists>d'. serial_write_loop inb outb a is d = Some d' \<and> sent d' = sent d @ map ((!) a) is"
proof (induction "is" arbitrary: d)
  case (Cons i "is")
  obtain d1 where "serial_write inb outb (a ! i) d = Some d1" "sent d1 = sent d @ [a ! i]"
    by (rule serial_write_sent [OF assms])
  with Cons.IH [of d1] show ?case by auto
qed simp

lemma serial_string_sends:
  assumes "uart inb outb sent" "unat len \<le> length a"
  shows "\<exists>d'. serial_write_string inb outb a len d = Some d' \<and> sent d' = sent d @ take (unat len) a"
proof -
  have "map ((!) a) [0..<unat len] = take (unat len) a"
    using assms(2) by (intro nth_equalityI) simp_all
  then show ?thesis
    using serial_loop_sent [OF assms(1), of a "[0..<unat len]" d] by (simp add: serial_write_string_def)
qed

text \<open>C25: on such a port \<open>serial_write_string\<close> returns, having sent the first \<open>len\<close> bytes in order
  and nothing else.\<close>

theorem serial_string_sent:
  assumes "uart inb outb sent" "unat len \<le> length a"
  shows "\<exists>d'. serial_write_string inb outb a len d = Some d' \<and> sent d' = sent d @ take (unat len) a"
  by (rule serial_string_sends [OF assms])

text \<open>\<open>serial_write_hex64\<close> sends the sixteen digits of the value, most significant first, and
  after them the terminating NUL of its buffer; what the buffer held before does not matter.\<close>

theorem serial_hex64_sent:
  assumes "uart inb outb sent" "length outstr = 16"
  shows "\<exists>d'. serial_write_hex64 inb outb val (outstr @ [0]) d = Some (hex_digits 16 val @ [0], d') \<and>
    sent d' = sent d @ hex_digits 16 val @ [0]"
proof -
  have f: "hex_fill (map (\<lambda>i. 15 - i) [0..<16]) val (outstr @ [0]) = hex_digits 16 val @ [0]"
    using hex_fill_digits [OF assms(2), of val "[0]"] by (simp only: hex_positions)
  have l: "length (hex_digits 16 val) = 16" by (simp add: hex_digits_def)
  obtain d' where "serial_write_string inb outb (hex_digits 16 val @ [0]) 17 d = Some d'"
    "sent d' = sent d @ hex_digits 16 val @ [0]"
    using serial_string_sends [OF assms(1), of 17 "hex_digits 16 val @ [0]" d] l by auto
  then show ?thesis unfolding serial_write_hex64_def Let_def f by simp
qed

section \<open>Witnesses\<close>

text \<open>A port that needs three polls for each byte and loses what is written too early.\<close>

definition slow_inb :: "(nat \<times> u8 list) inb" where
  "slow_inb p d = (case d of (b, log) \<Rightarrow> (if b = 0 then 0x20 else 0, b - 1, log))"

definition slow_outb :: "(nat \<times> u8 list) outb" where
  "slow_outb p a d = (case d of (b, log) \<Rightarrow> if b = 0 then (3, log @ [a]) else d)"

lemma slow_polled: "polled slow_inb n (b, log) = (b - n, log)"
  by (induction n arbitrary: b) (simp_all add: slow_inb_def)

lemma slow_uart: "uart slow_inb slow_outb snd"
proof -
  have "ready slow_inb (polled slow_inb (fst d) d)" for d
    by (cases d) (simp add: slow_polled ready_def slow_inb_def)
  then show ?thesis by (auto simp: uart_def ready_def slow_inb_def slow_outb_def)
qed

theorem serial_string_sent_witness:
  "\<exists>d'. serial_write_string slow_inb slow_outb [72, 105, 0] 2 (5, []) = Some d' \<and> snd d' = [72, 105]"
  using serial_string_sent [OF slow_uart, of 2 "[72, 105, 0]" "(5, [])"] by simp

theorem serial_hex64_sent_witness:
  "\<exists>d'. serial_write_hex64 slow_inb slow_outb 0xBEEF (replicate 16 48 @ [0]) (0, []) = Some (hex_digits 16 0xBEEF @ [0], d') \<and>
     drop 12 (snd d') = [66, 69, 69, 70, 0]"
proof -
  have "drop 12 (hex_digits 16 0xBEEF @ [0]) = [66, 69, 69, 70, 0]"
    by code_simp
  then show ?thesis
    using serial_hex64_sent [OF slow_uart, of "replicate 16 48" "0xBEEF" "(0, [])"] by auto
qed

end
