(* ===== verification/Terminal.thy ===== *)
theory Terminal
  imports Bytes Serial
begin

text \<open>
  The terminal on the frame buffer: \<open>kernel/arch/x86_64/tty.c\<close>. The bootloader's
  \<open>bootloader/arch/x86_64/uefi_tty.c\<close> holds the same functions once more (Boot_Terminal)
  and two that print numbers, which are here.

  \<open>m\<close> is byte memory: the text to write, and the PSF font at \<open>font_buffer\<close>. The frame buffer is
  the function \<open>pixels\<close> from the index of a pixel to its colour.
\<close>

section \<open>The state\<close>

record graphics_mode =
  gm_width :: u64
  gm_height :: u64
  gm_framebuffer_base :: u64
  gm_framebuffer_size :: u64

record tty =
  char_width :: u64
  char_height :: u64
  screen_width :: u64
  screen_height :: u64
  font_buffer :: u64
  framebuffer :: u64
  framebuffer_size :: u64
  fg_colour :: u32
  bg_colour :: u32
  terminal_column :: u64
  terminal_row :: u64
  TERMINAL_WIDTH :: u64
  TERMINAL_HEIGHT :: u64
  pixels :: "u64 \<Rightarrow> u32"

text \<open>\<open>struct psf2_header\<close>: magic 0, headersize 8, charsize 20, height 24, width 28.\<close>

definition PSF2_MAGIC_OK :: "byte_mem \<Rightarrow> u64 \<Rightarrow> bool" where
  "PSF2_MAGIC_OK m p \<longleftrightarrow> m p = 0x72 \<and> m (p + 1) = 0xb5 \<and> m (p + 2) = 0x4a \<and> m (p + 3) = 0x86"

definition psf_headersize :: "byte_mem \<Rightarrow> u64 \<Rightarrow> u32" where
  "psf_headersize m p = get32 m (p + 8)"

definition psf_charsize :: "byte_mem \<Rightarrow> u64 \<Rightarrow> u32" where
  "psf_charsize m p = get32 m (p + 20)"

section \<open>The operations\<close>

text \<open>\<open>None\<close> is the division by a zero glyph size.\<close>

definition terminal_init :: "byte_mem \<Rightarrow> u64 \<Rightarrow> graphics_mode \<Rightarrow> tty \<Rightarrow> (int \<times> tty) option" where
  "terminal_init m font_pointer gm t =
     (if \<not> PSF2_MAGIC_OK m font_pointer then Some (1, t)
      else
        let width = ucast (get32 m (font_pointer + 28)); height = ucast (get32 m (font_pointer + 24))
        in if width = 0 \<or> height = 0 then None
           else Some (0, t\<lparr>char_width := width, char_height := height,
                 screen_width := gm_width gm, screen_height := gm_height gm,
                 font_buffer := font_pointer, framebuffer := gm_framebuffer_base gm,
                 framebuffer_size := gm_framebuffer_size gm,
                 TERMINAL_WIDTH := gm_width gm div width, TERMINAL_HEIGHT := gm_height gm div height,
                 terminal_column := 0, terminal_row := 0\<rparr>))"

definition terminal_setcolour :: "u32 \<Rightarrow> u32 \<Rightarrow> tty \<Rightarrow> tty" where
  "terminal_setcolour fg bg t = t\<lparr>fg_colour := fg, bg_colour := bg\<rparr>"

text \<open>
  One pixel of a glyph: \<open>(c_pixels[i] & mask) ? fg : bg\<close>, a \<open>char\<close>, so sign-extended; then
  \<open>mask >>= 1\<close>. \<open>line\<close> is the index of the leftmost pixel of the line.
\<close>

definition draw_pixel :: "u8 \<Rightarrow> u64 \<Rightarrow> u32 \<Rightarrow> u32 \<Rightarrow> nat \<Rightarrow> u32 \<times> (u64 \<Rightarrow> u32) \<Rightarrow> u32 \<times> (u64 \<Rightarrow> u32)" where
  "draw_pixel c_pixel line fg bg j s =
     (case s of (msk, px) \<Rightarrow>
       (drop_bit 1 msk, px(line + of_nat j := if scast c_pixel AND msk \<noteq> 0 then fg else bg)))"

definition draw_line ::
    "(nat \<Rightarrow> u64) \<Rightarrow> u64 \<Rightarrow> u8 \<Rightarrow> u64 \<Rightarrow> u32 \<Rightarrow> u32 \<Rightarrow> (u64 \<Rightarrow> u32) \<Rightarrow> u64 \<Rightarrow> u32" where
  "draw_line ov width c_pixel line fg bg px =
     snd (fold (draw_pixel c_pixel line fg bg) [0..<unat width]
       (ucast (c_one_shl ov (unat (width - 1))), px))"

definition glyph_at :: "byte_mem \<Rightarrow> u64 \<Rightarrow> u8 \<Rightarrow> u64" where
  "glyph_at m font c = font + ucast (psf_headersize m font) + ucast (ucast c * psf_charsize m font)"

definition terminal_putentryat ::
    "(nat \<Rightarrow> u64) \<Rightarrow> byte_mem \<Rightarrow> u8 \<Rightarrow> u64 \<Rightarrow> u64 \<Rightarrow> u32 \<Rightarrow> u32 \<Rightarrow> tty \<Rightarrow> tty" where
  "terminal_putentryat ov m c column row fg bg t =
     (let c_pixels = glyph_at m (font_buffer t) c
      in t\<lparr>pixels := fold (\<lambda>i. draw_line ov (char_width t) (m (c_pixels + of_nat i))
             ((row * 16 + of_nat i) * screen_width t + column * 8) fg bg)
           [0..<unat (char_height t)] (pixels t)\<rparr>)"

definition next_row :: "tty \<Rightarrow> tty" where
  "next_row t = (if terminal_row t + 1 = TERMINAL_HEIGHT t then t\<lparr>terminal_row := 0\<rparr>
     else t\<lparr>terminal_row := terminal_row t + 1\<rparr>)"

definition terminal_putchar :: "(nat \<Rightarrow> u64) \<Rightarrow> byte_mem \<Rightarrow> u8 \<Rightarrow> tty \<Rightarrow> tty" where
  "terminal_putchar ov m c t =
     (let t = terminal_putentryat ov m c (terminal_column t) (terminal_row t) (fg_colour t) (bg_colour t) t;
          t = t\<lparr>terminal_column := terminal_column t + 1\<rparr>
      in if terminal_column t = TERMINAL_WIDTH t then next_row (t\<lparr>terminal_column := 0\<rparr>) else t)"

text \<open>Also the case \<open>'\n'\<close> of \<open>terminal_write\<close>.\<close>

definition terminal_newline :: "tty \<Rightarrow> tty" where
  "terminal_newline t =
     (let t = t\<lparr>terminal_row := terminal_row t + 1\<rparr>
      in if terminal_row t = TERMINAL_HEIGHT t then t\<lparr>terminal_row := 0, terminal_column := 0\<rparr> else t)"

definition write_byte :: "(nat \<Rightarrow> u64) \<Rightarrow> byte_mem \<Rightarrow> u8 \<Rightarrow> tty \<Rightarrow> tty" where
  "write_byte ov m c t =
     (if c = 10 then terminal_newline t
      else if c = 13 then t\<lparr>terminal_column := 0\<rparr>
      else if c = 9
        then
          let t = t\<lparr>terminal_column := terminal_column t + (4 - terminal_column t mod 4)\<rparr>
          in if terminal_column t = TERMINAL_WIDTH t then next_row (t\<lparr>terminal_column := 0\<rparr>) else t
      else if 0x20 \<le> c \<and> c < 0xDC then terminal_putchar ov m c t
      else t)"

definition terminal_write :: "(nat \<Rightarrow> u64) \<Rightarrow> byte_mem \<Rightarrow> u64 \<Rightarrow> u64 \<Rightarrow> tty \<Rightarrow> tty" where
  "terminal_write ov m data len t = fold (\<lambda>i. write_byte ov m (m (data + of_nat i))) [0..<unat len] t"

definition terminal_writestring :: "(nat \<Rightarrow> u64) \<Rightarrow> byte_mem \<Rightarrow> u64 \<Rightarrow> tty \<Rightarrow> tty option" where
  "terminal_writestring ov m data t =
     map_option (\<lambda>len. terminal_write ov m data len t) (strlen m data)"

definition terminal_cursor :: "u64 \<Rightarrow> u64 \<Rightarrow> tty \<Rightarrow> tty" where
  "terminal_cursor x y t =
     (let t = t\<lparr>terminal_column := x, terminal_row := y\<rparr>;
          t = (if TERMINAL_WIDTH t \<le> terminal_column t then t\<lparr>terminal_column := 0\<rparr> else t)
      in if TERMINAL_HEIGHT t \<le> terminal_row t then t\<lparr>terminal_row := 0\<rparr> else t)"

section \<open>Numbers on the bootloader's terminal\<close>

text \<open>Bytes written at an address.\<close>

definition store_bytes :: "u64 \<Rightarrow> u8 list \<Rightarrow> byte_mem \<Rightarrow> byte_mem" where
  "store_bytes a bs m = fold (\<lambda>i m. m(a + of_nat i := bs ! i)) [0..<length bs] m"

definition terminal_print_hex64 ::
    "(nat \<Rightarrow> u64) \<Rightarrow> u64 \<Rightarrow> u64 \<Rightarrow> byte_mem \<times> tty \<Rightarrow> byte_mem \<times> tty" where
  "terminal_print_hex64 ov hex64outstr val s =
     (case s of (m, t) \<Rightarrow>
       let m = store_bytes hex64outstr
             (hex_fill (map (\<lambda>i. 15 - i) [0..<16]) val (bytes_at m hex64outstr 17)) m
       in (m, terminal_write ov m hex64outstr 17 t))"

text \<open>The digits go to \<open>hex8outstr\<close>; what is written is \<open>hex64outstr\<close>.\<close>

definition terminal_print_hex8 ::
    "(nat \<Rightarrow> u64) \<Rightarrow> u64 \<Rightarrow> u64 \<Rightarrow> u64 \<Rightarrow> u8 \<Rightarrow> byte_mem \<times> tty \<Rightarrow> (byte_mem \<times> tty) option" where
  "terminal_print_hex8 ov hex64outstr hex8outstr msg val s =
     (case s of (m, t) \<Rightarrow>
       let m = store_bytes hex8outstr (hex_fill (rev [0..<2]) (scast val) (bytes_at m hex8outstr 3)) m
       in do { t \<leftarrow> terminal_writestring ov m msg t;
               Some (m, terminal_write ov m hex64outstr 2 t) })"

section \<open>The cursor\<close>

definition cursor_ok :: "tty \<Rightarrow> bool" where
  "cursor_ok t \<longleftrightarrow> terminal_column t < TERMINAL_WIDTH t \<and> terminal_row t < TERMINAL_HEIGHT t"

text \<open>What writing never changes.\<close>

definition same_screen :: "tty \<Rightarrow> tty \<Rightarrow> bool" where
  "same_screen t t' \<longleftrightarrow> char_width t' = char_width t \<and> char_height t' = char_height t \<and>
     screen_width t' = screen_width t \<and> screen_height t' = screen_height t \<and>
     font_buffer t' = font_buffer t \<and> framebuffer t' = framebuffer t \<and>
     TERMINAL_WIDTH t' = TERMINAL_WIDTH t \<and> TERMINAL_HEIGHT t' = TERMINAL_HEIGHT t \<and>
     fg_colour t' = fg_colour t \<and> bg_colour t' = bg_colour t"

lemma same_screen_refl [simp]: "same_screen t t"
  by (simp add: same_screen_def)

lemma same_screen_trans: "same_screen a b \<Longrightarrow> same_screen b c \<Longrightarrow> same_screen a c"
  by (simp add: same_screen_def)

lemma putentryat_simps [simp]:
  "terminal_column (terminal_putentryat ov m c x y fg bg t) = terminal_column t"
  "terminal_row (terminal_putentryat ov m c x y fg bg t) = terminal_row t"
  "TERMINAL_WIDTH (terminal_putentryat ov m c x y fg bg t) = TERMINAL_WIDTH t"
  "TERMINAL_HEIGHT (terminal_putentryat ov m c x y fg bg t) = TERMINAL_HEIGHT t"
  by (simp_all add: terminal_putentryat_def)

lemma write_byte_screen: "same_screen t (write_byte ov m c t)"
  by (simp add: write_byte_def terminal_newline_def terminal_putchar_def terminal_putentryat_def
      next_row_def same_screen_def Let_def)

lemma inc_below: "(a :: u64) < b \<Longrightarrow> a + 1 \<noteq> b \<Longrightarrow> a + 1 < b"
  by (metis inc_le order.not_eq_order_implies_strict)

text \<open>A tab goes to the next multiple of four, which a multiple of four bounds.\<close>

lemma tab_unat:
  assumes "(a :: u64) < b" "4 dvd unat b"
  shows "unat (a + (4 - a mod 4)) = unat a + (4 - unat a mod 4)" "a + (4 - a mod 4) \<le> b"
proof -
  have "unat (a mod 4) = unat a mod 4" by (simp add: unat_mod)
  moreover have lt: "a mod 4 \<le> 4" by (simp add: word_le_nat_alt unat_mod less_imp_le)
  ultimately have d: "unat (4 - a mod 4) = 4 - unat a mod 4" by (simp add: unat_sub)
  obtain k where k: "unat b = 4 * k" using assms(2) by (auto elim: dvdE)
  have "unat a < 4 * k" using assms(1) k by (simp add: word_less_nat_alt)
  then have le: "unat a + (4 - unat a mod 4) \<le> 4 * k" by presburger
  then show u: "unat (a + (4 - a mod 4)) = unat a + (4 - unat a mod 4)"
    using d k unat_u64_less [of b] by (subst unat_add_no_wrap) simp_all
  show "a + (4 - a mod 4) \<le> b" using le k u by (simp add: word_le_nat_alt)
qed

lemma next_row_ok:
  "terminal_row t < TERMINAL_HEIGHT t \<Longrightarrow> terminal_column t < TERMINAL_WIDTH t \<Longrightarrow> cursor_ok (next_row t)"
  by (auto simp: next_row_def cursor_ok_def inc_below intro: le_less_trans [OF word_zero_le])

lemma write_byte_cursor:
  assumes "cursor_ok t" "4 dvd unat (TERMINAL_WIDTH t)"
  shows "cursor_ok (write_byte ov m c t)"
proof -
  have pos: "0 < TERMINAL_WIDTH t" "0 < TERMINAL_HEIGHT t"
    using assms(1) by (auto simp: cursor_ok_def intro: le_less_trans [OF word_zero_le])
  have tab: "terminal_column t + (4 - terminal_column t mod 4) \<le> TERMINAL_WIDTH t"
    using assms by (intro tab_unat(2)) (simp_all add: cursor_ok_def)
  have "cursor_ok (terminal_newline t)"
    using assms(1) pos by (simp add: terminal_newline_def cursor_ok_def inc_below Let_def)
  moreover have "cursor_ok (terminal_putchar ov m c t)"
    using assms(1) pos
    by (auto simp: terminal_putchar_def Let_def cursor_ok_def inc_below intro!: next_row_ok [unfolded cursor_ok_def])
  moreover have "cursor_ok (t\<lparr>terminal_column := 0\<rparr>)" using assms(1) pos by (simp add: cursor_ok_def)
  moreover have "cursor_ok (next_row (t\<lparr>terminal_column := 0\<rparr>))"
    using assms(1) pos by (intro next_row_ok) (simp_all add: cursor_ok_def)
  ultimately show ?thesis
    using assms(1) tab by (auto simp: write_byte_def Let_def cursor_ok_def)
qed

lemma write_bytes_cursor:
  assumes "cursor_ok t" "4 dvd unat (TERMINAL_WIDTH t)"
  shows "cursor_ok (fold (\<lambda>i. write_byte ov m (f i)) is t) \<and> same_screen t (fold (\<lambda>i. write_byte ov m (f i)) is t)"
  using assms
proof (induction "is" arbitrary: t)
  case (Cons i "is")
  have s: "same_screen t (write_byte ov m (f i) t)" by (rule write_byte_screen)
  then have "TERMINAL_WIDTH (write_byte ov m (f i) t) = TERMINAL_WIDTH t" by (simp add: same_screen_def)
  with Cons.IH [of "write_byte ov m (f i) t"] write_byte_cursor [OF Cons.prems] Cons.prems s same_screen_trans
  show ?case by (metis fold_simps(2))
qed simp

end
