(* ===== verification/Terminal_Props.thy ===== *)
theory Terminal_Props
  imports Terminal
begin

text \<open>
  What the terminal shows: an abstract terminal, a grid of characters with a cursor on natural
  numbers, and the proof that the writes of the code to the frame buffer display it.
\<close>

section \<open>One glyph\<close>

lemma mask_bit:
  assumes "n < 8"
  shows "(scast (b :: u8) :: u32) AND drop_bit n (ucast (c_one_shl ov 7)) \<noteq> 0 \<longleftrightarrow> bit b (7 - n)"
proof -
  have "(ucast (c_one_shl ov 7) :: u32) = 2 ^ 7"
    by (simp add: c_one_shl_push)
  moreover have "drop_bit n (2 ^ 7 :: u32) = 2 ^ (7 - n)"
  proof -
    have "n = 0 \<or> n = 1 \<or> n = 2 \<or> n = 3 \<or> n = 4 \<or> n = 5 \<or> n = 6 \<or> n = 7" using assms by linarith
    then show ?thesis by auto
  qed
  ultimately have "(scast b :: u32) AND drop_bit n (ucast (c_one_shl ov 7)) \<noteq> 0 \<longleftrightarrow> bit (scast b :: u32) (7 - n)"
    by (simp add: and_exp_eq_0_iff_not_bit)
  also have "\<dots> \<longleftrightarrow> bit b (7 - n)"
  proof -
    have "7 - n < 32" "7 - n < 8" by linarith+
    then show ?thesis by (simp add: bit_simps)
  qed
  finally show ?thesis .
qed

definition glyph_colour :: "u8 \<Rightarrow> u32 \<Rightarrow> u32 \<Rightarrow> nat \<Rightarrow> u32" where
  "glyph_colour b fg bg j = (if bit b (7 - j) then fg else bg)"

lemma draw_line_upto:
  assumes "n \<le> 8"
  shows "fold (draw_pixel b line fg bg) [0..<n] (ucast (c_one_shl ov 7), px) =
    (drop_bit n (ucast (c_one_shl ov 7)),
     \<lambda>x. if unat (x - line) < n then glyph_colour b fg bg (unat (x - line)) else px x)"
  using assms
proof (induction n)
  case (Suc n)
  have n: "unat (of_nat n :: u64) = n" using Suc.prems by (intro unat_of_nat_u64) simp
  have at: "x = line + of_nat n \<longleftrightarrow> unat (x - line) = n" for x
    using n by (metis add_diff_cancel_left' diff_add_cancel add.commute word_unat_eq_iff)
  have m: "drop_bit 1 (drop_bit n (ucast (c_one_shl ov 7) :: u32)) = drop_bit (Suc n) (ucast (c_one_shl ov 7))"
    by simp
  have "(if (scast b :: u32) AND drop_bit n (ucast (c_one_shl ov 7)) \<noteq> 0 then fg else bg) = glyph_colour b fg bg n"
    using Suc.prems by (simp add: mask_bit glyph_colour_def)
  with Suc show ?case
    by (simp add: draw_pixel_def m fun_eq_iff at less_Suc_eq)
qed simp

lemma draw_line_8:
  "draw_line ov 8 b line fg bg px x =
    (if unat (x - line) < 8 then glyph_colour b fg bg (unat (x - line)) else px x)"
  using draw_line_upto [of 8 b line fg bg ov px] by (simp add: draw_line_def)

section \<open>The layout of the screen\<close>

text \<open>The index of pixel \<open>j\<close> of line \<open>i\<close> of the cell in column \<open>c\<close> and row \<open>r\<close>.\<close>

definition pixel_index :: "nat \<Rightarrow> nat \<Rightarrow> nat \<Rightarrow> nat \<Rightarrow> nat \<Rightarrow> nat" where
  "pixel_index sw c r i j = (r * 16 + i) * sw + c * 8 + j"

text \<open>A screen of 8 by 16 glyphs that has room for the terminal.\<close>

definition screen_ok :: "tty \<Rightarrow> bool" where
  "screen_ok t \<longleftrightarrow> char_width t = 8 \<and> char_height t = 16 \<and>
     unat (TERMINAL_WIDTH t) * 8 \<le> unat (screen_width t) \<and> unat (TERMINAL_HEIGHT t) * 16 \<le> unat (screen_height t) \<and>
     unat (screen_width t) * unat (screen_height t) < 2 ^ 64"

lemma pixel_index_inj:
  assumes "c * 8 + 8 \<le> sw" "j < 8" "c' * 8 + 8 \<le> sw" "j' < 8" "i < 16" "i' < 16"
    "pixel_index sw c r i j = pixel_index sw c' r' i' j'"
  shows "c = c' \<and> r = r' \<and> i = i' \<and> j = j'"
proof -
  have d: "pixel_index sw c r i j div sw = r * 16 + i" "pixel_index sw c r i j mod sw = c * 8 + j"
    if "c * 8 + 8 \<le> sw" "j < 8" for c r i j
    using that by (simp_all add: pixel_index_def add.assoc)
  have "r * 16 + i = r' * 16 + i'" "c * 8 + j = c' * 8 + j'"
    using d [OF assms(1,2)] d [OF assms(3,4)] assms(7) by metis+
  note eqs = this
  have split: "a = a' \<and> b = b'" if "a * n + b = a' * n + b'" "b < n" "b' < n" for a a' b b' n :: nat
  proof -
    have "(a * n + b) div n = a" "(a' * n + b') div n = a'" using that(2,3) by simp_all
    then show ?thesis using that(1) by auto
  qed
  show ?thesis using split [OF eqs(1) assms(5,6)] split [OF eqs(2) assms(2,4)] by simp
qed

lemma pixel_index_below:
  assumes "c < W" "r < H" "W * 8 \<le> sw" "H * 16 \<le> sh" "i < 16" "j < 8"
  shows "pixel_index sw c r i j < sw * sh"
proof -
  have "c * 8 + j < sw" using assms by linarith
  then have "pixel_index sw c r i j < (r * 16 + i + 1) * sw" by (simp add: pixel_index_def algebra_simps)
  also have "r * 16 + i + 1 \<le> sh" using assms by linarith
  then have "(r * 16 + i + 1) * sw \<le> sh * sw" by (rule mult_le_mono1)
  finally show ?thesis by (simp add: mult.commute)
qed

text \<open>The lines a glyph is drawn on, by the code's address arithmetic.\<close>

lemma line_word:
  "(y * 16 + of_nat i) * sw + x * 8 + of_nat j = (of_nat (pixel_index (unat sw) (unat x) (unat y) i j) :: u64)"
  by (simp add: pixel_index_def)

section \<open>Drawing a character\<close>

definition cell_shows :: "byte_mem \<Rightarrow> tty \<Rightarrow> nat \<Rightarrow> nat \<Rightarrow> u8 \<Rightarrow> u32 \<Rightarrow> u32 \<Rightarrow> bool" where
  "cell_shows m t c r ch fg bg \<longleftrightarrow> (\<forall>i < 16. \<forall>j < 8.
     pixels t (of_nat (pixel_index (unat (screen_width t)) c r i j)) =
       glyph_colour (m (glyph_at m (font_buffer t) ch + of_nat i)) fg bg j)"

lemma draw_lines:
  fixes f :: "nat \<Rightarrow> u8" and idx :: "nat \<Rightarrow> nat \<Rightarrow> nat" and start :: "nat \<Rightarrow> u64"
  assumes idx: "\<And>i j. i < 16 \<Longrightarrow> j < 8 \<Longrightarrow> idx i j < 2 ^ 64"
    and inj: "\<And>i j i' j'. i < 16 \<Longrightarrow> j < 8 \<Longrightarrow> i' < 16 \<Longrightarrow> j' < 8 \<Longrightarrow> idx i j = idx i' j' \<Longrightarrow> i = i'"
    and st: "\<And>i j. start i + of_nat j = of_nat (idx i j)"
    and n: "n \<le> 16"
  shows "(\<forall>i < n. \<forall>j < 8. fold (\<lambda>i. draw_line ov 8 (f i) (start i) fg bg) [0..<n] px (of_nat (idx i j)) = glyph_colour (f i) fg bg j) \<and>
    (\<forall>x. (\<forall>i < n. \<forall>j < 8. x \<noteq> of_nat (idx i j)) \<longrightarrow> fold (\<lambda>i. draw_line ov 8 (f i) (start i) fg bg) [0..<n] px x = px x)"
  using n
proof (induction n)
  case (Suc n)
  let ?px = "fold (\<lambda>i. draw_line ov 8 (f i) (start i) fg bg) [0..<n] px"
  have off: "unat (of_nat (idx n j) - start n) = j" if "j < 8" for j
    using that by (simp add: st [symmetric] unat_of_nat_u64)
  have miss: "\<not> unat (x - start n) < 8" if "\<forall>j < 8. x \<noteq> of_nat (idx n j)" for x
  proof
    assume "unat (x - start n) < 8"
    moreover have "x = start n + of_nat (unat (x - start n))" by simp
    ultimately show False using that st by metis
  qed
  have here: "draw_line ov 8 (f n) (start n) fg bg ?px (of_nat (idx n j)) = glyph_colour (f n) fg bg j" if "j < 8" for j
    using off [OF that] that by (simp add: draw_line_8)
  have there: "draw_line ov 8 (f n) (start n) fg bg ?px x = ?px x" if "\<forall>j < 8. x \<noteq> of_nat (idx n j)" for x
    using miss [OF that] by (simp add: draw_line_8)
  have old: "draw_line ov 8 (f n) (start n) fg bg ?px (of_nat (idx i j)) = glyph_colour (f i) fg bg j" if "i < n" "j < 8" for i j
  proof -
    have "(of_nat (idx i j) :: u64) \<noteq> of_nat (idx n j')" if "j' < 8" for j'
      using that \<open>i < n\<close> \<open>j < 8\<close> Suc.prems inj [of i j n j'] idx [of i j] idx [of n j'] of_nat_inj_word [of "idx i j" "idx n j'", where 'a = 64]
      by auto
    then show ?thesis using Suc that there by auto
  qed
  have same: "draw_line ov 8 (f n) (start n) fg bg ?px x = px x" if "\<forall>i < Suc n. \<forall>j < 8. x \<noteq> of_nat (idx i j)" for x
    using Suc there [of x] that by simp
  show ?case using here old same by (auto simp: less_Suc_eq)
qed simp

lemma putentryat_draws:
  fixes ov m ch fg bg
  assumes "screen_ok t" "x < TERMINAL_WIDTH t" "y < TERMINAL_HEIGHT t"
  defines "t' \<equiv> terminal_putentryat ov m ch x y fg bg t"
  shows "cell_shows m t' (unat x) (unat y) ch fg bg"
    "\<forall>k. (\<forall>i < 16. \<forall>j < 8. k \<noteq> of_nat (pixel_index (unat (screen_width t)) (unat x) (unat y) i j)) \<longrightarrow>
      pixels t' k = pixels t k"
proof -
  let ?sw = "unat (screen_width t)" and ?sh = "unat (screen_height t)"
  let ?idx = "pixel_index ?sw (unat x) (unat y)"
  have b: "unat x < unat (TERMINAL_WIDTH t)" "unat y < unat (TERMINAL_HEIGHT t)"
    using assms(2,3) by (simp_all add: word_less_nat_alt)
  have below: "?idx i j < 2 ^ 64" if "i < 16" "j < 8" for i j
    using pixel_index_below [OF b, of ?sw ?sh i j] assms(1) that by (simp add: screen_ok_def)
  have inj: "i = i'" if "i < 16" "j < 8" "i' < 16" "j' < 8" "?idx i j = ?idx i' j'" for i j i' j'
    using pixel_index_inj [of "unat x" ?sw j "unat x" j' i i' "unat y" "unat y"] that b assms(1)
    by (simp add: screen_ok_def)
  have px: "pixels t' = fold (\<lambda>i. draw_line ov 8 (m (glyph_at m (font_buffer t) ch + of_nat i))
      ((y * 16 + of_nat i) * screen_width t + x * 8) fg bg) [0..<16] (pixels t)"
    using assms(1) by (simp add: t'_def terminal_putentryat_def screen_ok_def Let_def)
  have s: "screen_width t' = screen_width t" "font_buffer t' = font_buffer t"
    by (simp_all add: t'_def terminal_putentryat_def)
  let ?px = "fold (\<lambda>i. draw_line ov 8 (m (glyph_at m (font_buffer t) ch + of_nat i))
      ((y * 16 + of_nat i) * screen_width t + x * 8) fg bg) [0..<16] (pixels t)"
  have d: "(\<forall>i < 16. \<forall>j < 8. ?px (of_nat (?idx i j)) =
        glyph_colour (m (glyph_at m (font_buffer t) ch + of_nat i)) fg bg j) \<and>
      (\<forall>k. (\<forall>i < 16. \<forall>j < 8. k \<noteq> of_nat (?idx i j)) \<longrightarrow> ?px k = pixels t k)"
  proof (rule draw_lines)
    show "i = i'" if "i < 16" "j < 8" "i' < 16" "j' < 8" "?idx i j = ?idx i' j'" for i j i' j'
      using that by (rule inj)
    show "?idx i j < 2 ^ 64" if "i < 16" "j < 8" for i j using that by (rule below)
  qed (simp_all add: line_word)
  show "cell_shows m t' (unat x) (unat y) ch fg bg"
    unfolding cell_shows_def px s using d by simp
  show "\<forall>k. (\<forall>i < 16. \<forall>j < 8. k \<noteq> of_nat (?idx i j)) \<longrightarrow> pixels t' k = pixels t k"
    unfolding px using d by simp
qed

section \<open>The abstract terminal\<close>

text \<open>
  A cursor and a grid of characters with their colours; \<open>None\<close> is a cell nothing is known about.
\<close>

record screen =
  at_col :: nat
  at_row :: nat
  grid :: "nat \<Rightarrow> nat \<Rightarrow> (u8 \<times> u32 \<times> u32) option"

definition down :: "nat \<Rightarrow> screen \<Rightarrow> screen" where
  "down H v = v\<lparr>at_row := if at_row v + 1 = H then 0 else at_row v + 1\<rparr>"

definition wrap_line :: "nat \<Rightarrow> nat \<Rightarrow> nat \<Rightarrow> screen \<Rightarrow> screen" where
  "wrap_line W H c v = (if c = W then down H (v\<lparr>at_col := 0\<rparr>) else v\<lparr>at_col := c\<rparr>)"

definition type_char :: "nat \<Rightarrow> nat \<Rightarrow> u32 \<Rightarrow> u32 \<Rightarrow> u8 \<Rightarrow> screen \<Rightarrow> screen" where
  "type_char W H fg bg ch v =
     wrap_line W H (at_col v + 1)
       (v\<lparr>grid := (grid v)(at_col v := (grid v (at_col v))(at_row v := Some (ch, fg, bg)))\<rparr>)"

definition line_feed :: "nat \<Rightarrow> screen \<Rightarrow> screen" where
  "line_feed H v = (if at_row v + 1 = H then v\<lparr>at_row := 0, at_col := 0\<rparr> else v\<lparr>at_row := at_row v + 1\<rparr>)"

definition type_byte :: "nat \<Rightarrow> nat \<Rightarrow> u32 \<Rightarrow> u32 \<Rightarrow> u8 \<Rightarrow> screen \<Rightarrow> screen" where
  "type_byte W H fg bg c v =
     (if c = 10 then line_feed H v
      else if c = 13 then v\<lparr>at_col := 0\<rparr>
      else if c = 9 then wrap_line W H (at_col v + (4 - at_col v mod 4)) v
      else if 0x20 \<le> c \<and> c < 0xDC then type_char W H fg bg c v
      else v)"

fun cell_is :: "byte_mem \<Rightarrow> tty \<Rightarrow> nat \<Rightarrow> nat \<Rightarrow> (u8 \<times> u32 \<times> u32) option \<Rightarrow> bool" where
  "cell_is m t c r None \<longleftrightarrow> True"
| "cell_is m t c r (Some (ch, fg, bg)) \<longleftrightarrow> cell_shows m t c r ch fg bg"

text \<open>The frame buffer shows the grid, and the cursors agree.\<close>

definition displays :: "byte_mem \<Rightarrow> tty \<Rightarrow> screen \<Rightarrow> bool" where
  "displays m t v \<longleftrightarrow> unat (terminal_column t) = at_col v \<and> unat (terminal_row t) = at_row v \<and>
     (\<forall>c < unat (TERMINAL_WIDTH t). \<forall>r < unat (TERMINAL_HEIGHT t). cell_is m t c r (grid v c r))"

lemma cell_is_cong:
  assumes "pixels t' = pixels t" "screen_width t' = screen_width t" "font_buffer t' = font_buffer t"
  shows "cell_is m t' c r g = cell_is m t c r g"
  using assms by (cases "(m, t, c, r, g)" rule: cell_is.cases) (simp_all add: cell_shows_def)

lemma displays_cursor:
  assumes "displays m t v" "same_screen t t'" "pixels t' = pixels t" "grid v' = grid v"
    "unat (terminal_column t') = at_col v'" "unat (terminal_row t') = at_row v'"
  shows "displays m t' v'"
proof -
  have "cell_is m t' = cell_is m t"
    using assms(2,3) cell_is_cong [of t' t] by (auto simp: same_screen_def fun_eq_iff)
  then show ?thesis using assms by (simp add: displays_def same_screen_def)
qed

lemma unat_inc: "(a :: u64) < b \<Longrightarrow> unat (a + 1) = unat a + 1"
  using unat_word_less [of b] by (subst unat_add_no_wrap) (simp_all add: word_less_nat_alt del: unat_u64_less)

lemma displays_next_row:
  assumes "displays m t v" "terminal_row t < TERMINAL_HEIGHT t"
  shows "displays m (next_row t) (down (unat (TERMINAL_HEIGHT t)) v)"
  using assms(2) unat_inc [OF assms(2)] assms(1)
  by (intro displays_cursor [OF assms(1)])
    (auto simp: next_row_def down_def same_screen_def displays_def word_unat_eq_iff)

lemma displays_wrap:
  assumes "displays m t v" "terminal_row t < TERMINAL_HEIGHT t" "unat x = c"
  shows "displays m
    (if x = TERMINAL_WIDTH t then next_row (t\<lparr>terminal_column := 0\<rparr>) else t\<lparr>terminal_column := x\<rparr>)
    (wrap_line (unat (TERMINAL_WIDTH t)) (unat (TERMINAL_HEIGHT t)) c v)"
proof (cases "x = TERMINAL_WIDTH t")
  case True
  have "displays m (t\<lparr>terminal_column := 0\<rparr>) (v\<lparr>at_col := 0\<rparr>)"
    using assms(1) by (intro displays_cursor [OF assms(1)]) (simp_all add: same_screen_def displays_def)
  from displays_next_row [OF this] True assms(2,3) show ?thesis by (simp add: wrap_line_def)
next
  case False
  then have "c \<noteq> unat (TERMINAL_WIDTH t)" using assms(3) by (simp add: word_unat_eq_iff)
  then show ?thesis
    using False assms(1,3) by (simp add: wrap_line_def) (intro displays_cursor [OF assms(1)], simp_all add: same_screen_def displays_def)
qed

lemma displays_draw:
  assumes "displays m t v" "screen_ok t" "cursor_ok t"
  shows "displays m (terminal_putentryat ov m ch (terminal_column t) (terminal_row t) (fg_colour t) (bg_colour t) t)
    (v\<lparr>grid := (grid v)(at_col v := (grid v (at_col v))(at_row v := Some (ch, fg_colour t, bg_colour t)))\<rparr>)"
    (is "displays m ?t ?v")
proof -
  let ?x = "unat (terminal_column t)" and ?y = "unat (terminal_row t)"
  have xy: "terminal_column t < TERMINAL_WIDTH t" "terminal_row t < TERMINAL_HEIGHT t"
    using assms(3) by (simp_all add: cursor_ok_def)
  note draws = putentryat_draws [OF assms(2) xy, where m = m and ov = ov and ch = ch and fg = "fg_colour t" and bg = "bg_colour t"]
  have s: "screen_width ?t = screen_width t" "font_buffer ?t = font_buffer t"
    by (simp_all add: terminal_putentryat_def)
  have keep: "cell_is m ?t c r g"
    if cr: "c < unat (TERMINAL_WIDTH t)" "r < unat (TERMINAL_HEIGHT t)" and ne: "\<not> (c = ?x \<and> r = ?y)"
      and sh: "cell_is m t c r g" for c r g
  proof -
    have "pixels ?t (of_nat (pixel_index (unat (screen_width t)) c r i j)) = pixels t (of_nat (pixel_index (unat (screen_width t)) c r i j))"
      if ij: "i < 16" "j < 8" for i j
    proof -
      let ?idx = "pixel_index (unat (screen_width t))"
      have lim: "unat (screen_width t) * unat (screen_height t) < 2 ^ 64" using assms(2) by (simp add: screen_ok_def)
      have b: "?idx c r i j < 2 ^ 64" "?idx ?x ?y i' j' < 2 ^ 64" if "i' < 16" "j' < 8" for i' j'
        using pixel_index_below [OF cr, of "unat (screen_width t)" "unat (screen_height t)" i j]
          pixel_index_below [of ?x "unat (TERMINAL_WIDTH t)" ?y "unat (TERMINAL_HEIGHT t)" "unat (screen_width t)" "unat (screen_height t)" i' j']
          assms(2) xy ij that lim by (simp_all add: screen_ok_def word_less_nat_alt)
      have "(of_nat (?idx c r i j) :: u64) \<noteq> of_nat (?idx ?x ?y i' j')" if "i' < 16" "j' < 8" for i' j'
      proof
        assume "(of_nat (?idx c r i j) :: u64) = of_nat (?idx ?x ?y i' j')"
        then have e: "?idx c r i j = ?idx ?x ?y i' j'" using b [OF that] of_nat_inj_word [where 'a = 64] by simp
        have "c * 8 + 8 \<le> unat (screen_width t)" "?x * 8 + 8 \<le> unat (screen_width t)"
          using cr(1) xy(1) assms(2) by (simp_all add: screen_ok_def word_less_nat_alt)
        from pixel_index_inj [OF this(1) ij(2) this(2) that(2) ij(1) that(1) e] ne show False by simp
      qed
      then show ?thesis using draws(2) by blast
    qed
    then show ?thesis using sh by (cases "(m, t, c, r, g)" rule: cell_is.cases) (simp_all add: cell_shows_def s)
  qed
  have "cell_is m ?t c r (grid ?v c r)"
    if "c < unat (TERMINAL_WIDTH t)" "r < unat (TERMINAL_HEIGHT t)" for c r
  proof (cases "c = ?x \<and> r = ?y")
    case True
    then show ?thesis using draws(1) assms(1) by (simp add: displays_def)
  next
    case False
    then have "grid ?v c r = grid v c r" using assms(1) by (auto simp: displays_def)
    moreover have "cell_is m t c r (grid v c r)" using assms(1) that by (simp add: displays_def)
    ultimately show ?thesis using keep [OF that False] by simp
  qed
  then show ?thesis using assms(1) by (simp add: displays_def)
qed

lemma displays_putchar:
  assumes "displays m t v" "screen_ok t" "cursor_ok t"
  shows "displays m (terminal_putchar ov m ch t)
    (type_char (unat (TERMINAL_WIDTH t)) (unat (TERMINAL_HEIGHT t)) (fg_colour t) (bg_colour t) ch v)"
proof -
  let ?t = "terminal_putentryat ov m ch (terminal_column t) (terminal_row t) (fg_colour t) (bg_colour t) t"
  have "terminal_row ?t < TERMINAL_HEIGHT ?t" using assms(3) by (simp add: cursor_ok_def)
  moreover have "unat (terminal_column ?t + 1) = at_col v + 1"
    using assms(1,3) unat_inc [of "terminal_column t" "TERMINAL_WIDTH t"] by (simp add: cursor_ok_def displays_def)
  ultimately show ?thesis
    using displays_wrap [OF displays_draw [OF assms, of ov ch], of "terminal_column t + 1" "at_col v + 1"]
    by (auto simp: terminal_putchar_def type_char_def Let_def split: if_splits)
qed

lemma displays_byte:
  assumes "displays m t v" "screen_ok t" "cursor_ok t" "4 dvd unat (TERMINAL_WIDTH t)"
  shows "displays m (write_byte ov m c t)
    (type_byte (unat (TERMINAL_WIDTH t)) (unat (TERMINAL_HEIGHT t)) (fg_colour t) (bg_colour t) c v)"
proof -
  have row: "terminal_row t < TERMINAL_HEIGHT t" "unat (terminal_row t + 1) = at_row v + 1" "at_row v = unat (terminal_row t)"
    using assms(1,3) unat_inc [of "terminal_row t" "TERMINAL_HEIGHT t"] by (simp_all add: cursor_ok_def displays_def)
  have nl: "displays m (terminal_newline t) (line_feed (unat (TERMINAL_HEIGHT t)) v)"
  proof -
    have "terminal_row t + 1 = TERMINAL_HEIGHT t \<longleftrightarrow> at_row v + 1 = unat (TERMINAL_HEIGHT t)"
      using row by (simp add: word_unat_eq_iff)
    then show ?thesis
      using row assms(1) by (intro displays_cursor [OF assms(1)])
        (auto simp: terminal_newline_def line_feed_def Let_def same_screen_def displays_def)
  qed
  have cr: "displays m (t\<lparr>terminal_column := 0\<rparr>) (v\<lparr>at_col := 0\<rparr>)"
    using assms(1) by (intro displays_cursor [OF assms(1)]) (simp_all add: same_screen_def displays_def)
  show ?thesis
  proof (cases "c = 9")
    case True
    let ?x = "terminal_column t + (4 - terminal_column t mod 4)"
    have tab: "displays m (if ?x = TERMINAL_WIDTH t then next_row (t\<lparr>terminal_column := 0\<rparr>) else t\<lparr>terminal_column := ?x\<rparr>)
        (wrap_line (unat (TERMINAL_WIDTH t)) (unat (TERMINAL_HEIGHT t)) (unat ?x) v)"
      by (rule displays_wrap [OF assms(1) row(1) refl])
    have "unat ?x = at_col v + (4 - at_col v mod 4)"
      using tab_unat(1) [OF _ assms(4)] assms(1,3) by (simp add: cursor_ok_def displays_def)
    with tab True show ?thesis by (auto simp: write_byte_def type_byte_def Let_def split: if_splits)
  next
    case False
    then show ?thesis
      using nl cr displays_putchar [OF assms(1-3), of ov c] assms(1) by (simp add: write_byte_def type_byte_def)
  qed
qed

lemma write_byte_pixels:
  assumes "screen_ok t" "cursor_ok t" "unat (screen_width t) * unat (screen_height t) \<le> unat k"
  shows "pixels (write_byte ov m c t) k = pixels t k"
proof -
  let ?sw = "unat (screen_width t)" and ?sh = "unat (screen_height t)"
  have xy: "terminal_column t < TERMINAL_WIDTH t" "terminal_row t < TERMINAL_HEIGHT t"
    using assms(2) by (simp_all add: cursor_ok_def)
  have "k \<noteq> of_nat (pixel_index ?sw (unat (terminal_column t)) (unat (terminal_row t)) i j)"
    if "i < 16" "j < 8" for i j
  proof
    assume k: "k = of_nat (pixel_index ?sw (unat (terminal_column t)) (unat (terminal_row t)) i j)"
    have "pixel_index ?sw (unat (terminal_column t)) (unat (terminal_row t)) i j < ?sw * ?sh"
      using pixel_index_below [of "unat (terminal_column t)" "unat (TERMINAL_WIDTH t)" "unat (terminal_row t)"
          "unat (TERMINAL_HEIGHT t)" ?sw ?sh i j] xy assms(1) that by (simp add: screen_ok_def word_less_nat_alt)
    moreover from this have "unat k = pixel_index ?sw (unat (terminal_column t)) (unat (terminal_row t)) i j"
      unfolding k using assms(1) by (intro unat_of_nat_u64) (simp add: screen_ok_def)
    ultimately show False using assms(3) by simp
  qed
  then have "pixels (terminal_putentryat ov m c (terminal_column t) (terminal_row t) (fg_colour t) (bg_colour t) t) k = pixels t k"
    using putentryat_draws(2) [OF assms(1) xy] by blast
  then show ?thesis
    by (simp add: write_byte_def terminal_newline_def terminal_putchar_def next_row_def Let_def)
qed

text \<open>One induction over the text for what is shown and for what is left alone.\<close>

lemma write_bytes_ok:
  fixes f ov
  assumes "displays m t v" "screen_ok t" "cursor_ok t" "4 dvd unat (TERMINAL_WIDTH t)"
  defines "w is \<equiv> fold (\<lambda>i. write_byte ov m (f i)) is t"
  shows "displays m (w is) (fold (type_byte (unat (TERMINAL_WIDTH t)) (unat (TERMINAL_HEIGHT t)) (fg_colour t) (bg_colour t)) (map f is) v)
    \<and> (\<forall>k. unat (screen_width t) * unat (screen_height t) \<le> unat k \<longrightarrow> pixels (w is) k = pixels t k)"
proof (induction "is" rule: rev_induct)
  case (snoc i "is")
  have c: "cursor_ok (w is)" "same_screen t (w is)"
    unfolding w_def by (rule write_bytes_cursor [OF assms(3,4), THEN conjunct1] write_bytes_cursor [OF assms(3,4), THEN conjunct2])+
  have s: "screen_ok (w is)" using assms(2) c(2) by (simp add: screen_ok_def same_screen_def)
  have d: "4 dvd unat (TERMINAL_WIDTH (w is))" using assms(4) c(2) by (simp add: same_screen_def)
  have "w (is @ [i]) = write_byte ov m (f i) (w is)" by (simp add: w_def)
  then show ?case
    using displays_byte [OF _ s c(1) d, of m _ ov "f i"] write_byte_pixels [OF s c(1), of _ ov m "f i"] snoc c(2)
    by (simp add: same_screen_def)
qed (use assms(1) in \<open>simp add: w_def\<close>)

text \<open>Writing a text keeps the cursor on the terminal, whatever the bytes are, on a terminal whose
  width is a multiple of four.\<close>

theorem terminal_cursor_stays:
  assumes "cursor_ok t" "4 dvd unat (TERMINAL_WIDTH t)"
  shows "cursor_ok (terminal_write ov m data len t)"
  unfolding terminal_write_def by (rule write_bytes_cursor [OF assms, THEN conjunct1])

text \<open>C10: the frame buffer implements the abstract terminal: if it shows a grid of characters, then
  after \<open>terminal_write\<close> it shows the grid after the same bytes have been typed, cell for cell and
  pixel for pixel, with the cursor in the same place; and no pixel outside the screen is written.\<close>

theorem terminal_write_refines:
  assumes "displays m t v" "screen_ok t" "cursor_ok t" "4 dvd unat (TERMINAL_WIDTH t)"
  shows "displays m (terminal_write ov m data len t)
      (fold (type_byte (unat (TERMINAL_WIDTH t)) (unat (TERMINAL_HEIGHT t)) (fg_colour t) (bg_colour t))
        (bytes_at m data len) v) \<and>
    (\<forall>k. unat (screen_width t) * unat (screen_height t) \<le> unat k \<longrightarrow>
      pixels (terminal_write ov m data len t) k = pixels t k)"
  using write_bytes_ok [OF assms, of ov "\<lambda>i. m (data + of_nat i)" "[0..<unat len]"]
  by (simp add: terminal_write_def bytes_at_def)

section \<open>Setting up\<close>

definition blank :: screen where
  "blank = \<lparr>at_col = 0, at_row = 0, grid = \<lambda>_ _. None\<rparr>"

text \<open>With a valid 8 by 16 font \<open>terminal_init\<close> returns 0 and sets up a terminal that fits the
  screen, with the cursor in the corner; its width is a multiple of four when that of the screen is
  one of 32, as for the 1280 by 800 mode the bootloader selects. A wrong magic number gives 1 and
  changes nothing.\<close>

theorem terminal_init_ok:
  assumes "get32 m (font + 28) = 8" "get32 m (font + 24) = 16"
    and "8 \<le> unat (gm_width gm)" "16 \<le> unat (gm_height gm)" "unat (gm_width gm) * unat (gm_height gm) < 2 ^ 64"
  shows "if PSF2_MAGIC_OK m font
    then \<exists>t'. terminal_init m font gm t = Some (0, t') \<and> screen_ok t' \<and> cursor_ok t' \<and> displays m t' blank \<and>
      (32 dvd unat (gm_width gm) \<longrightarrow> 4 dvd unat (TERMINAL_WIDTH t'))
    else terminal_init m font gm t = Some (1, t)"
proof -
  have d: "unat (gm_width gm div 8) = unat (gm_width gm) div 8" "unat (gm_height gm div 16) = unat (gm_height gm) div 16"
    by (simp_all add: unat_div)
  have pos: "0 < gm_width gm div 8" "0 < gm_height gm div 16"
    using assms(3,4) d by (simp_all add: word_less_nat_alt div_greater_zero_iff)
  have "4 dvd unat (gm_width gm) div 8" if "32 dvd unat (gm_width gm)"
    using that by (auto elim!: dvdE simp: mult.assoc)
  then show ?thesis
    using assms d pos
    by (simp add: terminal_init_def Let_def screen_ok_def cursor_ok_def displays_def blank_def)
qed

section \<open>Witnesses\<close>

text \<open>A terminal of 160 by 50 characters.\<close>

definition boot_tty :: tty where
  "boot_tty = \<lparr>char_width = 8, char_height = 16, screen_width = 1280, screen_height = 800, font_buffer = 0x8000,
     framebuffer = 0, framebuffer_size = 0x3E8000, fg_colour = 0xDCDCDC, bg_colour = 0, terminal_column = 0,
     terminal_row = 0, TERMINAL_WIDTH = 160, TERMINAL_HEIGHT = 50, pixels = (\<lambda>_. 0)\<rparr>"

lemma boot_tty_ok: "screen_ok boot_tty" "cursor_ok boot_tty" "displays m boot_tty blank"
  by (simp_all add: boot_tty_def screen_ok_def cursor_ok_def displays_def blank_def)

theorem terminal_cursor_stays_witness: "cursor_ok (terminal_write x86_ov (\<lambda>a. ucast a) 0 200 boot_tty)"
  using terminal_cursor_stays [OF boot_tty_ok(2), of x86_ov "\<lambda>a. ucast a" 0 200] by (simp add: boot_tty_def)

text \<open>The text \<open>"Hi"\<close> in the first two cells.\<close>

definition hi_text :: byte_mem where
  "hi_text a = (if a = 0x100 then 72 else if a = 0x101 then 105 else 0)"

theorem terminal_write_refines_witness:
  "let t = terminal_write x86_ov hi_text 0x100 2 boot_tty in
     cell_shows hi_text t 0 0 72 0xDCDCDC 0 \<and> cell_shows hi_text t 1 0 105 0xDCDCDC 0 \<and> terminal_column t = 2"
proof -
  let ?t = "terminal_write x86_ov hi_text 0x100 2 boot_tty"
  have "4 dvd unat (TERMINAL_WIDTH boot_tty)" by (simp add: boot_tty_def)
  from terminal_write_refines [OF boot_tty_ok(3,1,2) this, of hi_text x86_ov "0x100" 2]
  have d: "displays hi_text ?t (fold (type_byte 160 50 0xDCDCDC 0) (bytes_at hi_text 0x100 2) blank)"
    by (simp add: boot_tty_def)
  have b: "bytes_at hi_text 0x100 2 = [72, 105]"
    by code_simp
  have v: "fold (type_byte 160 50 0xDCDCDC 0) [72, 105] blank =
      \<lparr>at_col = 2, at_row = 0, grid = (\<lambda>_ _. None)(0 := [0 \<mapsto> (72, 0xDCDCDC, 0)], 1 := [0 \<mapsto> (105, 0xDCDCDC, 0)])\<rparr>"
    by (simp add: type_byte_def type_char_def wrap_line_def blank_def)
  have s: "same_screen boot_tty ?t"
    unfolding terminal_write_def by (rule write_bytes_cursor [OF boot_tty_ok(2), THEN conjunct2]) (simp add: boot_tty_def)
  then have W: "TERMINAL_WIDTH ?t = 160" "TERMINAL_HEIGHT ?t = 50" by (simp_all add: same_screen_def boot_tty_def)
  let ?grid = "(\<lambda>_ _. None)(0 := [0 \<mapsto> (72, 0xDCDCDC, 0)], 1 := [0 \<mapsto> (105, 0xDCDCDC, 0)])"
  have c: "cell_is hi_text ?t c r (?grid c r)" if "c < 160" "r < 50" for c r
    using d that W unfolding b v displays_def by simp
  have "unat (terminal_column ?t) = unat (2 :: u64)" using d unfolding b v displays_def by simp
  then have "terminal_column ?t = 2" by (simp only: word_unat_eq_iff)
  then show ?thesis using c [of 0 0] c [of 1 0] by simp
qed

theorem terminal_init_ok_witness:
  "\<exists>t'. terminal_init
     ((\<lambda>_. 0)(0x8000 := 0x72, 0x8001 := 0xb5, 0x8002 := 0x4a, 0x8003 := 0x86, 0x801C := 8, 0x8018 := 16)) 0x8000
     \<lparr>gm_width = 1280, gm_height = 800, gm_framebuffer_base = 0, gm_framebuffer_size = 0\<rparr> boot_tty = Some (0, t') \<and>
     cursor_ok t' \<and> 4 dvd unat (TERMINAL_WIDTH t')"
  using terminal_init_ok [of "(\<lambda>_. 0)(0x8000 := 0x72, 0x8001 := 0xb5, 0x8002 := 0x4a, 0x8003 := 0x86, 0x801C := 8, 0x8018 := 16)"
      "0x8000" "\<lparr>gm_width = 1280, gm_height = 800, gm_framebuffer_base = 0, gm_framebuffer_size = 0\<rparr>" boot_tty]
  by (auto simp: get32_def get16_def PSF2_MAGIC_OK_def)

end
