(* ===== verification/Kernel_Main.thy ===== *)
theory Kernel_Main
  imports Terminal_Props Descriptors Page_Init Printf_Props
begin

text \<open>
  The kernel as a whole: \<open>kernel/kernel/kernel.c\<close>, \<open>kernel/kernel/panic.c\<close>, the handlers of
  \<open>kernel/arch/x86_64/interrupts.c\<close>, and \<open>putchar\<close>, \<open>abort\<close> and \<open>__stack_chk_fail\<close> of the C
  library. Text goes from \<open>printf\<close> through \<open>putchar\<close> to the terminal and to the serial port.

  A string literal of the source is the address the linker gave it (\<open>literals\<close>). \<open>tty_ov\<close> and \<open>ov\<close>
  are the over-wide shifts of the terminal and of the rest. A function that never returns
  (\<open>kernel_panic\<close>, \<open>abort\<close>) is modelled by the machine in which it stays.
\<close>

section \<open>The machine\<close>

record 'd machine =
  kern :: kernel
  console :: tty
  port :: 'd
  bytes :: byte_mem

record 'd hardware =
  in_port :: "'d inb"
  out_port :: "'d outb"
  shl_ov :: "nat \<Rightarrow> u64"
  shr_ov :: "u64 \<Rightarrow> nat \<Rightarrow> u64"
  translation :: "u64 \<Rightarrow> u64"

record literals =
  lit_err :: u64
  lit_ok :: u64
  lit_terminal :: u64
  lit_page_allocator :: u64
  lit_interrupts :: u64
  lit_panic :: u64
  lit_smash :: u64

section \<open>putchar\<close>

text \<open>\<open>terminal_write(&c, sizeof(c))\<close>, the text being the one byte \<open>c\<close>, then the port.\<close>

definition putchar :: "'d hardware \<Rightarrow> u32 \<Rightarrow> 'd machine \<Rightarrow> (u32 \<times> 'd machine) option" where
  "putchar hw ic s =
     (let c = ucast ic;
          s = s\<lparr>console := write_byte (shl_ov hw) (bytes s) c (console s)\<rparr>
      in map_option (\<lambda>d. (ic, s\<lparr>port := d\<rparr>)) (serial_write (in_port hw) (out_port hw) c (port s)))"

fun put_text :: "'d hardware \<Rightarrow> string \<Rightarrow> 'd machine \<Rightarrow> 'd machine option" where
  "put_text hw [] s = Some s"
| "put_text hw (c # cs) s = do { (_, s) \<leftarrow> putchar hw (of_char c) s; put_text hw cs s }"

text \<open>\<open>printf\<close> with its \<open>putchar\<close>.\<close>

definition kprintf :: "'d hardware \<Rightarrow> string \<Rightarrow> u64 list \<Rightarrow> 'd machine \<Rightarrow> (u32 \<times> 'd machine) option" where
  "kprintf hw fmt args s =
     do { (n, text, m) \<leftarrow> printf (shl_ov hw) (bytes s) fmt args;
          s \<leftarrow> put_text hw text s;
          Some (n, s\<lparr>bytes := m\<rparr>) }"

section \<open>kernel.c\<close>

definition set_colour :: "u32 \<Rightarrow> u32 \<Rightarrow> 'd machine \<Rightarrow> 'd machine" where
  "set_colour fg bg s = s\<lparr>console := terminal_setcolour fg bg (console s)\<rparr>"

definition NEWLINE :: string where
  "NEWLINE = [CHR 0x0A, CHR 0x0D]"

definition print_check :: "'d hardware \<Rightarrow> literals \<Rightarrow> u8 \<Rightarrow> u64 \<Rightarrow> 'd machine \<Rightarrow> 'd machine option" where
  "print_check hw lit status msg s =
     do { (_, s) \<leftarrow> kprintf hw ''['' [] s;
          let s = set_colour (if status \<noteq> 0 then 0xCD2222 else 0x22CD22) 0x000000 s;
          (_, s) \<leftarrow> kprintf hw ''%s'' [if status \<noteq> 0 then lit_err lit else lit_ok lit] s;
          let s = set_colour 0xDCDCDC 0x000000 s;
          (_, s) \<leftarrow> kprintf hw (''] %s'' @ NEWLINE) [msg] s;
          Some s }"

definition early_kmain ::
    "'d hardware \<Rightarrow> literals \<Rightarrow> u64 \<Rightarrow> graphics_mode \<Rightarrow> 'd machine \<Rightarrow> 'd machine option" where
  "early_kmain hw lit font gm s =
     do { (result, t) \<leftarrow> terminal_init (bytes s) font gm (console s);
          let s = s\<lparr>console := t, port := serial_init (out_port hw) (port s)\<rparr>;
          let s = set_colour 0xDCDCDC 0x000000 s;
          (if result = 0 then print_check hw lit 0 (lit_terminal lit) s else Some s) }"

text \<open>
  \<open>kmain\<close> and its macro \<open>CHECK\<close>. The result is \<open>Some 1\<close> from \<open>CHECK\<close>; the end of the function has
  no \<open>return\<close>, so there the result is \<open>None\<close>. \<open>result\<close> is a \<open>uint8_t\<close>.
\<close>

definition kmain ::
    "'d hardware \<Rightarrow> literals \<Rightarrow> u64 \<Rightarrow> boot_table \<Rightarrow> efi_memory_descriptor list \<Rightarrow> u64 \<Rightarrow>
     u64 \<Rightarrow> u64 \<Rightarrow> u64 \<Rightarrow> 'd machine \<Rightarrow> (u64 option \<times> 'd machine) option" where
  "kmain hw lit un bt descs old_bitmap idt breakpoint_handler double_fault_handler s =
     do { (r, ks) \<leftarrow> page_allocator_init (shl_ov hw) (shr_ov hw) (translation hw) un bt descs old_bitmap (kern s);
          let s = s\<lparr>kern := ks\<rparr>;
          let result = (word_of_int r :: u8);
          (if result \<noteq> 0 then map_option (Pair (Some 1)) (print_check hw lit 1 (lit_page_allocator lit) s)
           else do {
             s \<leftarrow> print_check hw lit 0 (lit_page_allocator lit) s;
             let (r, _, m) = install_interrupts idt breakpoint_handler double_fault_handler (bytes s);
             let s = s\<lparr>bytes := m\<rparr>;
             let result = (word_of_int r :: u8);
             (if result \<noteq> 0 then map_option (Pair (Some 1)) (print_check hw lit 1 (lit_interrupts lit) s)
              else map_option (Pair None) (print_check hw lit 0 (lit_interrupts lit) s)) }) }"

section \<open>Stopping\<close>

definition write_literal :: "'d hardware \<Rightarrow> u64 \<Rightarrow> 'd machine \<Rightarrow> 'd machine option" where
  "write_literal hw str s =
     map_option (\<lambda>t. s\<lparr>console := t\<rparr>) (terminal_writestring (shl_ov hw) (bytes s) str (console s))"

text \<open>The machine in which \<open>for(;;);\<close> stays.\<close>

definition kernel_panic :: "'d hardware \<Rightarrow> literals \<Rightarrow> 'd machine \<Rightarrow> 'd machine option" where
  "kernel_panic hw lit s = write_literal hw (lit_panic lit) s"

definition abort :: "'d hardware \<Rightarrow> 'd machine \<Rightarrow> 'd machine option" where
  "abort hw s = map_option snd (kprintf hw (''kernel: panic: abort()'' @ [CHR 0x0A]) [] s)"

definition stack_chk_fail :: "'d hardware \<Rightarrow> literals \<Rightarrow> 'd machine \<Rightarrow> 'd machine option" where
  "stack_chk_fail hw lit s = do { s \<leftarrow> write_literal hw (lit_smash lit) s; abort hw s }"

section \<open>Exceptions\<close>

text \<open>\<open>struct InterruptStackFrame\<close> in memory: cs 0, ip 8, rflags 16, ss 24, sp 32.\<close>

definition TAB :: char where "TAB = CHR 0x09"

definition print_interrupt_stack_frame ::
    "'d hardware \<Rightarrow> u64 \<Rightarrow> u64 \<Rightarrow> 'd machine \<Rightarrow> 'd machine option" where
  "print_interrupt_stack_frame hw type frame s =
     do { (_, s) \<leftarrow> kprintf hw (''Exception: %s'' @ NEWLINE @ ''InterruptStackFrame {'' @ NEWLINE) [type] s;
          (_, s) \<leftarrow> kprintf hw (TAB # ''instruction_pointer: %#018llx'' @ NEWLINE) [get64 (bytes s) (frame + 8)] s;
          (_, s) \<leftarrow> kprintf hw (TAB # ''code_segment: %#018llx'' @ NEWLINE) [get64 (bytes s) frame] s;
          (_, s) \<leftarrow> kprintf hw (TAB # ''cpu_flags: %#018llx'' @ NEWLINE) [get64 (bytes s) (frame + 16)] s;
          (_, s) \<leftarrow> kprintf hw (TAB # ''stack_pointer: %#018llx'' @ NEWLINE) [get64 (bytes s) (frame + 32)] s;
          (_, s) \<leftarrow> kprintf hw (TAB # ''stack_segment: %#018llx'' @ NEWLINE) [get64 (bytes s) (frame + 24)] s;
          (_, s) \<leftarrow> kprintf hw (''}'' @ NEWLINE) [] s;
          Some s }"

definition breakpoint_handler :: "'d hardware \<Rightarrow> u64 \<Rightarrow> u64 \<Rightarrow> 'd machine \<Rightarrow> 'd machine option" where
  "breakpoint_handler hw type frame s =
     do { (_, s) \<leftarrow> kprintf hw (''BREAKPOINT CAUGHT!'' @ NEWLINE) [] s;
          print_interrupt_stack_frame hw type frame s }"

text \<open>Ends in \<open>kernel_panic\<close>.\<close>

definition double_fault_handler ::
    "'d hardware \<Rightarrow> literals \<Rightarrow> u64 \<Rightarrow> u64 \<Rightarrow> 'd machine \<Rightarrow> 'd machine option" where
  "double_fault_handler hw lit type frame s =
     do { s \<leftarrow> print_interrupt_stack_frame hw type frame s; kernel_panic hw lit s }"

end
