(* ===== verification/Kernel_Props.thy ===== *)
theory Kernel_Props
  imports Kernel_Main
begin

text \<open>
  What the kernel says and does when it starts: the text of \<open>printf\<close> on the serial port and the
  terminal, and the composition in \<open>early_kmain\<close> and \<open>kmain\<close>.
\<close>

section \<open>Text\<close>

lemma printf_loop_lit:
  "CHR ''%'' \<notin> set lit \<Longrightarrow> CHR 0x5C \<notin> set lit \<Longrightarrow>
    printf_loop ov (lit @ rest) s = printf_loop ov rest (emits lit s)"
  by (induction lit arbitrary: s) (auto simp: emit_emits)

lemma parse_s: "parse_directive (CHR ''s'' # rest) s = Some (fresh_directive\<lparr>format_type := StringT\<rparr>, CHR ''s'' # rest, s)"
  by (simp add: parse_directive_def parse_width_def parse_precision_def parse_length_def
      parse_conversion_def at_def is_digit_def fresh_directive_def)

definition as_text :: "u8 list \<Rightarrow> string" where
  "as_text bs = map (\<lambda>b. char_of (unat b)) bs"

lemma printf_loop_s:
  assumes "c_string_at (pmem s) p txt" "va_list s = p # args"
  shows "printf_loop ov (''%s'' @ rest) s = printf_loop ov rest (emits (as_text txt) (s\<lparr>va_list := args\<rparr>))"
proof -
  have len: "length txt < 2 ^ 64" and b: "\<forall>i < length txt. pmem s (p + of_nat i) = txt ! i"
    using assms(1) by (simp_all add: c_string_at_def)
  have "text_at (pmem s) p (length txt) = as_text txt"
    using b by (auto simp: text_at_def as_text_def intro: nth_equalityI)
  then have "convert ov (fresh_directive\<lparr>format_type := StringT\<rparr>) s = Some (emits (as_text txt) (s\<lparr>va_list := args\<rparr>))"
    using assms(2) by (simp add: convert_def fresh_directive_def print_string_emits va_arg_def
        strlen_c_string [OF assms(1)] unat_of_nat_u64 [OF len])
  then show ?thesis by (simp add: parse_s)
qed

lemma printf_check:
  assumes "c_string_at m p txt"
  shows "printf ov m ''['' [] = Some (1, ''['', m)"
    "printf ov m ''%s'' [p] = Some (of_nat (length txt), as_text txt, m)"
    "printf ov m (''] %s'' @ NEWLINE) [p] = Some (of_nat (length txt) + 4, ''] '' @ as_text txt @ NEWLINE, m)"
proof -
  show "printf ov m ''['' [] = Some (1, ''['', m)" by (simp add: printf_def emit_def at_def)
  show "printf ov m ''%s'' [p] = Some (of_nat (length txt), as_text txt, m)"
    using printf_loop_s [of "\<lparr>out = [], num_chars_written = 0, va_list = [p], pmem = m\<rparr>" p "txt" "[]" ov "[]"] assms
    by (simp add: printf_def emits_out emits_count as_text_def)
  have nl: "printf_loop ov NEWLINE s = Some (emits NEWLINE s)" for s
    using printf_loop_lit [of NEWLINE ov "[]" s] by (simp add: NEWLINE_def)
  let ?s0 = "\<lparr>out = [], num_chars_written = 0, va_list = [p], pmem = m\<rparr>"
  have "printf_loop ov (''] '' @ (''%s'' @ NEWLINE)) ?s0 = Some (emits NEWLINE (emits (as_text txt) (emits ''] '' ?s0\<lparr>va_list := []\<rparr>)))"
    using printf_loop_s [of "emits ''] '' ?s0" p "txt" "[]" ov NEWLINE] assms
    by (subst printf_loop_lit) (simp_all add: nl)
  then show "printf ov m (''] %s'' @ NEWLINE) [p] = Some (of_nat (length txt) + 4, ''] '' @ as_text txt @ NEWLINE, m)"
    by (simp add: printf_def emits_out emits_count as_text_def NEWLINE_def)
qed

section \<open>Saying something\<close>

definition as_bytes :: "string \<Rightarrow> u8 list" where
  "as_bytes cs = map of_char cs"

text \<open>From \<open>s\<close> the kernel has said \<open>text\<close> on the serial port, and the terminal is still in order.\<close>

definition console_ok :: "tty \<Rightarrow> bool" where
  "console_ok t \<longleftrightarrow> cursor_ok t \<and> 4 dvd unat (TERMINAL_WIDTH t)"

definition says :: "('d \<Rightarrow> u8 list) \<Rightarrow> string \<Rightarrow> 'd machine \<Rightarrow> 'd machine \<Rightarrow> bool" where
  "says sent text s s' \<longleftrightarrow> sent (port s') = sent (port s) @ as_bytes text \<and> bytes s' = bytes s \<and>
     kern s' = kern s \<and> (console_ok (console s) \<longrightarrow> console_ok (console s'))"

lemma says_trans: "says sent a s s1 \<Longrightarrow> says sent b s1 s2 \<Longrightarrow> says sent (a @ b) s s2"
  by (simp add: says_def as_bytes_def)

lemma says_colour: "says sent a s s1 \<Longrightarrow> says sent a s (set_colour fg bg s1)"
  by (simp add: says_def set_colour_def console_ok_def cursor_ok_def terminal_setcolour_def)

lemma of_char_u8: "ucast (of_char c :: u32) = (of_char c :: u8)"
  by (cases c) (simp add: of_char_def)

lemma putchar_says:
  assumes "uart (in_port hw) (out_port hw) sent"
  shows "\<exists>s'. putchar hw (of_char c) s = Some (of_char c, s') \<and> says sent [c] s s'"
proof -
  let ?t = "write_byte (shl_ov hw) (bytes s) (of_char c) (console s)"
  obtain d where d: "serial_write (in_port hw) (out_port hw) (of_char c) (port s) = Some d"
    "sent d = sent (port s) @ [of_char c]"
    by (rule serial_write_sent [OF assms])
  have "console_ok ?t" if "console_ok (console s)"
    using that write_byte_cursor [of "console s"] write_byte_screen [of "console s" "shl_ov hw" "bytes s" "of_char c"]
    by (simp add: console_ok_def same_screen_def)
  then have "says sent [c] s (s\<lparr>console := ?t, port := d\<rparr>)" using d by (simp add: says_def as_bytes_def)
  then show ?thesis using d by (simp add: putchar_def of_char_u8 Let_def)
qed

lemma put_text_says:
  assumes "uart (in_port hw) (out_port hw) sent"
  shows "\<exists>s'. put_text hw cs s = Some s' \<and> says sent cs s s'"
proof (induction cs arbitrary: s)
  case (Cons c cs)
  obtain s1 where "putchar hw (of_char c) s = Some (of_char c, s1)" "says sent [c] s s1"
    using putchar_says [OF assms] by blast
  moreover obtain s2 where "put_text hw cs s1 = Some s2" "says sent cs s1 s2" using Cons by blast
  ultimately show ?case using says_trans [of sent "[c]" s s1 cs s2] by auto
qed (simp add: says_def as_bytes_def)

lemma kprintf_says:
  assumes "uart (in_port hw) (out_port hw) sent" "printf (shl_ov hw) (bytes s) fmt args = Some (n, text, bytes s)"
  shows "\<exists>s'. kprintf hw fmt args s = Some (n, s') \<and> says sent text s s'"
proof -
  obtain s' where s': "put_text hw text s = Some s'" "says sent text s s'" using put_text_says [OF assms(1)] by blast
  then have "s'\<lparr>bytes := bytes s\<rparr> = s'" by (simp add: says_def)
  then show ?thesis using s' assms(2) by (simp add: kprintf_def)
qed

lemma print_check_says:
  assumes u: "uart (in_port hw) (out_port hw) sent"
    and lit: "c_string_at (bytes s) (lit_err lit) err" "c_string_at (bytes s) (lit_ok lit) ok"
    and msg: "c_string_at (bytes s) msg txt"
  shows "\<exists>s'. print_check hw lit status msg s = Some s' \<and>
    says sent (''['' @ as_text (if status \<noteq> 0 then err else ok) @ ''] '' @ as_text txt @ NEWLINE) s s'"
proof -
  let ?p = "if status \<noteq> 0 then lit_err lit else lit_ok lit" and ?w = "if status \<noteq> 0 then err else ok"
  obtain s1 where s1: "kprintf hw ''['' [] s = Some (1, s1)" "says sent ''['' s s1"
    using kprintf_says [OF u printf_check(1) [OF msg]] by blast
  define s2 where "s2 = set_colour (if status \<noteq> 0 then 0xCD2222 else 0x22CD22) 0 s1"
  have s2: "says sent ''['' s s2" unfolding s2_def by (rule says_colour [OF s1(2)])
  then have "c_string_at (bytes s2) ?p ?w" using lit by (simp add: says_def)
  from kprintf_says [OF u printf_check(2) [OF this]] obtain s3 where
    s3: "kprintf hw ''%s'' [?p] s2 = Some (of_nat (length ?w), s3)" "says sent (as_text ?w) s2 s3" by blast
  define s4 where "s4 = set_colour 0xDCDCDC 0 s3"
  have s4: "says sent (''['' @ as_text ?w) s s4" unfolding s4_def by (rule says_colour [OF says_trans [OF s2 s3(2)]])
  then have "c_string_at (bytes s4) msg txt" using msg by (simp add: says_def)
  from kprintf_says [OF u printf_check(3) [OF this]] obtain s5 where
    s5: "kprintf hw (''] %s'' @ NEWLINE) [msg] s4 = Some (of_nat (length txt) + 4, s5)"
      "says sent (''] '' @ as_text txt @ NEWLINE) s4 s5" by blast
  have "print_check hw lit status msg s = Some s5"
    using s1(1) s3(1) s5(1) by (simp add: print_check_def s2_def [symmetric] s4_def [symmetric] Let_def)
  then show ?thesis using says_trans [OF s4 s5(2)] by auto
qed

section \<open>Starting\<close>

text \<open>The texts of the string literals, and that they lie outside the interrupt table.\<close>

definition literals_ok :: "literals \<Rightarrow> byte_mem \<Rightarrow> bool" where
  "literals_ok lit m \<longleftrightarrow> c_string_at m (lit_err lit) (as_bytes ''ERR'') \<and> c_string_at m (lit_ok lit) (as_bytes ''OK'') \<and>
     c_string_at m (lit_terminal lit) (as_bytes ''Terminal driver initialisation'') \<and>
     c_string_at m (lit_page_allocator lit) (as_bytes ''Page allocator initialisation'') \<and>
     c_string_at m (lit_interrupts lit) (as_bytes ''Install interrupts'')"

definition literals_apart :: "literals \<Rightarrow> u64 \<Rightarrow> byte_mem \<Rightarrow> bool" where
  "literals_apart lit idt m \<longleftrightarrow>
     (\<forall>m'. (\<forall>a. a \<notin> (\<lambda>k. idt + of_nat k) ` {..<4096} \<longrightarrow> m' a = m a) \<longrightarrow> literals_ok lit m')"

lemma char_u8: "char_of (unat (of_char c :: u8)) = c"
proof -
  have "(of_char c :: u8) = of_nat (of_char c)" by (rule of_nat_of_char [symmetric])
  moreover have "(of_char c :: nat) < 256" by (metis of_char_mod_256 mod_less_divisor zero_less_numeral)
  ultimately have "unat (of_char c :: u8) = of_char c" by (simp add: unat_of_nat take_bit_nat_eq_self)
  then show ?thesis by simp
qed

lemma as_text_bytes: "as_text (as_bytes cs) = cs"
  by (induction cs) (simp_all add: as_text_def as_bytes_def char_u8)

lemma check_says:
  assumes "uart (in_port hw) (out_port hw) sent" "literals_ok lit (bytes s)"
    and "c_string_at (bytes s) msg (as_bytes cs)"
  shows "\<exists>s'. print_check hw lit status msg s = Some s' \<and>
    says sent (''['' @ (if status \<noteq> 0 then ''ERR'' else ''OK'') @ ''] '' @ cs @ NEWLINE) s s'"
  using print_check_says [OF assms(1) _ _ assms(3), of lit "as_bytes ''ERR''" "as_bytes ''OK''" status] assms(2)
  by (auto simp: literals_ok_def as_text_bytes split: if_splits)

lemma init_codes:
  "page_allocator_init ov sov tr un bt descs old ks = Some (r, ks') \<Longrightarrow> r = rc_ok \<or> r = rc_fail"
  by (auto simp: page_allocator_init_def init_virtual_def Let_def Option.bind_eq_Some_conv split: option.splits if_splits prod.splits)


section \<open>Witness\<close>

text \<open>The literals 64 bytes apart from \<open>0x10000\<close> on.\<close>

definition boot_strings :: "string list" where
  "boot_strings = [''ERR'', ''OK'', ''Terminal driver initialisation'', ''Page allocator initialisation'',
     ''Install interrupts'']"

definition string_byte :: "nat \<Rightarrow> nat \<Rightarrow> u8" where
  "string_byte k i = (if i < length (boot_strings ! k) then of_char (boot_strings ! k ! i) else 0)"

definition boot_mem :: byte_mem where
  "boot_mem a = (if 0x10000 \<le> a \<and> a < 0x10140
     then string_byte (unat (a - 0x10000) div 64) (unat (a - 0x10000) mod 64) else 0)"

definition boot_literals :: literals where
  "boot_literals = \<lparr>lit_err = 0x10000, lit_ok = 0x10040, lit_terminal = 0x10080, lit_page_allocator = 0x100C0,
     lit_interrupts = 0x10100, lit_panic = 0, lit_smash = 0\<rparr>"

lemma boot_mem_at:
  assumes "k < 5" "i < 64"
  shows "boot_mem (0x10000 + of_nat (64 * k + i)) = string_byte k i"
proof -
  have l: "64 * k + i < 0x140" using assms by simp
  have d: "(0x10000 + of_nat (64 * k + i) :: u64) - 0x10000 = of_nat (64 * k + i)"
    by (simp only: add_diff_cancel_left')
  have u: "unat (of_nat (64 * k + i) :: u64) = 64 * k + i" using l by (intro unat_of_nat_u64) simp
  have "unat (0x10000 + of_nat (64 * k + i) :: u64) = 0x10000 + (64 * k + i)"
    using l u by (subst unat_add_no_wrap) simp_all
  then have "0x10000 \<le> (0x10000 + of_nat (64 * k + i) :: u64)" "(0x10000 + of_nat (64 * k + i) :: u64) < 0x10140"
    using l by (simp_all add: word_le_nat_alt word_less_nat_alt)
  then show ?thesis
    unfolding boot_mem_def d u using assms(2) by simp
qed

lemma char_of_zero: "char_of (0 :: nat) = CHR 0x00"
  by code_simp

lemma boot_string_at:
  assumes "k < 5" "\<forall>a. a \<notin> (\<lambda>k. 0x1000 + of_nat k) ` {..<4096} \<longrightarrow> m' a = boot_mem a"
    and "length (boot_strings ! k) < 64" "\<forall>c \<in> set (boot_strings ! k). c \<noteq> CHR 0x00"
  shows "c_string_at m' (0x10000 + of_nat (64 * k)) (as_bytes (boot_strings ! k))"
proof -
  have "(0x10000 + of_nat (64 * k + i) :: u64) \<notin> (\<lambda>k. 0x1000 + of_nat k) ` {..<4096}" if "i < 64" for i
  proof
    assume "(0x10000 + of_nat (64 * k + i) :: u64) \<in> (\<lambda>k. 0x1000 + of_nat k) ` {..<4096}"
    then obtain j where j: "j < 4096" "(of_nat (0x10000 + (64 * k + i)) :: u64) = of_nat (0x1000 + j)" by auto
    then have "0x10000 + (64 * k + i) = 0x1000 + j" using that assms(1) by (subst (asm) of_nat_inj_word) simp_all
    then show False using j(1) by simp
  qed
  then have at: "m' (0x10000 + of_nat (64 * k) + of_nat i) = string_byte k i" if "i < 64" for i
    using assms(2) boot_mem_at [OF assms(1) that] that by (simp add: add.assoc)
  have "of_char c \<noteq> (0 :: u8)" if "c \<in> set (boot_strings ! k)" for c
  proof
    assume "of_char c = (0 :: u8)"
    then have "char_of (unat (0 :: u8)) = c" using char_u8 [of c] by simp
    then have "c = CHR 0x00" using char_of_zero by simp
    then show False using assms(4) that by simp
  qed
  then show ?thesis
    using at assms(3) by (auto simp: c_string_at_def as_bytes_def string_byte_def)
qed

lemma boot_literals_apart: "literals_apart boot_literals 0x1000 boot_mem"
proof -
  have "literals_ok boot_literals m'" if m: "\<forall>a. a \<notin> (\<lambda>k. 0x1000 + of_nat k) ` {..<4096} \<longrightarrow> m' a = boot_mem a" for m'
    using boot_string_at [OF _ m, of 0] boot_string_at [OF _ m, of 1] boot_string_at [OF _ m, of 2]
      boot_string_at [OF _ m, of 3] boot_string_at [OF _ m, of 4]
    by (simp add: literals_ok_def boot_literals_def boot_strings_def)
  then show ?thesis by (simp add: literals_apart_def)
qed

definition boot_hardware :: "(nat \<times> u8 list) hardware" where
  "boot_hardware = \<lparr>in_port = slow_inb, out_port = slow_outb, shl_ov = x86_ov, shr_ov = (\<lambda>w _. w), translation = small_tr\<rparr>"

definition boot_machine :: "(nat \<times> u8 list) machine" where
  "boot_machine = \<lparr>kern = small_kernel, console = boot_tty, port = (0, []), bytes = boot_mem\<rparr>"

end
