(* ===== verification/Boot_Map.thy ===== *)
theory Boot_Map
  imports Page_Walk Serial
begin

text \<open>
  The page mapper of the bootloader: \<open>map_page\<close>, \<open>map_pages\<close> and the two helpers of
  \<open>bootloader/arch/x86_64/uefi_mem.c\<close>.

  The firmware maps physical memory at its own address, so a pointer is a physical address; memory
  is one 64-bit word per address, as in the kernel's mapper. What \<open>map_page\<close> writes to the terminal
  is kept as the bytes handed to it (\<open>shown\<close>); the terminal itself is the theory Terminal.
\<close>

section \<open>The state\<close>

record uefi_mem =
  words :: "u64 \<Rightarrow> u64"
  pml4 :: u64
  next_available_mapping_page :: u64
  available_mapping_page_count :: u64
  mapping_base_address :: u64
  shown :: "u8 list"

datatype efi_status = EFI_SUCCESS | EFI_NOT_FOUND | EFI_BUFFER_TOO_SMALL | EFI_INVALID_PARAMETER |
  EFI_UNSUPPORTED | EFI_NOT_READY

definition store :: "u64 \<Rightarrow> u64 \<Rightarrow> uefi_mem \<Rightarrow> uefi_mem" where
  "store a v st = st\<lparr>words := (words st)(a := v)\<rparr>"

definition say :: "string \<Rightarrow> uefi_mem \<Rightarrow> uefi_mem" where
  "say text st = st\<lparr>shown := shown st @ map of_char text\<rparr>"

text \<open>\<open>terminal_print_hex64\<close> writes its buffer with the terminating NUL.\<close>

definition say_hex64 :: "u64 \<Rightarrow> uefi_mem \<Rightarrow> uefi_mem" where
  "say_hex64 val st = st\<lparr>shown := shown st @ hex_digits 16 val @ [0]\<rparr>"

section \<open>Mapping\<close>

text \<open>The next page of the region. Nothing is compared with the number of pages left.\<close>

definition get_next_available_mapping_page :: "uefi_mem \<Rightarrow> u64 \<times> uefi_mem" where
  "get_next_available_mapping_page st =
     (let st = st\<lparr>next_available_mapping_page := next_available_mapping_page st + 0x1000,
                  available_mapping_page_count := available_mapping_page_count st - 1\<rparr>
      in (next_available_mapping_page st - 0x1000, st))"

text \<open>A new table: a page is taken, cleared and linked with the flags.\<close>

definition new_table :: "u64 \<Rightarrow> u64 \<Rightarrow> uefi_mem \<Rightarrow> uefi_mem" where
  "new_table flags entry st =
     (let (next_page, st) = get_next_available_mapping_page st;
          st = fold (\<lambda>i. store (next_page + 8 * of_nat i) 0) [0..<0x200] st;
          st = store entry flags st
      in store entry (words st entry OR next_page) st)"

definition level :: "u64 \<Rightarrow> u64 \<Rightarrow> uefi_mem \<Rightarrow> uefi_mem" where
  "level flags entry st = (if words st entry AND PRESENT_FLAG = 0 then new_table flags entry st else st)"

text \<open>The top level says what it does; its entries do not get the user flag.\<close>

definition top_level :: "u64 \<Rightarrow> uefi_mem \<Rightarrow> uefi_mem" where
  "top_level entry st =
     (let st = (if words st entry AND PRESENT_FLAG = 0
                then new_table (PRESENT_FLAG OR WRITABLE_FLAG) entry (say ''Writing PML4: 0x'' st)
                else say ''PML4 present: 0x'' st)
      in say [CHR 0x0A, CHR 0x0D] (say_hex64 (words st entry) st))"

definition map_page :: "u64 \<Rightarrow> u64 \<Rightarrow> uefi_mem \<Rightarrow> efi_status \<times> uefi_mem" where
  "map_page phys_addr va_addr st =
     (let pml4_entry = pml4 st + 8 * VA_GET_PML4_INDEX va_addr;
          st = top_level pml4_entry st;
          pdp_entry = (words st pml4_entry AND ADDR_MASK) + 8 * VA_GET_PDP_INDEX va_addr;
          st = level NEW_ENTRY pdp_entry st;
          pd_entry = (words st pdp_entry AND ADDR_MASK) + 8 * VA_GET_PD_INDEX va_addr;
          st = level NEW_ENTRY pd_entry st;
          pt_entry = (words st pd_entry AND ADDR_MASK) + 8 * VA_GET_PT_INDEX va_addr
      in if words st pt_entry AND PRESENT_FLAG = 0
         then let st = store pt_entry NEW_ENTRY st
              in (EFI_SUCCESS, store pt_entry (words st pt_entry OR (phys_addr AND ADDR_MASK)) st)
         else (EFI_INVALID_PARAMETER, st))"

text \<open>The status of \<open>map_page\<close> is not looked at, and \<open>map_pages\<close> has no \<open>return\<close>.\<close>

definition map_pages :: "u64 \<Rightarrow> u64 \<Rightarrow> u64 \<Rightarrow> uefi_mem \<Rightarrow> uefi_mem" where
  "map_pages src_addr dest_addr page_count st =
     fold (\<lambda>i st. snd (map_page (src_addr + push_bit 12 (of_nat i)) (dest_addr + push_bit 12 (of_nat i)) st))
       [0..<unat page_count] st"

definition get_mapping_pointers_and_count :: "uefi_mem \<Rightarrow> u64 \<times> u64" where
  "get_mapping_pointers_and_count st =
     (pml4 st, drop_bit 12 (next_available_mapping_page st - mapping_base_address st))"

section \<open>What the mapper relies on\<close>

text \<open>No entry of the upper three levels is a large page.\<close>

definition small_pages :: "(u64 \<Rightarrow> u64) \<Rightarrow> u64 \<Rightarrow> bool" where
  "small_pages m root \<longleftrightarrow> (\<forall>is p i. length is \<le> 2 \<longrightarrow> valid_path is \<longrightarrow> walk_from m root is = Some p \<longrightarrow> i < 512 \<longrightarrow>
     m (p + 8 * i) AND PRESENT_FLAG \<noteq> 0 \<longrightarrow> m (p + 8 * i) AND PAGE_SIZE_FLAG = 0)"

text \<open>The tables are a tree without large pages, and the next \<open>n\<close> pages of the region are whole pages
  outside it; the words at the addresses \<open>F\<close> are in neither.\<close>

definition spare :: "uefi_mem \<Rightarrow> nat \<Rightarrow> u64" where
  "spare st k = next_available_mapping_page st + 0x1000 * of_nat k"

definition apart :: "u64 set \<Rightarrow> u64 \<Rightarrow> bool" where
  "apart F p \<longleftrightarrow> (\<forall>a \<in> F. \<forall>j < 512. a \<noteq> p + 8 * j)"

definition tables_ready :: "u64 set \<Rightarrow> nat \<Rightarrow> uefi_mem \<Rightarrow> bool" where
  "tables_ready F n st \<longleftrightarrow> tree (words st) (pml4 st) \<and> small_pages (words st) (pml4 st) \<and> inj_on (spare st) {..<n} \<and>
     (\<forall>k < n. is_page (spare st k) \<and> spare st k \<notin> tables (words st) (pml4 st) \<and> apart F (spare st k)) \<and>
     (\<forall>p \<in> tables (words st) (pml4 st). apart F p)"

definition boot_lookup :: "uefi_mem \<Rightarrow> u64 list \<Rightarrow> u64 option" where
  "boot_lookup st path = walk_from (words st) (pml4 st) path"

text \<open>The bookkeeping of the region: between the two states \<open>k\<close> pages have been taken,
  and the words at \<open>F\<close> are the same.\<close>

definition took :: "u64 set \<Rightarrow> nat \<Rightarrow> uefi_mem \<Rightarrow> uefi_mem \<Rightarrow> bool" where
  "took F k st st' \<longleftrightarrow> (\<forall>a \<in> F. words st' a = words st a) \<and> pml4 st' = pml4 st \<and> mapping_base_address st' = mapping_base_address st \<and>
     next_available_mapping_page st' = spare st k \<and>
     available_mapping_page_count st' = available_mapping_page_count st - of_nat k"

lemma took_0 [simp]: "took F 0 st st"
  by (simp add: took_def spare_def)

lemma took_trans: "took F j a b \<Longrightarrow> took F k b c \<Longrightarrow> took F (j + k) a c"
  by (simp add: took_def spare_def distrib_left)

lemma spare_took: "took F j st st' \<Longrightarrow> spare st' k = spare st (j + k)"
  by (simp add: took_def spare_def distrib_left)

definition boot_same :: "uefi_mem \<Rightarrow> uefi_mem \<Rightarrow> bool" where
  "boot_same st st' \<longleftrightarrow> (\<forall>js. length js = 4 \<longrightarrow> valid_path js \<longrightarrow> boot_lookup st' js = boot_lookup st js)"

lemma boot_same_refl [simp]: "boot_same st st"
  by (simp add: boot_same_def)

lemma boot_same_trans: "boot_same a b \<Longrightarrow> boot_same b c \<Longrightarrow> boot_same a c"
  by (simp add: boot_same_def)

lemma say_simps [simp]:
  "words (say text st) = words st" "pml4 (say text st) = pml4 st"
  "words (say_hex64 v st) = words st" "pml4 (say_hex64 v st) = pml4 st"
  by (simp_all add: say_def say_hex64_def)

lemma tables_ready_weaken: "tables_ready F n st \<Longrightarrow> m \<le> n \<Longrightarrow> tables_ready F m st"
  by (auto simp: tables_ready_def intro: inj_on_subset)

text \<open>What does not depend on what is shown.\<close>

lemma ready_shown: 
  "tables_ready F n (say text st) = tables_ready F n st" "tables_ready F n (say_hex64 v st) = tables_ready F n st"
  "took F k st (say text st') = took F k st st'" "took F k st (say_hex64 v st') = took F k st st'"
  "took F k (say text st) st' = took F k st st'" "took F k (say_hex64 v st) st' = took F k st st'"
  "boot_lookup (say text st) = boot_lookup st" "boot_lookup (say_hex64 v st) = boot_lookup st"
  by (simp_all add: tables_ready_def spare_def took_def boot_lookup_def say_def say_hex64_def inj_on_def fun_eq_iff)

lemma zero_upto_apart: "apart F f \<Longrightarrow> a \<in> F \<Longrightarrow> zero_upto 512 f m a = m a"
proof -
  have "(of_nat k :: u64) < 512" if "k < 512" for k using that by (simp add: word_less_nat_alt unat_of_nat_u64)
  then show "apart F f \<Longrightarrow> a \<in> F \<Longrightarrow> zero_upto 512 f m a = m a" by (auto simp: zero_upto_def apart_def)
qed

lemma clear_words:
  "fold (\<lambda>i. store (f + 8 * of_nat i) 0) [0..<n] st = st\<lparr>words := zero_upto n f (words st)\<rparr>"
  by (induction n) (simp_all add: zero_upto_0 store_def zero_upto_Suc)

lemma new_table_eq:
  "new_table flags entry st =
    st\<lparr>words := (zero_upto 512 (next_available_mapping_page st) (words st))
         (entry := flags OR next_available_mapping_page st),
       next_available_mapping_page := next_available_mapping_page st + 0x1000,
       available_mapping_page_count := available_mapping_page_count st - 1\<rparr>"
  by (simp add: new_table_def get_next_available_mapping_page_def clear_words store_def Let_def)

lemma flags_bits:
  assumes "flags = NEW_ENTRY \<or> flags = PRESENT_FLAG OR WRITABLE_FLAG" "f AND ADDR_MASK = f"
  shows "(flags OR f) AND PRESENT_FLAG \<noteq> 0" "(flags OR f) AND ADDR_MASK = f"
proof -
  have n: "flags = 7 \<or> flags = 3"
    using assms(1) by (auto simp: NEW_ENTRY_def PRESENT_FLAG_def WRITABLE_FLAG_def USER_ACCESS_FLAG_def)
  then have "bit ((flags OR f) AND PRESENT_FLAG) 0" by (auto simp: PRESENT_FLAG_def bit_simps)
  then show "(flags OR f) AND PRESENT_FLAG \<noteq> 0" by auto
  have "flags AND ADDR_MASK = 0" using n by (auto simp: ADDR_MASK_def)
  then show "(flags OR f) AND ADDR_MASK = f" using assms(2) by (simp add: bit.conj_disj_distrib2)
qed

lemma small_entry:
  assumes "flags = NEW_ENTRY \<or> flags = PRESENT_FLAG OR WRITABLE_FLAG" "is_page f"
  shows "(flags OR f) AND PAGE_SIZE_FLAG = 0"
proof -
  have "flags AND PAGE_SIZE_FLAG = 0"
    using assms(1) by (auto simp: NEW_ENTRY_def PRESENT_FLAG_def WRITABLE_FLAG_def USER_ACCESS_FLAG_def PAGE_SIZE_FLAG_def)
  moreover have "ADDR_MASK AND PAGE_SIZE_FLAG = 0" by (simp add: ADDR_MASK_def PAGE_SIZE_FLAG_def)
  then have "(f AND ADDR_MASK) AND PAGE_SIZE_FLAG = 0" by (simp only: and.assoc) simp
  then have "f AND PAGE_SIZE_FLAG = 0" using assms(2) by (simp only: is_page_def)
  ultimately show ?thesis by (simp add: bit.conj_disj_distrib2)
qed

lemma tree_unique:
  "tree m root \<Longrightarrow> walk_from m root ks = Some q \<Longrightarrow> walk_from m root js = Some q \<Longrightarrow> length ks \<le> 3 \<Longrightarrow> length js \<le> 3 \<Longrightarrow>
    valid_path ks \<Longrightarrow> valid_path js \<Longrightarrow> ks = js"
  by (simp add: tree_def)

text \<open>Walks that were there before a fresh table is linked are there afterwards.\<close>

lemma fresh_table_keeps:
  assumes t: "tree m root" and w: "walk_from m root is = Some p" "length is \<le> 2" "valid_path is"
    and i: "i < 512" and absent: "m (p + 8 * i) AND PRESENT_FLAG = 0" and fresh: "f \<notin> tables m root" and page: "is_page f"
    and js: "walk_from m root js = Some q" "length js \<le> 3" "valid_path js"
  shows "walk_from ((zero_upto 512 f m)(p + 8 * i := e)) root js = Some q"
proof -
  have same: "zero_upto 512 f m (r + 8 * k) = m (r + 8 * k)" if r: "r \<in> tables m root" "k < 512" for r k
  proof -
    have "r + 8 * k \<noteq> f + 8 * of_nat x" if x: "x < 512" for x
    proof
      assume e: "r + 8 * k = f + 8 * of_nat x"
      have "(of_nat x :: u64) < 512" using x by (simp add: word_less_nat_alt unat_of_nat_u64)
      then show False using entry_inj [OF tables_page [OF t r(1)] page r(2) _ e] r(1) fresh by simp
    qed
    then show ?thesis by (auto simp: zero_upto_def)
  qed
  have walk: "walk_from (zero_upto 512 f m) root ks = walk_from m root ks" if "length ks \<le> 4" "valid_path ks" for ks
    using that same by (intro walk_outside [OF t]) simp_all
  have t1: "tree (zero_upto 512 f m) root" using tree_cong [OF t, of "zero_upto 512 f m"] walk by simp
  have "\<nexists>rest. js = is @ i # rest"
  proof
    assume "\<exists>rest. js = is @ i # rest"
    then obtain rest where "js = is @ i # rest" by blast
    then show False using js(1) w(1) absent by (simp add: walk_append)
  qed
  then have "walk_from ((zero_upto 512 f m)(p + 8 * i := e)) root js = walk_from (zero_upto 512 f m) root js"
    using w js(2,3) by (intro write_entry_walk [OF t1 _ _ w(3) i]) (simp_all add: walk)
  then show ?thesis using js walk by simp
qed

lemma small_pages_fresh:
  assumes t: "tree m root" and w: "walk_from m root is = Some p" "length is \<le> 2" "valid_path is"
    and i: "i < 512" and e: "e AND PRESENT_FLAG \<noteq> 0" "e AND ADDR_MASK = f" "e AND PAGE_SIZE_FLAG = 0"
    and absent: "m (p + 8 * i) AND PRESENT_FLAG = 0" and fresh: "f \<notin> tables m root" and page: "is_page f" and small: "small_pages m root"
  shows "small_pages ((zero_upto 512 f m)(p + 8 * i := e)) root"
proof -
  let ?m = "(zero_upto 512 f m)(p + 8 * i := e)"
  note link = fresh_table_walk [OF t w i e(1,2) absent fresh page]
  have pt: "p \<in> tables m root" using w by (intro tablesI [OF w(1)]) simp_all
  show ?thesis
    unfolding small_pages_def
  proof (intro allI impI)
    fix ks q k assume ks: "length ks \<le> 2" "valid_path ks" "walk_from ?m root ks = Some q" "k < 512" and present: "?m (q + 8 * k) AND PRESENT_FLAG \<noteq> 0"
    have qt: "q \<in> tables ?m root" using ks by (intro tablesI [OF ks(3)]) simp_all
    show "?m (q + 8 * k) AND PAGE_SIZE_FLAG = 0"
    proof (cases "q + 8 * k = p + 8 * i")
      case False
      have zero: "?m (f + 8 * k) = 0" if "f + 8 * k \<noteq> p + 8 * i"
      proof -
        have "f + 8 * k = f + 8 * of_nat (unat k)" "unat k < 512" using ks(4) by (simp_all add: word_less_nat_alt)
        then show ?thesis using that by (auto simp: zero_upto_def)
      qed
      then have "q \<noteq> f" using present False by auto
      then have "q \<in> tables m root" using qt link(2) by auto
      then obtain js where js: "walk_from m root js = Some q" "length js \<le> 3" "valid_path js" by (auto simp: tables_def)
      have "ks = js"
        by (rule tree_unique [OF link(1) ks(3) fresh_table_keeps [OF t w i absent fresh page js]]) (use ks js in simp_all)
      moreover have "zero_upto 512 f m (q + 8 * k) \<noteq> 0" using False present by auto
      then have "zero_upto 512 f m (q + 8 * k) = m (q + 8 * k)" by (auto simp: zero_upto_def split: if_splits)
      then have "?m (q + 8 * k) = m (q + 8 * k)" using False by simp
      ultimately show ?thesis using small js ks(1,2,4) present unfolding small_pages_def by metis
    qed (simp add: e(3))
  qed
qed

lemma small_pages_leaf:
  assumes t: "tree m root" and w: "walk_from m root is = Some p" "length is = 3" "valid_path is" and i: "i < 512"
    and small: "small_pages m root"
  shows "small_pages (m(p + 8 * i := e)) root"
  unfolding small_pages_def
proof (intro allI impI)
  let ?m = "m(p + 8 * i := e)"
  fix ks q k assume ks: "length ks \<le> 2" "valid_path ks" "walk_from ?m root ks = Some q" "k < 512" and present: "?m (q + 8 * k) AND PRESENT_FLAG \<noteq> 0"
  have wk: "walk_from m root ks = Some q"
  proof -
    have "\<nexists>rest. ks = is @ i # rest" using ks(1) w(2) by auto
    then show ?thesis using write_entry_walk [OF t w(1) _ w(3) i, of ks e] w(2) ks by simp
  qed
  have "q \<noteq> p"
  proof
    assume "q = p"
    then have "ks = is" using wk ks(1,2) w by (intro tree_unique [OF t _ w(1)]) simp_all
    then show False using ks(1) w(2) by simp
  qed
  moreover have "is_page q" "is_page p" using walk_page [OF _ wk] walk_page [OF _ w(1)] t by (simp_all add: tree_def)
  ultimately have "q + 8 * k \<noteq> p + 8 * i" using entry_inj [OF _ _ ks(4) i] by blast
  then show "?m (q + 8 * k) AND PAGE_SIZE_FLAG = 0" using small wk ks(1,2,4) present unfolding small_pages_def by auto
qed

section \<open>Correctness\<close>

text \<open>The next page of the region, cleared and linked into the tables.\<close>

lemma page_linked:
  assumes ready: "tables_ready F (Suc n) st" and w: "walk_from (words st) (pml4 st) is = Some p" "length is \<le> 2" "valid_path is"
    and i: "i < 512" and flags: "flags = NEW_ENTRY \<or> flags = PRESENT_FLAG OR WRITABLE_FLAG"
    and absent: "words st (p + 8 * i) AND PRESENT_FLAG = 0"
  defines "st' \<equiv> new_table flags (p + 8 * i) st"
  shows "took F 1 st st'" "tables_ready F n st'" "boot_same st st'"
    "boot_lookup st' (is @ [i]) = Some (words st' (p + 8 * i) AND ADDR_MASK)"
proof -
  let ?m = "words st" and ?root = "pml4 st" and ?f = "next_available_mapping_page st"
  have t: "tree ?m ?root" and small: "small_pages ?m ?root" and inj: "inj_on (spare st) {..<Suc n}"
    and free: "\<And>k. k < Suc n \<Longrightarrow> is_page (spare st k) \<and> spare st k \<notin> tables ?m ?root \<and> apart F (spare st k)"
    and apart: "\<And>q. q \<in> tables ?m ?root \<Longrightarrow> apart F q"
    using ready by (simp_all add: tables_ready_def)
  have s0: "spare st 0 = ?f" by (simp add: spare_def)
  have f: "is_page ?f" "?f \<notin> tables ?m ?root" using free [of 0] s0 by simp_all
  have e: "(flags OR ?f) AND PRESENT_FLAG \<noteq> 0" "(flags OR ?f) AND ADDR_MASK = ?f"
    using flags_bits [OF flags, of ?f] f(1) by (simp_all add: is_page_def)
  note link = fresh_table_walk [OF t w i e absent f(2,1)]
  note st' = new_table_eq [of flags "p + 8 * i" st, folded st'_def]
  have pt: "p \<in> tables ?m ?root" using w by (intro tablesI [OF w(1)]) simp_all
  have "a \<noteq> p + 8 * i" if "a \<in> F" for a using ready pt i that by (auto simp: tables_ready_def apart_def)
  then show "took F 1 st st'"
    unfolding st' using zero_upto_apart [of F ?f] free [of 0] s0 by (auto simp: took_def spare_def)
  have sp: "spare st' k = spare st (Suc k)" for k unfolding st' by (simp add: spare_def distrib_left)
  have sub: "tables (words st') (pml4 st') \<subseteq> insert ?f (tables ?m ?root)" unfolding st' using link(2) by simp
  have "tree (words st') (pml4 st')" unfolding st' using link(1) by simp
  moreover have "small_pages (words st') (pml4 st')"
    unfolding st' using small_pages_fresh [OF t w i e small_entry [OF flags f(1)] absent f(2,1) small] by simp
  moreover have "inj_on (spare st') {..<n}" using inj unfolding sp inj_on_def by auto
  moreover have "spare st (Suc k) \<noteq> ?f" if "k < n" for k using inj_onD [OF inj, of "Suc k" 0] s0 that by auto
  then have "is_page (spare st' k) \<and> spare st' k \<notin> tables (words st') (pml4 st') \<and> apart F (spare st' k)" if "k < n" for k
    using free [of "Suc k"] that sub unfolding sp by blast
  moreover have "\<forall>q \<in> tables (words st') (pml4 st'). apart F q" using sub apart free [of 0] s0 by auto
  ultimately show "tables_ready F n st'" by (simp add: tables_ready_def)
  show "boot_same st st'" unfolding st' using link(4) by (simp add: boot_same_def boot_lookup_def)
  show "boot_lookup st' (is @ [i]) = Some (words st' (p + 8 * i) AND ADDR_MASK)"
    unfolding st' using link(3) e(2) by (simp add: boot_lookup_def)
qed

text \<open>One level: afterwards the entry leads to a table, and no page is mapped differently.\<close>

lemma level_ok:
  assumes ready: "tables_ready F (Suc n) st" and p: "boot_lookup st is = Some p" "length is \<le> 2" "valid_path is"
    and i: "i < 512" and flags: "flags = NEW_ENTRY \<or> flags = PRESENT_FLAG OR WRITABLE_FLAG"
  obtains k where "k \<le> 1" "took F k st (level flags (p + 8 * i) st)" "tables_ready F n (level flags (p + 8 * i) st)"
    "boot_same st (level flags (p + 8 * i) st)"
    "boot_lookup (level flags (p + 8 * i) st) (is @ [i]) = Some (words (level flags (p + 8 * i) st) (p + 8 * i) AND ADDR_MASK)"
proof (cases "words st (p + 8 * i) AND PRESENT_FLAG = 0")
  case False
  then have "level flags (p + 8 * i) st = st" by (simp add: level_def)
  moreover have "boot_lookup st (is @ [i]) = Some (words st (p + 8 * i) AND ADDR_MASK)"
    using p(1) False by (simp add: boot_lookup_def walk_append)
  moreover have "tables_ready F n st" using ready by (rule tables_ready_weaken) simp
  ultimately show ?thesis using that [of 0] by simp
next
  case True
  then have "level flags (p + 8 * i) st = new_table flags (p + 8 * i) st" by (simp add: level_def)
  then show ?thesis
    using that [of 1] page_linked [OF ready p(1) [unfolded boot_lookup_def] p(2,3) i flags True] by simp
qed

lemma top_level_ok:
  assumes ready: "tables_ready F (Suc n) st" and i: "i < 512"
  obtains k where "k \<le> 1" "took F k st (top_level (pml4 st + 8 * i) st)" "tables_ready F n (top_level (pml4 st + 8 * i) st)"
    "boot_same st (top_level (pml4 st + 8 * i) st)"
    "boot_lookup (top_level (pml4 st + 8 * i) st) [i] = Some (words (top_level (pml4 st + 8 * i) st) (pml4 st + 8 * i) AND ADDR_MASK)"
proof -
  let ?e = "pml4 st + 8 * i" and ?fl = "PRESENT_FLAG OR WRITABLE_FLAG"
  define s where "s = say (if words st ?e AND PRESENT_FLAG = 0 then ''Writing PML4: 0x'' else ''PML4 present: 0x'') st"
  have s: "tables_ready F (Suc n) s" "pml4 s = pml4 st" "boot_lookup s [] = Some (pml4 st)"
    using ready by (simp_all add: s_def ready_shown boot_lookup_def)
  have top: "top_level ?e st = say [CHR 0x0A, CHR 0x0D] (say_hex64 (words (level ?fl ?e s) ?e) (level ?fl ?e s))"
    by (simp add: top_level_def s_def level_def Let_def)
  obtain k where k: "k \<le> 1" "took F k s (level ?fl ?e s)" "tables_ready F n (level ?fl ?e s)"
    "boot_same s (level ?fl ?e s)" "boot_lookup (level ?fl ?e s) ([] @ [i]) = Some (words (level ?fl ?e s) ?e AND ADDR_MASK)"
    by (rule level_ok [OF s(1,3) _ _ i, of ?fl]) simp_all
  then have "took F k st (top_level ?e st)" "tables_ready F n (top_level ?e st)" "boot_same st (top_level ?e st)"
    "boot_lookup (top_level ?e st) [i] = Some (words (top_level ?e st) ?e AND ADDR_MASK)"
    unfolding top by (simp_all add: ready_shown s_def boot_same_def)
  with k(1) show ?thesis using that by blast
qed

text \<open>The levels of \<open>map_page\<close> one after the other: the states between them and the tables the entries lead to.\<close>

lemma map_page_levels:
  assumes ready: "tables_ready F (n + 3) st"
  obtains s1 s2 s3 p3 p2 p1 k where
    "s1 = top_level (pml4 st + 8 * VA_GET_PML4_INDEX va) st" "p3 = words s1 (pml4 st + 8 * VA_GET_PML4_INDEX va) AND ADDR_MASK"
    "s2 = level NEW_ENTRY (p3 + 8 * VA_GET_PDP_INDEX va) s1" "p2 = words s2 (p3 + 8 * VA_GET_PDP_INDEX va) AND ADDR_MASK"
    "s3 = level NEW_ENTRY (p2 + 8 * VA_GET_PD_INDEX va) s2" "p1 = words s3 (p2 + 8 * VA_GET_PD_INDEX va) AND ADDR_MASK"
    "tables_ready F (Suc (Suc n)) s1" "tables_ready F (Suc n) s2" "tables_ready F n s3"
    "boot_lookup s1 [VA_GET_PML4_INDEX va] = Some p3" "boot_lookup s2 [VA_GET_PML4_INDEX va, VA_GET_PDP_INDEX va] = Some p2"
    "boot_lookup s3 [VA_GET_PML4_INDEX va, VA_GET_PDP_INDEX va, VA_GET_PD_INDEX va] = Some p1"
    "k \<le> 3" "took F k st s3" "boot_same st s3"
proof -
  let ?i4 = "VA_GET_PML4_INDEX va" and ?i3 = "VA_GET_PDP_INDEX va" and ?i2 = "VA_GET_PD_INDEX va"
  note b = va_index_bounds [of va]
  define s1 where "s1 = top_level (pml4 st + 8 * ?i4) st"
  define p3 where "p3 = words s1 (pml4 st + 8 * ?i4) AND ADDR_MASK"
  define s2 where "s2 = level NEW_ENTRY (p3 + 8 * ?i3) s1"
  define p2 where "p2 = words s2 (p3 + 8 * ?i3) AND ADDR_MASK"
  define s3 where "s3 = level NEW_ENTRY (p2 + 8 * ?i2) s2"
  define p1 where "p1 = words s3 (p2 + 8 * ?i2) AND ADDR_MASK"
  have "tables_ready F (Suc (Suc (Suc n))) st" using ready by (simp add: numeral_3_eq_3)
  from top_level_ok [OF this b(1)] obtain k1 where k1: "k1 \<le> 1" "took F k1 st s1" "tables_ready F (Suc (Suc n)) s1"
    "boot_same st s1" "boot_lookup s1 [?i4] = Some p3"
    unfolding s1_def [symmetric] p3_def [symmetric] by blast
  from level_ok [OF k1(3,5) _ _ b(2), of NEW_ENTRY] b obtain k2 where k2: "k2 \<le> 1" "took F k2 s1 s2"
    "tables_ready F (Suc n) s2" "boot_same s1 s2" "boot_lookup s2 [?i4, ?i3] = Some p2"
    unfolding s2_def [symmetric] p2_def [symmetric] by auto
  from level_ok [OF k2(3,5) _ _ b(3), of NEW_ENTRY] b obtain k3 where k3: "k3 \<le> 1" "took F k3 s2 s3"
    "tables_ready F n s3" "boot_same s2 s3" "boot_lookup s3 [?i4, ?i3, ?i2] = Some p1"
    unfolding s3_def [symmetric] p1_def [symmetric] by auto
  have "took F (k1 + k2 + k3) st s3" by (rule took_trans [OF took_trans [OF k1(2) k2(2)] k3(2)])
  moreover have "k1 + k2 + k3 \<le> 3" using k1(1) k2(1) k3(1) by simp
  moreover have "boot_same st s3" by (rule boot_same_trans [OF boot_same_trans [OF k1(4) k2(4)] k3(4)])
  ultimately show ?thesis
    using that [OF s1_def p3_def s2_def p2_def s3_def p1_def k1(3) k2(3) k3(3) k1(5) k2(5) k3(5)] by blast
qed

lemma map_page_leaf:
  assumes "s1 = top_level (pml4 st + 8 * VA_GET_PML4_INDEX va) st" "p3 = words s1 (pml4 st + 8 * VA_GET_PML4_INDEX va) AND ADDR_MASK"
    "s2 = level NEW_ENTRY (p3 + 8 * VA_GET_PDP_INDEX va) s1" "p2 = words s2 (p3 + 8 * VA_GET_PDP_INDEX va) AND ADDR_MASK"
    "s3 = level NEW_ENTRY (p2 + 8 * VA_GET_PD_INDEX va) s2" "p1 = words s3 (p2 + 8 * VA_GET_PD_INDEX va) AND ADDR_MASK"
  shows "map_page pa va st = (if words s3 (p1 + 8 * VA_GET_PT_INDEX va) AND PRESENT_FLAG = 0
      then (EFI_SUCCESS, store (p1 + 8 * VA_GET_PT_INDEX va) (NEW_ENTRY OR (pa AND ADDR_MASK)) s3) else (EFI_INVALID_PARAMETER, s3))"
  unfolding map_page_def Let_def by (simp add: store_def flip: assms)

text \<open>
  \<open>map_page\<close>: it takes at most three pages of the region; a page that was not mapped is mapped to the
  frame, a mapped one is refused, and no other page of the address space is mapped differently.
\<close>

lemma map_page_ok:
  assumes ready: "tables_ready F (n + 3) st"
  obtains r k st' where "map_page pa va st = (r, st')" "k \<le> 3" "took F k st st'" "tables_ready F n st'"
    "r = EFI_INVALID_PARAMETER \<and> boot_lookup st (va_path va) \<noteq> None \<and> boot_same st st' \<or>
     r = EFI_SUCCESS \<and> boot_lookup st (va_path va) = None \<and> (\<forall>js. length js = 4 \<longrightarrow> valid_path js \<longrightarrow>
       boot_lookup st' js = (if js = va_path va then Some (pa AND ADDR_MASK) else boot_lookup st js))"
proof -
  let ?i1 = "VA_GET_PT_INDEX va" and ?is = "[VA_GET_PML4_INDEX va, VA_GET_PDP_INDEX va, VA_GET_PD_INDEX va]"
  note b = va_index_bounds [of va]
  obtain s1 s2 s3 p3 p2 p1 k where d: "s1 = top_level (pml4 st + 8 * VA_GET_PML4_INDEX va) st"
    "p3 = words s1 (pml4 st + 8 * VA_GET_PML4_INDEX va) AND ADDR_MASK"
    "s2 = level NEW_ENTRY (p3 + 8 * VA_GET_PDP_INDEX va) s1" "p2 = words s2 (p3 + 8 * VA_GET_PDP_INDEX va) AND ADDR_MASK"
    "s3 = level NEW_ENTRY (p2 + 8 * VA_GET_PD_INDEX va) s2" "p1 = words s3 (p2 + 8 * VA_GET_PD_INDEX va) AND ADDR_MASK"
    and r3: "tables_ready F n s3" and l3: "boot_lookup s3 ?is = Some p1" and k: "k \<le> 3" "took F k st s3" and same: "boot_same st s3"
    by (rule map_page_levels [OF ready, of va])
  note m = map_page_leaf [OF d, of pa]
  have t: "tree (words s3) (pml4 s3)" using r3 by (simp add: tables_ready_def)
  have w: "walk_from (words s3) (pml4 s3) ?is = Some p1" using l3 by (simp add: boot_lookup_def)
  have vp: "length (va_path va) = 4" "valid_path (va_path va)" "va_path va = ?is @ [?i1]"
    using b by (simp_all add: va_path_def)
  have l: "boot_lookup st (va_path va) = (if words s3 (p1 + 8 * ?i1) AND PRESENT_FLAG = 0 then None
      else Some (words s3 (p1 + 8 * ?i1) AND ADDR_MASK))"
  proof -
    have "boot_lookup st (va_path va) = boot_lookup s3 (va_path va)" using same vp(1,2) by (simp add: boot_same_def)
    also have "\<dots> = Option.bind (Some p1) (\<lambda>q. walk_from (words s3) q [?i1])"
      unfolding boot_lookup_def vp(3) by (subst walk_append) (simp only: w)
    finally show ?thesis by simp
  qed
  show ?thesis
  proof (cases "words s3 (p1 + 8 * ?i1) AND PRESENT_FLAG = 0")
    case False
    then show ?thesis using that [of EFI_INVALID_PARAMETER s3 k] m k r3 same l by simp
  next
    case True
    define e where "e = NEW_ENTRY OR (pa AND ADDR_MASK)"
    have e: "e AND PRESENT_FLAG \<noteq> 0" "e AND ADDR_MASK = pa AND ADDR_MASK"
      using flags_bits [of NEW_ENTRY "pa AND ADDR_MASK"] by (simp_all add: e_def and.assoc)
    define st' where "st' = store (p1 + 8 * ?i1) e s3"
    note leaf = set_leaf_walk [OF t w _ _ b(4) e(1)]
    have st': "words st' = (words s3)(p1 + 8 * ?i1 := e)" "pml4 st' = pml4 s3" "spare st' = spare s3"
      by (simp_all add: st'_def store_def spare_def fun_eq_iff)
    have "p1 \<in> tables (words s3) (pml4 s3)" using b by (intro tablesI [OF w]) simp_all
    with r3 have "apart F p1" by (simp add: tables_ready_def)
    then have "p1 + 8 * ?i1 \<notin> F" using b(4) by (auto simp: apart_def)
    then have "took F k st st'" using k(2) by (simp add: took_def st'_def store_def)
    moreover have "tables_ready F n st'"
      using r3 leaf(1,2) b small_pages_leaf [OF t w _ _ b(4)] unfolding tables_ready_def st' by simp
    moreover have "\<forall>js. length js = 4 \<longrightarrow> valid_path js \<longrightarrow>
        boot_lookup st' js = (if js = va_path va then Some (pa AND ADDR_MASK) else boot_lookup st js)"
      using leaf(3) b e(2) same unfolding boot_lookup_def st' vp(3) boot_same_def by simp
    moreover have "map_page pa va st = (EFI_SUCCESS, st')" using m True by (simp add: st'_def e_def)
    ultimately show ?thesis using that [of EFI_SUCCESS st' k] k(1) l True by simp
  qed
qed

lemma unat_page_base: "unat (a - a mod 0x1000) = 4096 * (unat a div 4096)" for a :: u64
proof -
  have "a mod 0x1000 \<le> a" by (simp add: word_le_nat_alt unat_mod)
  then have "unat (a - a mod 0x1000) = unat a - unat a mod 4096" by (simp add: unat_sub unat_mod)
  then show ?thesis by (simp add: minus_mod_eq_mult_div)
qed

section \<open>A run of pages\<close>

text \<open>The pages \<open>map_pages\<close> is asked to map, with their frames; where two of them are the same page
  the first counts, as in the code.\<close>

definition page_run :: "u64 \<Rightarrow> u64 \<Rightarrow> nat \<Rightarrow> (u64 list \<times> u64) list" where
  "page_run src dest n = map (\<lambda>i. (va_path (dest + push_bit 12 (of_nat i)), (src + push_bit 12 (of_nat i)) AND ADDR_MASK)) [0..<n]"

lemma map_pages_upto:
  "tables_ready F (n + 3 * c) st \<Longrightarrow> \<exists>k st'. fold (\<lambda>i st. snd (map_page (src + push_bit 12 (of_nat i)) (dest + push_bit 12 (of_nat i)) st))
       [0..<c] st = st' \<and> k \<le> 3 * c \<and> took F k st st' \<and> tables_ready F n st' \<and>
     (\<forall>js. length js = 4 \<longrightarrow> valid_path js \<longrightarrow> boot_lookup st' js = (map_of (page_run src dest c) ++ boot_lookup st) js)"
proof (induction c arbitrary: n)
  case (Suc c)
  have "tables_ready F (n + 3 + 3 * c) st" using Suc.prems by (simp add: ac_simps)
  from Suc.IH [OF this] obtain k s1 where s1:
    "fold (\<lambda>i st. snd (map_page (src + push_bit 12 (of_nat i)) (dest + push_bit 12 (of_nat i)) st)) [0..<c] st = s1"
    "k \<le> 3 * c" "took F k st s1" "tables_ready F (n + 3) s1"
    "\<And>js. length js = 4 \<Longrightarrow> valid_path js \<Longrightarrow> boot_lookup s1 js = (map_of (page_run src dest c) ++ boot_lookup st) js"
    by blast
  let ?va = "dest + push_bit 12 (of_nat c)" and ?pa = "src + push_bit 12 (of_nat c)"
  obtain r k' s2 where s2: "map_page ?pa ?va s1 = (r, s2)" "k' \<le> 3" "took F k' s1 s2" "tables_ready F n s2"
    "r = EFI_INVALID_PARAMETER \<and> boot_lookup s1 (va_path ?va) \<noteq> None \<and> boot_same s1 s2 \<or>
     r = EFI_SUCCESS \<and> boot_lookup s1 (va_path ?va) = None \<and> (\<forall>js. length js = 4 \<longrightarrow> valid_path js \<longrightarrow>
       boot_lookup s2 js = (if js = va_path ?va then Some (?pa AND ADDR_MASK) else boot_lookup s1 js))"
    by (rule map_page_ok [OF s1(4)])
  have run: "page_run src dest (Suc c) = page_run src dest c @ [(va_path ?va, ?pa AND ADDR_MASK)]"
    by (simp add: page_run_def)
  have vp: "length (va_path ?va) = 4" "valid_path (va_path ?va)" using va_index_bounds [of ?va] by (simp_all add: va_path_def)
  have step: "boot_lookup s2 js = ([va_path ?va \<mapsto> ?pa AND ADDR_MASK] ++ boot_lookup s1) js"
    if js: "length js = 4" "valid_path js" for js
    using s2(5) js vp by (auto simp: map_add_def boot_same_def split: option.splits)
  have "boot_lookup s2 js = (map_of (page_run src dest (Suc c)) ++ boot_lookup st) js"
    if js: "length js = 4" "valid_path js" for js
    unfolding step [OF js] run map_of_append map_add_assoc
    using s1(5) [OF js] by (simp add: map_add_def split: option.splits)
  moreover have "took F (k + k') st s2" using took_trans [OF s1(3) s2(3)] .
  moreover have "k + k' \<le> 3 * Suc c" using s1(2) s2(2) by simp
  ultimately show ?case using s1(1) s2(1,4) by (intro exI [of _ "k + k'"] exI [of _ s2]) simp
qed (auto simp: page_run_def intro!: exI [of _ 0])

text \<open>C12: \<open>map_pages\<close> maps every page it is asked for to its frame, unless that page is mapped already,
  which it passes over in silence, and maps no other page differently. It takes at most three pages
  of the region for each page, keeps the tables a tree and writes no word outside the tables and
  the pages it takes.\<close>

theorem map_pages_ok:
  assumes "tables_ready F (n + 3 * unat page_count) st"
  shows "\<exists>k \<le> 3 * unat page_count. took F k st (map_pages src dest page_count st) \<and>
    tables_ready F n (map_pages src dest page_count st) \<and>
    (\<forall>js. length js = 4 \<longrightarrow> valid_path js \<longrightarrow>
       boot_lookup (map_pages src dest page_count st) js = (map_of (page_run src dest (unat page_count)) ++ boot_lookup st) js)"
  using map_pages_upto [OF assms, of src dest] by (auto simp: map_pages_def)

text \<open>An empty top table, and pages from \<open>0x50000\<close> on.\<close>

definition fresh_mem :: uefi_mem where
  "fresh_mem = \<lparr>words = (\<lambda>_. 0), pml4 = 0x40000, next_available_mapping_page = 0x50000,
     available_mapping_page_count = 16, mapping_base_address = 0x40000, shown = []\<rparr>"

text \<open>Any image below the tables.\<close>

definition with_image :: "(u64 \<Rightarrow> u64) \<Rightarrow> uefi_mem" where
  "with_image m = fresh_mem\<lparr>words := m\<rparr>"

lemma fresh_spare: "spare (with_image m) k = of_nat (0x50000 + 0x1000 * k)"
  by (simp add: spare_def fresh_mem_def with_image_def)

lemma fresh_pages:
  assumes "k < 16"
  shows "unat (spare (with_image m) k) = 0x50000 + 0x1000 * k" "is_page (spare (with_image m) k)"
proof -
  show "unat (spare (with_image m) k) = 0x50000 + 0x1000 * k"
    unfolding fresh_spare using assms by (intro unat_of_nat_u64) simp
  define w :: u64 where "w = of_nat (0x50 + k)"
  have e: "spare (with_image m) k = push_bit 12 w"
    unfolding fresh_spare w_def by (simp add: push_bit_eq_mult algebra_simps)
  have b: "\<not> bit w n" if "40 \<le> n" for n
    unfolding w_def using assms that by (intro bit_of_nat_bound [of _ 7]) simp_all
  have "12 \<le> n \<Longrightarrow> bit w (n - 12) \<Longrightarrow> n < 52" for n using b [of "n - 12"] by (cases "n < 52") simp_all
  then show "is_page (spare (with_image m) k)" unfolding e is_page_def
    by (intro bit_word_eqI) (auto simp: bit_simps bit_ADDR_MASK)
qed

lemma image_ready:
  assumes n: "n \<le> 16" and F: "\<And>a. a \<in> F \<Longrightarrow> a < 0x40000" and m: "\<And>a. 0x40000 \<le> a \<Longrightarrow> m a = 0"
  shows "tables_ready F n (with_image m)"
proof -
  have r: "is_page 0x40000" by (simp add: is_page_def ADDR_MASK_def)
  have above: "0x40000 \<le> p + 8 * i" if "is_page p" "0x40000 \<le> p" "i < 512" for p i
    using that entry_unat [of p i] by (simp add: word_le_nat_alt)
  have w: "walk_from m 0x40000 is = (if is = [] then Some 0x40000 else None)" if "valid_path is" for "is"
    using that m [OF above [OF r]] by (cases "is") simp_all
  have t: "tables m 0x40000 = {0x40000}" by (auto simp: tables_def w split: if_splits intro!: exI [of _ "[]"])
  have tree: "tree m 0x40000" using r by (auto simp: tree_def w split: if_splits)
  have small: "small_pages m 0x40000" using m [OF above [OF r]] by (auto simp: small_pages_def w split: if_splits)
  have ap: "apart F p" if "is_page p" "0x40000 \<le> p" for p
    using F above [OF that] by (force simp: apart_def not_le [symmetric])
  have u: "unat (spare (with_image m) k) = 0x50000 + 0x1000 * k" if "k < n" for k
    using fresh_pages(1) n that by simp
  have "inj_on (spare (with_image m)) {..<n}"
  proof (rule inj_onI)
    fix j k assume "j \<in> {..<n}" "k \<in> {..<n}" and eq: "spare (with_image m) j = spare (with_image m) k"
    then have jk: "j < n" "k < n" by simp_all
    have "0x50000 + 0x1000 * j = unat (spare (with_image m) j)" by (rule u [OF jk(1), symmetric])
    also have "\<dots> = 0x50000 + 0x1000 * k" unfolding eq by (rule u [OF jk(2)])
    finally show "j = k" by simp
  qed
  moreover have "is_page (spare (with_image m) k)" "0x40000 \<le> spare (with_image m) k" if "k < n" for k
    using fresh_pages(2) [of k m] u [OF that] n that by (simp_all add: word_le_nat_alt)
  moreover have "spare (with_image m) k \<noteq> 0x40000" if "k < n" for k using u [OF that] by auto
  moreover have "words (with_image m) = m" "pml4 (with_image m) = 0x40000" by (simp_all add: fresh_mem_def with_image_def)
  ultimately show ?thesis
    using tree r small by (simp add: tables_ready_def t ap)
qed

lemma fresh_ready: "n \<le> 16 \<Longrightarrow> tables_ready {} n fresh_mem"
  using image_ready [of n "{}" "\<lambda>_. 0"] by (simp add: with_image_def fresh_mem_def)

theorem map_pages_ok_witness:
  "boot_lookup (map_pages 0x5000 0x200000 2 fresh_mem) (va_path 0x201000) = Some 0x6000"
proof -
  have "tables_ready {} (0 + 3 * unat (2 :: u64)) fresh_mem" by (rule fresh_ready) simp_all
  from map_pages_ok [OF this, of "0x5000" "0x200000"]
  have "boot_lookup (map_pages 0x5000 0x200000 2 fresh_mem) js =
      (map_of (page_run 0x5000 0x200000 2) ++ boot_lookup fresh_mem) js" if "length js = 4" "valid_path js" for js
    using that by auto
  moreover have "length (va_path 0x201000) = 4" "valid_path (va_path 0x201000)"
    using va_index_bounds [of "0x201000"] by (simp_all add: va_path_def)
  moreover have "boot_lookup fresh_mem (va_path 0x201000) = None"
    by (simp add: boot_lookup_def fresh_mem_def va_path_def)
  moreover have "map_of (page_run 0x5000 0x200000 2) (va_path 0x201000) = Some 0x6000"
    by (simp add: page_run_def va_path_def va_index_take_bit push_bit_eq_mult drop_bit_eq_div take_bit_eq_mod
        ADDR_MASK_def numeral_2_eq_2)
  ultimately show ?thesis by (simp add: map_add_def)
qed

end
