(* ===== verification/Boot_Load.thy ===== *)
theory Boot_Load
  imports Boot_Map
begin

text \<open>
  The kernel image in the bootloader: the checks of its ELF header and the loop of
  \<open>bootloader/arch/x86_64/uefi_boot.c\<close> that maps its segments, with the layouts of
  \<open>bootloader/include/uefi_elf.h\<close>.

  The image lies in whole pages, so its fields are parts of 64-bit words. \<open>map_pages\<close> has no
  \<open>return\<close>: what the loop takes for its status is the parameter \<open>left\<close>, and \<open>efi_error\<close> is
  the firmware's macro \<open>EFI_ERROR\<close>.
\<close>

section \<open>The ELF header\<close>

text \<open>The \<open>n\<close> bits at byte \<open>k\<close> of a structure, which do not cross a word.\<close>

definition field :: "nat \<Rightarrow> (u64 \<Rightarrow> u64) \<Rightarrow> u64 \<Rightarrow> nat \<Rightarrow> u64" where
  "field n m base k = take_bit n (drop_bit (8 * (k mod 8)) (m (base + 8 * of_nat (k div 8))))"

definition ELF_MAGIC_OK :: "(u64 \<Rightarrow> u64) \<Rightarrow> u64 \<Rightarrow> bool" where
  "ELF_MAGIC_OK m x \<longleftrightarrow> field 8 m x 0 = 0x7F \<and> field 8 m x 1 = 0x45 \<and> field 8 m x 2 = 0x4c \<and> field 8 m x 3 = 0x46"

definition elf_class :: "(u64 \<Rightarrow> u64) \<Rightarrow> u64 \<Rightarrow> u64" where "elf_class m hdr = field 8 m hdr 4"
definition elf_machine :: "(u64 \<Rightarrow> u64) \<Rightarrow> u64 \<Rightarrow> u64" where "elf_machine m hdr = field 16 m hdr 18"
definition prog_header_table_offset :: "(u64 \<Rightarrow> u64) \<Rightarrow> u64 \<Rightarrow> u64" where
  "prog_header_table_offset m hdr = field 64 m hdr 32"
definition prog_header_entry_num :: "(u64 \<Rightarrow> u64) \<Rightarrow> u64 \<Rightarrow> u64" where
  "prog_header_entry_num m hdr = field 16 m hdr 56"

definition check_kernel :: "(u64 \<Rightarrow> u64) \<Rightarrow> u64 \<Rightarrow> efi_status" where
  "check_kernel m hdr =
     (if \<not> ELF_MAGIC_OK m hdr then EFI_INVALID_PARAMETER
      else if elf_class m hdr \<noteq> 0x02 then EFI_INVALID_PARAMETER
      else if elf_machine m hdr \<noteq> 0x3E then EFI_INVALID_PARAMETER
      else EFI_SUCCESS)"

text \<open>An entry of the program table is 56 bytes: offset at 8, vaddr at 16.\<close>

definition entry_offset :: "(u64 \<Rightarrow> u64) \<Rightarrow> u64 \<Rightarrow> u64 \<Rightarrow> u64" where
  "entry_offset m table i = m (table + 56 * i + 8)"
definition entry_vaddr :: "(u64 \<Rightarrow> u64) \<Rightarrow> u64 \<Rightarrow> u64 \<Rightarrow> u64" where
  "entry_vaddr m table i = m (table + 56 * i + 16)"

section \<open>The loop over the segments\<close>

record loading =
  uefi :: uefi_mem
  kernel_start :: u64
  kernel_pages :: u64
  highest_page_mapped :: u64

text \<open>The size of a segment is taken from the next offset in the file, not from the table.\<close>

definition segment_size :: "(u64 \<Rightarrow> u64) \<Rightarrow> u64 \<Rightarrow> u64 \<Rightarrow> u64 \<Rightarrow> u64 \<Rightarrow> u64" where
  "segment_size m table num kernel_size i =
     (if i = num - 1 then kernel_size - entry_offset m table i
      else entry_offset m table (i + 1) - entry_offset m table i)"

definition segment_pages :: "u64 \<Rightarrow> u64 \<Rightarrow> u64" where
  "segment_pages base len =
     (let page_base = base - base mod 0x1000;
          max_addr = base + len;
          page_max = max_addr - max_addr mod 0x1000
      in 1 + (page_max - page_base) div 0x1000)"

definition load_segment :: "u64 \<Rightarrow> u64 \<Rightarrow> u64 \<Rightarrow> u64 \<Rightarrow> loading \<Rightarrow> loading" where
  "load_segment hdr table kernel_size i ld =
     (let m = words (uefi ld);
          base = entry_vaddr m table i;
          pages = segment_pages base (segment_size m table (prog_header_entry_num m hdr) kernel_size i);
          phys = hdr + entry_offset m table i;
          ld = (if highest_page_mapped ld < base + push_bit 12 pages
                then ld\<lparr>highest_page_mapped := base + push_bit 12 pages\<rparr> else ld);
          ld = ld\<lparr>uefi := map_pages phys base pages (uefi ld)\<rparr>;
          ld = (if kernel_start ld = 0 then ld\<lparr>kernel_start := base\<rparr> else ld)
      in if kernel_pages ld = 0 then ld\<lparr>kernel_pages := pages\<rparr> else ld)"

text \<open>The result is \<open>Some\<close> status when the loop gives up.\<close>

fun load_loop :: "(u64 \<Rightarrow> bool) \<Rightarrow> (u64 \<Rightarrow> u64) \<Rightarrow> u64 \<Rightarrow> u64 \<Rightarrow> u64 \<Rightarrow> nat list \<Rightarrow> loading \<Rightarrow> u64 option \<times> loading" where
  "load_loop efi_error left hdr table kernel_size [] ld = (None, ld)"
| "load_loop efi_error left hdr table kernel_size (i # is) ld =
     (let ld = load_segment hdr table kernel_size (of_nat i) ld
      in if efi_error (left (of_nat i))
         then (Some (left (of_nat i)),
               ld\<lparr>uefi := say [CHR 0x0A, CHR 0x0D] (say_hex64 (left (of_nat i)) (say ''Mapping error: '' (uefi ld)))\<rparr>)
         else load_loop efi_error left hdr table kernel_size is ld)"

text \<open>The bound of the loop is read from the header, which \<open>load_kernel_ok\<close> shows is not written.\<close>

definition load_kernel ::
    "(u64 \<Rightarrow> bool) \<Rightarrow> (u64 \<Rightarrow> u64) \<Rightarrow> u64 \<Rightarrow> u64 \<Rightarrow> uefi_mem \<Rightarrow> u64 option \<times> loading" where
  "load_kernel efi_error left hdr kernel_size st =
     load_loop efi_error left hdr (hdr + prog_header_table_offset (words st) hdr) kernel_size
       [0..<unat (prog_header_entry_num (words st) hdr)]
       \<lparr>uefi = st, kernel_start = 0, kernel_pages = 0, highest_page_mapped = 0\<rparr>"

section \<open>The pages of a segment\<close>

lemma va_path_eq: "va_path a = va_path b \<longleftrightarrow> (\<forall>n. 12 \<le> n \<longrightarrow> n < 48 \<longrightarrow> bit a n = bit b n)"
proof
  assume e: "va_path a = va_path b"
  show "\<forall>n. 12 \<le> n \<longrightarrow> n < 48 \<longrightarrow> bit a n = bit b n"
  proof (intro allI impI)
    fix n :: nat assume n: "12 \<le> n" "n < 48"
    have b: "bit (take_bit 9 (drop_bit k a)) (n - k) = bit (take_bit 9 (drop_bit k b)) (n - k)"
      if "k \<in> {39, 30, 21, 12}" for k
      using e that unfolding va_path_def va_index_take_bit by auto
    consider "39 \<le> n" | "30 \<le> n" "n < 39" | "21 \<le> n" "n < 30" | "n < 21" using n by linarith
    then show "bit a n = bit b n"
      using b [of 39] b [of 30] b [of 21] b [of 12] n by cases (auto simp: bit_simps)
  qed
next
  assume b: "\<forall>n. 12 \<le> n \<longrightarrow> n < 48 \<longrightarrow> bit a n = bit b n"
  have "take_bit 9 (drop_bit k a) = take_bit 9 (drop_bit k b)" if "12 \<le> k" "k \<le> 39" for k
    using b that by (intro bit_word_eqI) (auto simp: bit_simps)
  then show "va_path a = va_path b" by (simp add: va_path_def va_index_take_bit)
qed

text \<open>In numbers: the same page of the 48-bit address space.\<close>

lemma va_path_div: "va_path a = va_path b \<longleftrightarrow> unat a mod 2 ^ 48 div 2 ^ 12 = unat b mod 2 ^ 48 div 2 ^ 12"
proof -
  have u: "unat (drop_bit 12 (take_bit 48 x)) = unat x mod 2 ^ 48 div 2 ^ 12" for x :: u64
  proof -
    have "unat (take_bit 48 x) = take_bit 48 (unat x)" by (rule unsigned_take_bit_eq)
    also have "\<dots> = unat x mod 2 ^ 48" by (rule take_bit_eq_mod)
    finally have "unat (take_bit 48 x) = unat x mod 2 ^ 48" .
    then show ?thesis by (simp only: unat_drop_bit_div)
  qed
  have bits: "bit (drop_bit 12 (take_bit 48 x)) m \<longleftrightarrow> m < 36 \<and> bit x (m + 12)" for x :: u64 and m
    by (auto simp: bit_simps ac_simps)
  have "va_path a = va_path b \<longleftrightarrow> (\<forall>m < 36. bit a (m + 12) = bit b (m + 12))"
    unfolding va_path_eq
  proof
    assume e: "\<forall>m < 36. bit a (m + 12) = bit b (m + 12)"
    have "bit a n = bit b n" if "12 \<le> n" "n < 48" for n using e [rule_format, of "n - 12"] that by simp
    then show "\<forall>n. 12 \<le> n \<longrightarrow> n < 48 \<longrightarrow> bit a n = bit b n" by blast
  qed simp
  also have "\<dots> \<longleftrightarrow> drop_bit 12 (take_bit 48 a) = drop_bit 12 (take_bit 48 b)"
  proof
    assume "\<forall>m < 36. bit a (m + 12) = bit b (m + 12)"
    then show "drop_bit 12 (take_bit 48 a) = drop_bit 12 (take_bit 48 b)" by (intro bit_word_eqI) (auto simp: bits)
  next
    assume "drop_bit 12 (take_bit 48 a) = drop_bit 12 (take_bit 48 b)"
    then have "bit (drop_bit 12 (take_bit 48 a)) m = bit (drop_bit 12 (take_bit 48 b)) m" for m by simp
    then show "\<forall>m < 36. bit a (m + 12) = bit b (m + 12)" unfolding bits by blast
  qed
  finally have "va_path a = va_path b \<longleftrightarrow> drop_bit 12 (take_bit 48 a) = drop_bit 12 (take_bit 48 b)" .
  then show ?thesis by (simp only: word_unat_eq_iff u)
qed

lemma page_number: "va_path a = va_path b \<longleftrightarrow> unat a div 4096 mod 2 ^ 36 = unat b div 4096 mod 2 ^ 36"
proof -
  have "x mod 2 ^ 48 div 2 ^ 12 = x div 4096 mod 2 ^ 36" for x :: nat
    using mod_mult2_eq [of x 4096 "2 ^ 36"] by simp
  then show ?thesis by (simp only: va_path_div)
qed

lemma same_frame: "unat a div 4096 = unat b div 4096 \<Longrightarrow> a AND ADDR_MASK = b AND ADDR_MASK"
proof -
  assume "unat a div 4096 = unat b div 4096"
  then have "unat (drop_bit 12 a) = unat (drop_bit 12 b)" by (simp add: unat_drop_bit_div)
  then have d: "drop_bit 12 a = drop_bit 12 b" by (rule word_unat_eq_iff [THEN iffD2])
  have "bit a n = bit b n" if "12 \<le> n" for n
    using arg_cong [OF d, of "\<lambda>w. bit w (n - 12)"] that by (simp add: bit_drop_bit_eq)
  then show ?thesis by (intro bit_word_eqI) (auto simp: bit_simps bit_ADDR_MASK)
qed

lemma segment_pages_count:
  assumes "unat base + unat len < 2 ^ 64"
  shows "unat (segment_pages base len) = 1 + ((unat base + unat len) div 4096 - unat base div 4096)"
proof -
  let ?pb = "base - base mod 0x1000" and ?pm = "base + len - (base + len) mod 0x1000"
  have bl: "unat (base + len) = unat base + unat len" using assms by (intro unat_add_no_wrap) simp
  have pb: "unat ?pb = 4096 * (unat base div 4096)" by (rule unat_page_base)
  have pm: "unat ?pm = 4096 * ((unat base + unat len) div 4096)" using unat_page_base [of "base + len"] bl by simp
  have le: "unat base div 4096 \<le> (unat base + unat len) div 4096" by (rule div_le_mono) simp
  then have "?pb \<le> ?pm" unfolding word_le_nat_alt pb pm by simp
  then have d: "unat (?pm - ?pb) = 4096 * ((unat base + unat len) div 4096 - unat base div 4096)"
    by (simp only: unat_sub pb pm diff_mult_distrib2)
  then have q: "unat ((?pm - ?pb) div 0x1000) = (unat base + unat len) div 4096 - unat base div 4096"
    by (simp add: unat_div)
  have "(unat base + unat len) div 4096 < 2 ^ 52" using assms by (simp add: less_mult_imp_div_less)
  then have "unat (1 + (?pm - ?pb) div 0x1000) = 1 + unat ((?pm - ?pb) div 0x1000)"
    by (subst unat_add_no_wrap) (simp_all only: q, simp_all)
  then show ?thesis by (simp only: segment_pages_def Let_def q)
qed

lemma unat_page_step: "unat a + 4096 * i < 2 ^ 64 \<Longrightarrow> unat (a + push_bit 12 (of_nat i)) = unat a + 4096 * i" for a :: u64
proof -
  assume b: "unat a + 4096 * i < 2 ^ 64"
  have "unat (of_nat (4096 * i) :: u64) = 4096 * i" using b by (intro unat_of_nat_u64) simp
  moreover have "(push_bit 12 (of_nat i) :: u64) = of_nat (4096 * i)" by (simp add: push_bit_eq_mult)
  ultimately show ?thesis using b by (subst unat_add_no_wrap) simp_all
qed

lemma add_mod_inj:
  fixes c i j n :: nat
  assumes "i < n" "j < n" "(c + j) mod n = (c + i) mod n"
  shows "j = i"
proof -
  have "b = a" if "a \<le> b" "b < n" "(c + b) mod n = (c + a) mod n" for a b
  proof -
    have "n dvd (c + b) - (c + a)" using that by (subst mod_eq_dvd_iff_nat [symmetric]) simp_all
    then show ?thesis using that by (auto dest: dvd_imp_le)
  qed
  then show ?thesis using assms by (metis nle_le)
qed

lemma page_run_at:
  assumes page: "\<And>j. j < n \<Longrightarrow> va_path (base + push_bit 12 (of_nat j)) = va \<longleftrightarrow> j = i" and i: "i < n"
  shows "map_of (page_run phys base n) va = Some ((phys + push_bit 12 (of_nat i)) AND ADDR_MASK)"
proof -
  have "map_of (page_run phys base m) va = (if i < m then Some ((phys + push_bit 12 (of_nat i)) AND ADDR_MASK) else None)" if "m \<le> n" for m
    using that
  proof (induction m)
    case (Suc m)
    then show ?case using page [of m]
      by (auto simp: page_run_def map_add_def less_Suc_eq split: option.splits if_splits)
  qed (simp add: page_run_def)
  from this [of n] show ?thesis using i by simp
qed

lemma segment_page_number:
  assumes wrap: "unat base + unat len + 4096 \<le> 2 ^ 64" and small: "unat len < 2 ^ 47"
  shows "unat (segment_pages base len) = 1 + (unat base mod 4096 + unat len) div 4096" "unat (segment_pages base len) \<le> 2 ^ 36"
proof -
  let ?B = "unat base" and ?o = "unat base mod 4096"
  have B: "?B = 4096 * (?B div 4096) + ?o" by simp
  have "(?B + unat len) div 4096 = ?B div 4096 + (?o + unat len) div 4096"
    by (subst B) (simp only: add.assoc div_mult_self4)
  then show n: "unat (segment_pages base len) = 1 + (?o + unat len) div 4096" using wrap by (subst segment_pages_count) simp_all
  have "?o + unat len < 2 ^ 47 + 4096" using small by (simp add: add_less_mono add.commute)
  then have "(?o + unat len) div 4096 < 2 ^ 35 + 1" by (simp add: less_mult_imp_div_less)
  then show "unat (segment_pages base len) \<le> 2 ^ 36" unfolding n by simp
qed

text \<open>Every byte of a segment lies in one of its pages, whose frame holds the byte of the file.\<close>

lemma segment_run:
  assumes wrap: "unat base + unat len + 4096 \<le> 2 ^ 64" "unat phys + unat len + 4096 \<le> 2 ^ 64" and small: "unat len < 2 ^ 47"
    and off: "unat phys mod 4096 = unat base mod 4096" and k: "k \<le> unat len"
  shows "map_of (page_run phys base (unat (segment_pages base len))) (va_path (base + of_nat k)) = Some ((phys + of_nat k) AND ADDR_MASK)"
proof -
  let ?B = "unat base" and ?o = "unat base mod 4096" and ?n = "unat (segment_pages base len)"
  define i where "i = (?o + k) div 4096"
  have B: "?B = 4096 * (?B div 4096) + ?o" by simp
  have P: "unat phys = 4096 * (unat phys div 4096) + ?o" by (simp only: off [symmetric] mult_div_mod_eq)
  have uk: "unat (of_nat k :: u64) = k" using k wrap by (intro unat_of_nat_u64) simp
  have i4: "4096 * i \<le> ?o + k" "?o + k < 4096 * i + 4096" unfolding i_def by simp_all
  note n = segment_page_number(1) [OF wrap(1) small] and n36 = segment_page_number(2) [OF wrap(1) small]
  have i: "i < ?n" unfolding n i_def using k by (simp add: div_le_mono less_Suc_eq_le)
  have va: "unat (base + push_bit 12 (of_nat j)) = ?B + 4096 * j" if "j < ?n" for j
  proof (rule unat_page_step)
    have "4096 * j \<le> ?o + unat len" using that unfolding n by (simp add: less_Suc_eq_le)
    moreover have "?o < 4096" by simp
    ultimately show "?B + 4096 * j < 2 ^ 64" using wrap(1) by linarith
  qed
  have pb: "(?B + 4096 * j) div 4096 = ?B div 4096 + j" for j by simp
  have vk: "unat (base + of_nat k) = ?B + k"
    using k wrap(1) by (subst unat_add_no_wrap) (simp_all add: uk)
  have pk: "(?B + k) div 4096 = ?B div 4096 + i"
    by (subst B) (simp only: add.assoc div_mult_self4 i_def)
  have page: "va_path (base + push_bit 12 (of_nat j)) = va_path (base + of_nat k) \<longleftrightarrow> j = i" if j: "j < ?n" for j
  proof -
    have "(?B div 4096 + j) mod 2 ^ 36 = (?B div 4096 + i) mod 2 ^ 36 \<longleftrightarrow> j = i"
      using add_mod_inj [of i "2 ^ 36" j "?B div 4096"] j i n36 by auto
    then show ?thesis unfolding page_number va [OF j] vk pb pk .
  qed
  have "unat (phys + push_bit 12 (of_nat i)) = unat phys + 4096 * i"
  proof (rule unat_page_step)
    show "unat phys + 4096 * i < 2 ^ 64" using i4 k wrap(2) mod_less_divisor [of 4096 ?B] by linarith
  qed
  moreover have "unat (phys + of_nat k) = unat phys + k" using k wrap(2) by (subst unat_add_no_wrap) (simp_all add: uk)
  moreover have "(unat phys + k) div 4096 = unat phys div 4096 + i"
    by (subst P) (simp only: add.assoc div_mult_self4 i_def)
  ultimately have frame: "(phys + push_bit 12 (of_nat i)) AND ADDR_MASK = (phys + of_nat k) AND ADDR_MASK"
    by (intro same_frame) simp
  show ?thesis unfolding frame [symmetric] by (rule page_run_at [OF page i])
qed

section \<open>Loading\<close>

text \<open>What the image asks for: the pages of its segment \<open>i\<close>, as the header and the table have it.\<close>

definition image_table :: "(u64 \<Rightarrow> u64) \<Rightarrow> u64 \<Rightarrow> u64" where
  "image_table m hdr = hdr + prog_header_table_offset m hdr"

definition image_pages :: "(u64 \<Rightarrow> u64) \<Rightarrow> u64 \<Rightarrow> u64 \<Rightarrow> u64 \<Rightarrow> u64" where
  "image_pages m hdr kernel_size i = segment_pages (entry_vaddr m (image_table m hdr) i)
     (segment_size m (image_table m hdr) (prog_header_entry_num m hdr) kernel_size i)"

definition image_run :: "(u64 \<Rightarrow> u64) \<Rightarrow> u64 \<Rightarrow> u64 \<Rightarrow> u64 \<Rightarrow> (u64 list \<times> u64) list" where
  "image_run m hdr kernel_size i = page_run (hdr + entry_offset m (image_table m hdr) i)
     (entry_vaddr m (image_table m hdr) i) (unat (image_pages m hdr kernel_size i))"

text \<open>The words the loop reads.\<close>

definition image_words :: "(u64 \<Rightarrow> u64) \<Rightarrow> u64 \<Rightarrow> u64 set" where
  "image_words m hdr = insert (hdr + 56)
     (\<Union>i < unat (prog_header_entry_num m hdr).
        {image_table m hdr + 56 * of_nat i + 8, image_table m hdr + 56 * of_nat i + 16})"

lemma image_fields_same:
  assumes same: "\<forall>a \<in> F. w a = m a" and F: "image_words m hdr \<subseteq> F" and i: "i < unat (prog_header_entry_num m hdr)"
  shows "prog_header_entry_num w hdr = prog_header_entry_num m hdr"
    "entry_offset w (image_table m hdr) (of_nat i) = entry_offset m (image_table m hdr) (of_nat i)"
    "entry_vaddr w (image_table m hdr) (of_nat i) = entry_vaddr m (image_table m hdr) (of_nat i)"
    "segment_size w (image_table m hdr) (prog_header_entry_num m hdr) kernel_size (of_nat i) =
       segment_size m (image_table m hdr) (prog_header_entry_num m hdr) kernel_size (of_nat i)"
proof -
  let ?t = "image_table m hdr" and ?num = "prog_header_entry_num m hdr"
  have e: "entry_offset w ?t (of_nat i) = entry_offset m ?t (of_nat i)" "entry_vaddr w ?t (of_nat i) = entry_vaddr m ?t (of_nat i)"
    if "i < unat ?num" for i
    using same F that by (auto simp: entry_offset_def entry_vaddr_def image_words_def)
  show "prog_header_entry_num w hdr = ?num"
    using same F by (auto simp: prog_header_entry_num_def field_def image_words_def)
  show "entry_offset w ?t (of_nat i) = entry_offset m ?t (of_nat i)" "entry_vaddr w ?t (of_nat i) = entry_vaddr m ?t (of_nat i)"
    using e [OF i] .
  show "segment_size w ?t ?num kernel_size (of_nat i) = segment_size m ?t ?num kernel_size (of_nat i)"
  proof (cases "of_nat i = ?num - 1")
    case True
    then show ?thesis using e [OF i] by (simp add: segment_size_def)
  next
    case False
    have "Suc i \<noteq> unat ?num"
    proof
      assume "Suc i = unat ?num"
      then have "of_nat (Suc i) = (of_nat (unat ?num) :: u64)" by (rule arg_cong)
      then have "of_nat (Suc i) = ?num" by simp
      then show False using False by (metis add_diff_cancel_left' of_nat_Suc)
    qed
    then have "Suc i < unat ?num" using i by simp
    from e(1) [OF this] e(1) [OF i] False show ?thesis by (simp add: segment_size_def add.commute)
  qed
qed

lemma load_segment_eq:
  assumes same: "\<forall>a \<in> F. words (uefi ld) a = m a" and F: "image_words m hdr \<subseteq> F"
    and i: "i < unat (prog_header_entry_num m hdr)"
  shows "load_segment hdr (image_table m hdr) kernel_size (of_nat i) ld =
    ld\<lparr>uefi := map_pages (hdr + entry_offset m (image_table m hdr) (of_nat i)) (entry_vaddr m (image_table m hdr) (of_nat i))
         (image_pages m hdr kernel_size (of_nat i)) (uefi ld),
       kernel_start := (if kernel_start ld = 0 then entry_vaddr m (image_table m hdr) (of_nat i) else kernel_start ld),
       kernel_pages := (if kernel_pages ld = 0 then image_pages m hdr kernel_size (of_nat i) else kernel_pages ld),
       highest_page_mapped := max (highest_page_mapped ld) (entry_vaddr m (image_table m hdr) (of_nat i) +
         push_bit 12 (image_pages m hdr kernel_size (of_nat i)))\<rparr>"
  by (simp add: load_segment_def Let_def image_fields_same [OF same F i] image_pages_def max_def not_le)

lemma load_loop_ok:
  assumes "\<And>i. \<not> efi_error (left i)" and F: "image_words m hdr \<subseteq> F"
  shows "\<forall>i \<in> set is. i < unat (prog_header_entry_num m hdr) \<Longrightarrow> \<forall>a \<in> F. words (uefi ld) a = m a \<Longrightarrow>
    tables_ready F (n + 3 * sum_list (map (\<lambda>i. unat (image_pages m hdr kernel_size (of_nat i))) is)) (uefi ld) \<Longrightarrow>
    \<exists>k ld'. load_loop efi_error left hdr (image_table m hdr) kernel_size is ld = (None, ld') \<and>
      k \<le> 3 * sum_list (map (\<lambda>i. unat (image_pages m hdr kernel_size (of_nat i))) is) \<and>
      took F k (uefi ld) (uefi ld') \<and> tables_ready F n (uefi ld') \<and>
      (\<forall>js. length js = 4 \<longrightarrow> valid_path js \<longrightarrow> boot_lookup (uefi ld') js =
         (map_of (concat (map (\<lambda>i. image_run m hdr kernel_size (of_nat i)) is)) ++ boot_lookup (uefi ld)) js) \<and>
      (kernel_start ld \<noteq> 0 \<longrightarrow> kernel_start ld' = kernel_start ld) \<and>
      (kernel_pages ld \<noteq> 0 \<longrightarrow> kernel_pages ld' = kernel_pages ld)"
proof (induction "is" arbitrary: ld)
  case Nil
  then show ?case by (auto intro!: exI [of _ 0])
next
  case (Cons i "is")
  let ?p = "\<lambda>i. unat (image_pages m hdr kernel_size (of_nat i))"
  let ?ld = "load_segment hdr (image_table m hdr) kernel_size (of_nat i) ld"
  have i: "i < unat (prog_header_entry_num m hdr)" and "is": "\<forall>i \<in> set is. i < unat (prog_header_entry_num m hdr)"
    using Cons.prems(1) by simp_all
  note seg = load_segment_eq [OF Cons.prems(2) F i, of kernel_size]
  let ?st = "map_pages (hdr + entry_offset m (image_table m hdr) (of_nat i)) (entry_vaddr m (image_table m hdr) (of_nat i))
         (image_pages m hdr kernel_size (of_nat i)) (uefi ld)"
  have "tables_ready F (n + 3 * sum_list (map ?p is) + 3 * ?p i) (uefi ld)"
    using Cons.prems(3) by (simp add: ac_simps distrib_left)
  from map_pages_upto [OF this] obtain k1 where k1: "k1 \<le> 3 * ?p i" "took F k1 (uefi ld) ?st"
    "tables_ready F (n + 3 * sum_list (map ?p is)) ?st"
    "\<And>js. length js = 4 \<Longrightarrow> valid_path js \<Longrightarrow> boot_lookup ?st js =
       (map_of (image_run m hdr kernel_size (of_nat i)) ++ boot_lookup (uefi ld)) js"
    unfolding map_pages_def image_run_def by blast
  have u: "uefi ?ld = ?st" by (simp add: seg)
  have "\<forall>a \<in> F. words (uefi ?ld) a = m a" using k1(2) Cons.prems(2) by (simp add: u took_def)
  from Cons.IH [OF "is" this] k1(3) obtain k2 ld' where k2:
    "load_loop efi_error left hdr (image_table m hdr) kernel_size is ?ld = (None, ld')"
    "k2 \<le> 3 * sum_list (map ?p is)" "took F k2 ?st (uefi ld')" "tables_ready F n (uefi ld')"
    "\<And>js. length js = 4 \<Longrightarrow> valid_path js \<Longrightarrow> boot_lookup (uefi ld') js =
       (map_of (concat (map (\<lambda>i. image_run m hdr kernel_size (of_nat i)) is)) ++ boot_lookup ?st) js"
    "kernel_start ?ld \<noteq> 0 \<longrightarrow> kernel_start ld' = kernel_start ?ld" "kernel_pages ?ld \<noteq> 0 \<longrightarrow> kernel_pages ld' = kernel_pages ?ld"
    unfolding u by blast
  have "boot_lookup (uefi ld') js = (map_of (concat (map (\<lambda>i. image_run m hdr kernel_size (of_nat i)) (i # is))) ++ boot_lookup (uefi ld)) js"
    if "length js = 4" "valid_path js" for js
    using k2(5) [OF that] k1(4) [OF that] by (simp add: map_of_append map_add_def split: option.splits)
  moreover have "load_loop efi_error left hdr (image_table m hdr) kernel_size (i # is) ld = (None, ld')"
    using assms(1) k2(1) by simp
  moreover have "kernel_start ld \<noteq> 0 \<longrightarrow> kernel_start ld' = kernel_start ld" "kernel_pages ld \<noteq> 0 \<longrightarrow> kernel_pages ld' = kernel_pages ld"
    using k2(6,7) by (simp_all add: seg)
  moreover have "k1 + k2 \<le> 3 * sum_list (map ?p (i # is))" using k1(1) k2(2) by simp
  ultimately show ?case using took_trans [OF k1(2) k2(3)] k2(4) by blast
qed

text \<open>The pages the bootloader counts for a segment cover it: every byte of the segment lies in one
  of the pages \<open>map_pages\<close> is asked for, and the frame of that page is the one of the same byte of
  the file. This needs the file and the memory position to agree modulo the page size, as the
  alignment of an ELF segment demands.\<close>

theorem segment_pages_cover:
  assumes "unat base + unat len + 4096 \<le> 2 ^ 64" "unat phys + unat len + 4096 \<le> 2 ^ 64" "unat len < 2 ^ 47"
    and "unat phys mod 4096 = unat base mod 4096" "k \<le> unat len"
  shows "map_of (page_run phys base (unat (segment_pages base len))) (va_path (base + of_nat k)) = Some ((phys + of_nat k) AND ADDR_MASK)"
  by (rule segment_run [OF assms])

theorem segment_pages_cover_witness:
  "map_of (page_run 0x11000 0x200000 (unat (segment_pages 0x200000 0x1800))) (va_path 0x201700) = Some 0x12000"
proof -
  have "(0x11000 + of_nat 0x1700 :: u64) AND ADDR_MASK = 0x12000" by (simp add: ADDR_MASK_def)
  then show ?thesis using segment_pages_cover [of "0x200000" "0x1800" "0x11000" "0x1700"] by simp
qed

text \<open>C11: with an image whose header and table are outside the page tables, enough pages in the region
  and no status taken for an error, the loop maps all segments: a page of the address space is
  mapped as before, or else as the first segment that has it asks for, and otherwise not at all.
  The kernel is told the address and the page count of the first segment only.\<close>

theorem load_kernel_ok:
  assumes st: "\<And>i. \<not> efi_error (left i)" and F: "image_words (words st) hdr \<subseteq> F"
    and ready: "tables_ready F (n + 3 * sum_list (map (\<lambda>i. unat (image_pages (words st) hdr kernel_size (of_nat i)))
      [0..<unat (prog_header_entry_num (words st) hdr)])) st"
  shows "\<exists>k ld. load_kernel efi_error left hdr kernel_size st = (None, ld) \<and> took F k st (uefi ld) \<and> tables_ready F n (uefi ld) \<and>
    (\<forall>js. length js = 4 \<longrightarrow> valid_path js \<longrightarrow> boot_lookup (uefi ld) js =
      (map_of (concat (map (\<lambda>i. image_run (words st) hdr kernel_size (of_nat i)) [0..<unat (prog_header_entry_num (words st) hdr)]))
       ++ boot_lookup st) js) \<and>
    (prog_header_entry_num (words st) hdr \<noteq> 0 \<longrightarrow> entry_vaddr (words st) (image_table (words st) hdr) 0 \<noteq> 0 \<longrightarrow>
       kernel_start ld = entry_vaddr (words st) (image_table (words st) hdr) 0) \<and>
    (prog_header_entry_num (words st) hdr \<noteq> 0 \<longrightarrow> image_pages (words st) hdr kernel_size 0 \<noteq> 0 \<longrightarrow>
       kernel_pages ld = image_pages (words st) hdr kernel_size 0)"
proof -
  let ?m = "words st" and ?num = "unat (prog_header_entry_num (words st) hdr)"
  let ?ld = "\<lparr>uefi = st, kernel_start = 0, kernel_pages = 0, highest_page_mapped = 0\<rparr>"
  have load: "load_kernel efi_error left hdr kernel_size st =
      load_loop efi_error left hdr (image_table ?m hdr) kernel_size [0..<?num] ?ld"
    by (simp add: load_kernel_def image_table_def)
  show ?thesis
  proof (cases "?num = 0")
    case True
    then have "prog_header_entry_num ?m hdr = 0" by (simp add: unat_eq_0)
    then show ?thesis using ready True load by (auto intro!: exI [of _ 0])
  next
    case False
    then have num: "0 < ?num" "[0..<?num] = 0 # [Suc 0..<?num]" by (simp_all add: upt_conv_Cons)
    have r: "tables_ready F (n + 3 * sum_list (map (\<lambda>i. unat (image_pages ?m hdr kernel_size (of_nat i))) [0..<?num])) (uefi ?ld)"
      using ready by simp
    have all: "\<forall>i \<in> set [0..<?num]. i < ?num" and w: "\<forall>a \<in> F. words (uefi ?ld) a = ?m a" by simp_all
    obtain k ld where ld: "load_loop efi_error left hdr (image_table ?m hdr) kernel_size [0..<?num] ?ld = (None, ld)"
      "took F k st (uefi ld)" "tables_ready F n (uefi ld)"
      "\<forall>js. length js = 4 \<longrightarrow> valid_path js \<longrightarrow> boot_lookup (uefi ld) js =
        (map_of (concat (map (\<lambda>i. image_run ?m hdr kernel_size (of_nat i)) [0..<?num])) ++ boot_lookup st) js"
      using load_loop_ok [where efi_error = efi_error and left = left, OF st F all w r] by auto
    note first = load_segment_eq [OF w F num(1), of kernel_size]
    let ?l1 = "load_segment hdr (image_table ?m hdr) kernel_size (of_nat 0) ?ld"
    have rest: "load_loop efi_error left hdr (image_table ?m hdr) kernel_size [Suc 0..<?num] ?l1 = (None, ld)"
      using ld(1) st unfolding num(2) by simp
    have keep: "(kernel_start l \<noteq> 0 \<longrightarrow> kernel_start l' = kernel_start l) \<and> (kernel_pages l \<noteq> 0 \<longrightarrow> kernel_pages l' = kernel_pages l)"
      if "load_loop efi_error left hdr t kernel_size is l = (None, l')" for t "is" l l'
      using that st
    proof (induction "is" arbitrary: l)
      case (Cons i "is")
      then show ?case by (fastforce simp: load_segment_def Let_def split: if_splits)
    qed simp
    from keep [OF rest] have "entry_vaddr ?m (image_table ?m hdr) 0 \<noteq> 0 \<longrightarrow> kernel_start ld = entry_vaddr ?m (image_table ?m hdr) 0"
      "image_pages ?m hdr kernel_size 0 \<noteq> 0 \<longrightarrow> kernel_pages ld = image_pages ?m hdr kernel_size 0"
      using first by simp_all
    then show ?thesis unfolding load using ld by blast
  qed
qed

text \<open>An image at \<open>0x10000\<close> with one segment: 0x1800 bytes from offset \<open>0x1000\<close>, for \<open>0x200000\<close>.\<close>

definition small_image :: "u64 \<Rightarrow> u64" where
  "small_image = (\<lambda>_. 0)(0x10000 := 0x00010102464c457f, 0x10010 := 0x003E0002, 0x10020 := 0x40, 0x10038 := 0x1,
     0x10048 := 0x1000, 0x10050 := 0x200000)"

lemma small_image_fields:
  "prog_header_entry_num small_image 0x10000 = 1" "image_table small_image 0x10000 = 0x10040"
  "entry_offset small_image 0x10040 0 = 0x1000" "entry_vaddr small_image 0x10040 0 = 0x200000"
  "check_kernel small_image 0x10000 = EFI_SUCCESS"
proof -
  show "prog_header_entry_num small_image 0x10000 = 1" by code_simp
  show "image_table small_image 0x10000 = 0x10040" by code_simp
  show "entry_offset small_image 0x10040 0 = 0x1000" by code_simp
  show "entry_vaddr small_image 0x10040 0 = 0x200000" by code_simp
  show "check_kernel small_image 0x10000 = EFI_SUCCESS" by code_simp
qed

theorem load_kernel_ok_witness:
  "\<exists>ld. load_kernel (\<lambda>s. bit s 63) (\<lambda>_. 0) 0x10000 0x2800 (with_image small_image) = (None, ld) \<and>
    kernel_start ld = 0x200000 \<and> kernel_pages ld = 2 \<and> boot_lookup (uefi ld) (va_path 0x201000) = Some 0x12000"
proof -
  let ?st = "with_image small_image"
  note f = small_image_fields
  have w: "words ?st = small_image" by (simp add: with_image_def)
  have pages: "image_pages small_image 0x10000 0x2800 0 = 2"
    by (simp add: image_pages_def f segment_size_def segment_pages_def Let_def)
  have F: "image_words small_image 0x10000 = {0x10038, 0x10048, 0x10050}"
    by (simp add: image_words_def f lessThan_Suc)
  have below: "a < 0x40000" if "a \<in> image_words small_image 0x10000" for a using that unfolding F by auto
  have zero: "small_image a = 0" if "0x40000 \<le> a" for a using that by (auto simp: small_image_def word_le_nat_alt)
  have "tables_ready (image_words small_image 0x10000) (0 + 3 * sum_list (map (\<lambda>i. unat (image_pages small_image 0x10000 0x2800 (of_nat i)))
      [0..<unat (prog_header_entry_num small_image 0x10000)])) ?st"
    by (rule image_ready [OF _ below zero]) (simp_all add: f pages)
  from load_kernel_ok [where efi_error = "\<lambda>s. bit s 63" and left = "\<lambda>_. 0" and st = "?st", unfolded w, OF _ subset_refl this]
  obtain ld where ld: "load_kernel (\<lambda>s. bit s 63) (\<lambda>_. 0) 0x10000 0x2800 ?st = (None, ld)"
    "kernel_start ld = 0x200000" "kernel_pages ld = 2"
    "\<And>js. length js = 4 \<Longrightarrow> valid_path js \<Longrightarrow> boot_lookup (uefi ld) js = (map_of (image_run small_image 0x10000 0x2800 0) ++ boot_lookup ?st) js"
    by (auto simp: f pages)
  have "map_of (image_run small_image 0x10000 0x2800 0) (va_path 0x201000) = Some 0x12000"
  proof -
    have "image_run small_image 0x10000 0x2800 0 = page_run 0x11000 0x200000 (unat (segment_pages 0x200000 0x1800))"
      by (simp add: image_run_def f pages segment_pages_def Let_def)
    then show ?thesis
      using segment_run [of "0x200000" "0x1800" "0x11000" "0x1000"] by (simp add: ADDR_MASK_def)
  qed
  moreover have "VA_GET_PML4_INDEX 0x201000 = 0" by (simp add: va_index_take_bit drop_bit_eq_div)
  then have "boot_lookup ?st (va_path 0x201000) = None"
    by (simp add: boot_lookup_def with_image_def fresh_mem_def va_path_def zero)
  ultimately show ?thesis using ld va_index_bounds [of "0x201000"] by (auto simp: va_path_def map_add_def)
qed
end
