(* ===== verification/Boot_Init.thy ===== *)
theory Boot_Init
  imports Boot_Map
begin

text \<open>
  The bootloader's own page tables: \<open>init_virtual_mapping\<close> of
  \<open>bootloader/arch/x86_64/uefi_mem.c\<close> finds the tables of the firmware in the memory map, copies
  them to a free region, makes the copy refer to itself, and gives the kernel a window on physical
  memory.

  The memory map is the list of its descriptors. \<open>None\<close> stands for a read outside that list. The
  register cr3 (\<open>reg\<close>) is an argument and a result; \<open>wide\<close> is the value of \<open>510 << 39\<close>, a shift of an
  \<open>int\<close>. Both regions begin at a page, so the byte copy is a copy of words.
\<close>

section \<open>Where the tables are and where they go\<close>

record memory_descriptor =
  desc_type :: u32
  PhysicalStart :: u64
  NumberOfPages :: u64
  Attribute :: u64

datatype mapping_type = MAPPING_TYPE_NONE | MAPPING_TYPE_MAP_ALL | MAPPING_TYPE_RECURSIVE

text \<open>The first loop: the descriptor before the first one that starts above cr3. The outer \<open>None\<close> is
  the read of the descriptor before the list.\<close>

definition source_descriptor :: "u64 \<Rightarrow> memory_descriptor list \<Rightarrow> (efi_status + memory_descriptor) option" where
  "source_descriptor reg descs =
     (case find (\<lambda>i. reg < PhysicalStart (descs ! i)) [0..<length descs] of
        None \<Rightarrow> if descs = [] then None else Some (Inl EFI_NOT_FOUND)
      | Some i \<Rightarrow> if i = 0 then None else Some (Inr (descs ! (i - 1))))"

text \<open>The second loop: the first free region that is large enough. Its type is changed.\<close>

definition dest_fits :: "u64 \<Rightarrow> memory_descriptor \<Rightarrow> bool" where
  "dest_fits pml4_page_count d \<longleftrightarrow>
     pml4_page_count \<le> NumberOfPages d \<and> desc_type d = 0x7 \<and> Attribute d AND 0x8000000000000000 = 0"

definition dest_index :: "u64 \<Rightarrow> memory_descriptor list \<Rightarrow> nat option" where
  "dest_index pml4_page_count descs = find (\<lambda>i. dest_fits pml4_page_count (descs ! i)) [0..<length descs]"

section \<open>Moving the tables\<close>

definition copy_tables :: "u64 \<Rightarrow> u64 \<Rightarrow> u64 \<Rightarrow> uefi_mem \<Rightarrow> uefi_mem" where
  "copy_tables new_map old_map map_size st =
     fold (\<lambda>i st. store (new_map + 8 * of_nat i) (words st (old_map + 8 * of_nat i)) st) [0..<unat map_size div 8] st"

definition old_addr_to_new_map :: "u64 \<Rightarrow> u64 \<Rightarrow> u64 \<Rightarrow> u64" where
  "old_addr_to_new_map new_map old_map x = new_map + (x - old_map)"

text \<open>An entry made to point into the copy.\<close>

definition move_entry :: "u64 \<Rightarrow> u64 \<Rightarrow> u64 \<Rightarrow> uefi_mem \<Rightarrow> uefi_mem" where
  "move_entry new_map old_map e st =
     (let temp_addr = old_addr_to_new_map new_map old_map (words st e AND ADDR_MASK);
          st = store e (words st e AND NOT ADDR_MASK) st
      in store e (words st e OR temp_addr) st)"

definition raise_to :: "u64 \<Rightarrow> u64 \<Rightarrow> u64" where
  "raise_to a highest_addr = (if highest_addr < a then a else highest_addr)"

text \<open>The three loops, each over the entries of one table.\<close>

fun scan_pd :: "u64 \<Rightarrow> nat list \<Rightarrow> uefi_mem \<Rightarrow> u64 \<Rightarrow> u64" where
  "scan_pd pd [] st highest = highest"
| "scan_pd pd (k # ks) st highest =
     scan_pd pd ks st (if words st (pd + 8 * of_nat k) AND PRESENT_FLAG \<noteq> 0
                       then raise_to (pd + 8 * of_nat k) highest else highest)"

fun move_pdp :: "u64 \<Rightarrow> u64 \<Rightarrow> u64 \<Rightarrow> nat list \<Rightarrow> uefi_mem \<times> u64 \<Rightarrow> uefi_mem \<times> u64" where
  "move_pdp new_map old_map pdp [] (st, highest) = (st, highest)"
| "move_pdp new_map old_map pdp (j # js) (st, highest) =
     move_pdp new_map old_map pdp js
      (let e = pdp + 8 * of_nat j
       in if words st e AND PRESENT_FLAG = 0 then (st, highest)
          else let highest = raise_to e highest
               in if words st e AND PAGE_SIZE_FLAG = 0
                  then let st = move_entry new_map old_map e st
                       in (st, scan_pd (words st e AND ADDR_MASK) [0..<512] st highest)
                  else (say (''PDP entry with PS bit set!'' @ [CHR 0x0A, CHR 0x0D]) st, highest))"

fun move_pml4 :: "u64 \<Rightarrow> u64 \<Rightarrow> u64 \<Rightarrow> nat list \<Rightarrow> uefi_mem \<times> u64 \<Rightarrow> uefi_mem \<times> u64" where
  "move_pml4 new_map old_map table [] (st, highest) = (st, highest)"
| "move_pml4 new_map old_map table (i # is) (st, highest) =
     move_pml4 new_map old_map table is
      (let e = table + 8 * of_nat i
       in if words st e AND PRESENT_FLAG = 0 then (st, highest)
          else let highest = raise_to e highest;
                   st = move_entry new_map old_map e st
               in move_pdp new_map old_map (words st e AND ADDR_MASK) [0..<512] (st, highest))"

section \<open>The kernel's window\<close>

definition pml4_entry_count :: "uefi_mem \<Rightarrow> nat" where
  "pml4_entry_count st = length (filter (\<lambda>i. words st (pml4 st + 8 * of_nat i) AND PRESENT_FLAG \<noteq> 0) [0..<512])"

definition copy_window :: "u64 \<Rightarrow> u64 \<Rightarrow> nat \<Rightarrow> uefi_mem \<Rightarrow> uefi_mem" where
  "copy_window table start_index count st =
     fold (\<lambda>i st. let e = table + 8 * (of_nat i + start_index);
                      st = store e (words st (table + 8 * of_nat i) AND ADDR_MASK) st
                  in store e (words st e OR (PRESENT_FLAG OR WRITABLE_FLAG)) st) [0..<count] st"

definition set_up_mapping :: "u64 \<Rightarrow> mapping_type \<Rightarrow> u64 \<Rightarrow> uefi_mem \<Rightarrow> u64 \<times> uefi_mem" where
  "set_up_mapping wide mapping_type table st =
     (case mapping_type of
        MAPPING_TYPE_RECURSIVE \<Rightarrow>
          (wide, store (table + 8 * 510) (PRESENT_FLAG OR WRITABLE_FLAG OR table) st)
      | MAPPING_TYPE_MAP_ALL \<Rightarrow>
          (let count = pml4_entry_count st;
               start_index = 511 - of_nat count
           in (OFFSETS_TO_ADDR start_index 0 0 0, copy_window table start_index count st))
      | MAPPING_TYPE_NONE \<Rightarrow> (0, st))"

section \<open>init_virtual_mapping\<close>

text \<open>The entry that maps the old tables is made writable; it is found through the new ones.\<close>

definition make_writable :: "u64 \<Rightarrow> u64 \<Rightarrow> uefi_mem \<Rightarrow> uefi_mem" where
  "make_writable reg old_pml4 st =
     (let pml4_pml4 = words st (reg + 8 * VA_GET_PML4_INDEX old_pml4);
          pml4_pdp = words st ((pml4_pml4 AND ADDR_MASK) + 8 * VA_GET_PDP_INDEX old_pml4);
          pml4_pd = (pml4_pdp AND ADDR_MASK) + 8 * VA_GET_PD_INDEX old_pml4
      in store pml4_pd (words st pml4_pd OR WRITABLE_FLAG) st)"

definition move_tables :: "u64 \<Rightarrow> u64 \<Rightarrow> u64 \<Rightarrow> u64 \<Rightarrow> uefi_mem \<Rightarrow> u64 \<times> uefi_mem" where
  "move_tables reg new_map old_map pml4_page_count st =
     (let map_size = push_bit 12 pml4_page_count;
          st = copy_tables new_map old_map map_size (st\<lparr>mapping_base_address := new_map\<rparr>);
          table = new_map + reg - old_map;
          (st, highest_addr) = move_pml4 new_map old_map table [0..<512] (st, 0);
          next_page = 0x1000 + highest_addr - highest_addr mod 0x1000;
          pml4_addr = reg AND ADDR_MASK;
          st = st\<lparr>next_available_mapping_page := next_page,
                  available_mapping_page_count := drop_bit 12 (new_map + map_size - next_page),
                  pml4 := new_map + pml4_addr - old_map\<rparr>
      in ((reg AND NOT ADDR_MASK) OR ((new_map + pml4_addr - old_map) AND ADDR_MASK), st))"

definition init_virtual_mapping ::
    "u64 \<Rightarrow> u64 \<Rightarrow> mapping_type \<Rightarrow> memory_descriptor list \<Rightarrow> u64 \<Rightarrow> uefi_mem \<Rightarrow>
     (efi_status \<times> memory_descriptor list \<times> u64 \<times> u64 \<times> uefi_mem) option" where
  "init_virtual_mapping wide reg mapping_type descs mapping_base st =
     (case source_descriptor reg descs of
        None \<Rightarrow> None
      | Some (Inl status) \<Rightarrow> Some (status, descs, mapping_base, reg, st)
      | Some (Inr src) \<Rightarrow>
          (case dest_index (NumberOfPages src) descs of
             None \<Rightarrow> Some (EFI_BUFFER_TOO_SMALL, descs, mapping_base, reg, st)
           | Some i \<Rightarrow>
               let new_map = PhysicalStart (descs ! i);
                   old_map = PhysicalStart src;
                   (new_cr3, st) = move_tables reg new_map old_map (NumberOfPages src) st;
                   st = make_writable new_cr3 reg st;
                   (base, st) = set_up_mapping wide mapping_type (new_map + reg - old_map) st
               in Some (EFI_SUCCESS, descs[i := (descs ! i)\<lparr>desc_type := 0x10\<rparr>], base, new_cr3, st)))"

section \<open>Refusals\<close>

lemma find_uptD: "find P [0..<n] = Some i \<Longrightarrow> i < n \<and> P i \<and> (\<forall>k < i. \<not> P k)"
  by (auto simp: find_Some_iff)

lemma find_upt_ex: "(\<exists>i < n. P i) \<Longrightarrow> \<exists>i. find P [0..<n] = Some i"
  by (cases "find P [0..<n]") (auto simp: find_None_iff)

text \<open>C29: \<open>init_virtual_mapping\<close> looks for the region of the tables in front of the first region that
  starts above cr3; when no region starts above it, which is so when the tables are in the last
  region, it gives \<open>EFI_NOT_FOUND\<close>, and when the first region starts above it, it reads a
  descriptor before the memory map (\<open>None\<close>). When no free region is as large it gives
  \<open>EFI_BUFFER_TOO_SMALL\<close>. On both errors nothing has changed. Otherwise it succeeds, and exactly the
  first region that fits has its type changed.\<close>

theorem init_mapping_status:
  assumes "descs \<noteq> []"
  shows "if \<forall>d \<in> set descs. PhysicalStart d \<le> reg
    then init_virtual_mapping wide reg mt descs base st = Some (EFI_NOT_FOUND, descs, base, reg, st)
    else \<exists>i < length descs. reg < PhysicalStart (descs ! i) \<and> (\<forall>k < i. PhysicalStart (descs ! k) \<le> reg) \<and>
      (if i = 0 then init_virtual_mapping wide reg mt descs base st = None
       else if \<exists>d \<in> set descs. dest_fits (NumberOfPages (descs ! (i - 1))) d
       then \<exists>j base' reg' st'. init_virtual_mapping wide reg mt descs base st =
           Some (EFI_SUCCESS, descs[j := (descs ! j)\<lparr>desc_type := 0x10\<rparr>], base', reg', st') \<and> j < length descs \<and>
           dest_fits (NumberOfPages (descs ! (i - 1))) (descs ! j) \<and>
           (\<forall>k < j. \<not> dest_fits (NumberOfPages (descs ! (i - 1))) (descs ! k))
       else init_virtual_mapping wide reg mt descs base st = Some (EFI_BUFFER_TOO_SMALL, descs, base, reg, st))"
proof (cases "\<forall>d \<in> set descs. PhysicalStart d \<le> reg")
  case True
  then have "find (\<lambda>i. reg < PhysicalStart (descs ! i)) [0..<length descs] = None"
    by (simp add: find_None_iff not_less) (meson not_le nth_mem)
  then have "source_descriptor reg descs = Some (Inl EFI_NOT_FOUND)" using assms by (simp add: source_descriptor_def)
  then show ?thesis using True by (simp add: init_virtual_mapping_def)
next
  case False
  then have "\<exists>i < length descs. reg < PhysicalStart (descs ! i)" by (auto simp: in_set_conv_nth not_le)
  then obtain i where find: "find (\<lambda>i. reg < PhysicalStart (descs ! i)) [0..<length descs] = Some i"
    using find_upt_ex [of "length descs" "\<lambda>i. reg < PhysicalStart (descs ! i)"] by blast
  then have i: "i < length descs" "reg < PhysicalStart (descs ! i)" "\<forall>k < i. PhysicalStart (descs ! k) \<le> reg"
    using find_uptD [OF find] by (auto simp: not_less)
  let ?n = "NumberOfPages (descs ! (i - 1))"
  have "if i = 0 then init_virtual_mapping wide reg mt descs base st = None
       else if \<exists>d \<in> set descs. dest_fits ?n d
       then \<exists>j base' reg' st'. init_virtual_mapping wide reg mt descs base st =
           Some (EFI_SUCCESS, descs[j := (descs ! j)\<lparr>desc_type := 0x10\<rparr>], base', reg', st') \<and> j < length descs \<and>
           dest_fits ?n (descs ! j) \<and> (\<forall>k < j. \<not> dest_fits ?n (descs ! k))
       else init_virtual_mapping wide reg mt descs base st = Some (EFI_BUFFER_TOO_SMALL, descs, base, reg, st)"
  proof (cases "i = 0")
    case True
    then show ?thesis using find by (simp add: init_virtual_mapping_def source_descriptor_def)
  next
    case i0: False
    then have src: "source_descriptor reg descs = Some (Inr (descs ! (i - 1)))" using find by (simp add: source_descriptor_def)
    show ?thesis
    proof (cases "\<exists>d \<in> set descs. dest_fits ?n d")
      case True
      then have "\<exists>l < length descs. dest_fits ?n (descs ! l)" by (auto simp: in_set_conv_nth)
      then obtain j where j: "dest_index ?n descs = Some j" 
        unfolding dest_index_def using find_upt_ex [of "length descs" "\<lambda>i. dest_fits ?n (descs ! i)"] by blast
      then have "j < length descs" "dest_fits ?n (descs ! j)" "\<forall>k < j. \<not> dest_fits ?n (descs ! k)"
        using find_uptD [OF j [unfolded dest_index_def]] by blast+
      moreover have "\<exists>base' reg' st'. init_virtual_mapping wide reg mt descs base st =
          Some (EFI_SUCCESS, descs[j := (descs ! j)\<lparr>desc_type := 0x10\<rparr>], base', reg', st')"
        using src j by (simp add: init_virtual_mapping_def Let_def split: prod.split)
      ultimately show ?thesis using True i0 by auto
    next
      case False
      then have "dest_index ?n descs = None" by (auto simp: dest_index_def find_None_iff)
      then show ?thesis using False src i0 by (simp add: init_virtual_mapping_def)
    qed
  qed
  then show ?thesis unfolding if_not_P [OF False] using i by blast
qed

text \<open>Two regions, the tables in the first, the second free and too small.\<close>

definition two_regions :: "memory_descriptor list" where
  "two_regions = [\<lparr>desc_type = 4, PhysicalStart = 0, NumberOfPages = 4, Attribute = 0\<rparr>,
     \<lparr>desc_type = 7, PhysicalStart = 0x4000, NumberOfPages = 2, Attribute = 0\<rparr>]"

theorem init_mapping_status_witness:
  "init_virtual_mapping 0 0x1000 MAPPING_TYPE_NONE two_regions 0 fresh_mem = Some (EFI_BUFFER_TOO_SMALL, two_regions, 0, 0x1000, fresh_mem)"
proof -
  have r: "two_regions \<noteq> []" "\<not> (\<forall>d \<in> set two_regions. PhysicalStart d \<le> 0x1000)" "length two_regions = 2"
    by (simp_all add: two_regions_def)
  have fit: "\<not> (\<exists>d \<in> set two_regions. dest_fits 4 d)" by (simp add: two_regions_def dest_fits_def)
  from init_mapping_status [OF r(1), of "0x1000" 0 MAPPING_TYPE_NONE 0 fresh_mem] r obtain i where
    i: "i < 2" "0x1000 < PhysicalStart (two_regions ! i)" and res:
    "if i = 0 then init_virtual_mapping 0 0x1000 MAPPING_TYPE_NONE two_regions 0 fresh_mem = None
       else if \<exists>d \<in> set two_regions. dest_fits (NumberOfPages (two_regions ! (i - 1))) d
       then \<exists>j base' reg' st'. init_virtual_mapping 0 0x1000 MAPPING_TYPE_NONE two_regions 0 fresh_mem =
           Some (EFI_SUCCESS, two_regions[j := (two_regions ! j)\<lparr>desc_type := 0x10\<rparr>], base', reg', st') \<and> j < length two_regions \<and>
           dest_fits (NumberOfPages (two_regions ! (i - 1))) (two_regions ! j) \<and>
           (\<forall>k < j. \<not> dest_fits (NumberOfPages (two_regions ! (i - 1))) (two_regions ! k))
       else init_virtual_mapping 0 0x1000 MAPPING_TYPE_NONE two_regions 0 fresh_mem = Some (EFI_BUFFER_TOO_SMALL, two_regions, 0, 0x1000, fresh_mem)"
    by auto
  have "i \<noteq> 0" using i(2) by (cases i) (simp_all add: two_regions_def)
  then have i1: "i = 1" using i(1) by simp
  have "NumberOfPages (two_regions ! 0) = 4" by (simp add: two_regions_def)
  then show ?thesis using res fit by (simp add: i1)
qed
end
