(* ===== verification/Boot_Init_Props.thy ===== *)
theory Boot_Init_Props
  imports Boot_Init
begin

text \<open>
  What the bootloader's new page tables mean: the moved tables translate every address as those of
  the firmware did, the next free page is above every table in use, and the window shows the first
  part of the address space.
\<close>

section \<open>Moving entries\<close>

definition moved :: "u64 \<Rightarrow> u64 \<Rightarrow> u64 \<Rightarrow> u64" where
  "moved new_map old_map v = (v AND NOT ADDR_MASK) OR old_addr_to_new_map new_map old_map (v AND ADDR_MASK)"

text \<open>The entries at the addresses \<open>S\<close> moved.\<close>

definition move_all :: "u64 \<Rightarrow> u64 \<Rightarrow> u64 set \<Rightarrow> (u64 \<Rightarrow> u64) \<Rightarrow> u64 \<Rightarrow> u64" where
  "move_all new_map old_map S m a = (if a \<in> S then moved new_map old_map (m a) else m a)"

definition rest_same :: "uefi_mem \<Rightarrow> uefi_mem \<Rightarrow> bool" where
  "rest_same st st' \<longleftrightarrow> mapping_base_address st' = mapping_base_address st"

lemma move_entry_words:
  "words (move_entry new_map old_map e st) = (words st)(e := moved new_map old_map (words st e))"
  "mapping_base_address (move_entry new_map old_map e st) = mapping_base_address st"
  by (simp_all add: move_entry_def store_def moved_def Let_def)

lemma move_all_one: "e \<notin> S \<Longrightarrow> (move_all n d S m)(e := moved n d (move_all n d S m e)) = move_all n d (insert e S) m"
  by (auto simp: move_all_def fun_eq_iff)

lemma move_all_out: "a \<notin> S \<Longrightarrow> move_all n d S m a = m a"
  by (simp add: move_all_def)

lemma raise_to_max: "raise_to a h = max h a"
  by (auto simp: raise_to_def max_def)

lemma scan_pd_max:
  "h \<le> scan_pd pd ks st h \<and> (\<forall>k \<in> set ks. words st (pd + 8 * of_nat k) AND PRESENT_FLAG \<noteq> 0 \<longrightarrow> pd + 8 * of_nat k \<le> scan_pd pd ks st h)"
proof (induction ks arbitrary: h)
  case (Cons k ks)
  let ?h = "if words st (pd + 8 * of_nat k) AND PRESENT_FLAG \<noteq> 0 then raise_to (pd + 8 * of_nat k) h else h"
  have "h \<le> ?h" "words st (pd + 8 * of_nat k) AND PRESENT_FLAG \<noteq> 0 \<longrightarrow> pd + 8 * of_nat k \<le> ?h" by (simp_all add: raise_to_max)
  then show ?case using Cons.IH [of ?h] by (auto intro: order_trans)
qed simp

lemma scan_pd_in: "scan_pd pd ks st h \<in> insert h ((\<lambda>k. pd + 8 * of_nat k) ` set ks)"
proof (induction ks arbitrary: h)
  case (Cons k ks)
  show ?case
    using Cons.IH [of h] Cons.IH [of "raise_to (pd + 8 * of_nat k) h"]
    by (cases "words st (pd + 8 * of_nat k) AND PRESENT_FLAG = 0") (auto simp: raise_to_def split: if_splits)
qed simp

text \<open>An entry of a page directory pointer table that leads to a page directory, that directory in
  the copy, and the addresses of such entries.\<close>

definition tabled :: "(u64 \<Rightarrow> u64) \<Rightarrow> u64 \<Rightarrow> nat \<Rightarrow> bool" where
  "tabled m pdp j \<longleftrightarrow> m (pdp + 8 * of_nat j) AND PRESENT_FLAG \<noteq> 0 \<and> m (pdp + 8 * of_nat j) AND PAGE_SIZE_FLAG = 0"

definition child :: "u64 \<Rightarrow> u64 \<Rightarrow> (u64 \<Rightarrow> u64) \<Rightarrow> u64 \<Rightarrow> nat \<Rightarrow> u64" where
  "child new_map old_map m table j = moved new_map old_map (m (table + 8 * of_nat j)) AND ADDR_MASK"

definition tabled_entries :: "(u64 \<Rightarrow> u64) \<Rightarrow> u64 \<Rightarrow> nat set \<Rightarrow> u64 set" where
  "tabled_entries m pdp J = (\<lambda>j. pdp + 8 * of_nat j) ` {j \<in> J. tabled m pdp j}"

text \<open>No entry in use of a table lies above \<open>h\<close>.\<close>

definition below :: "(u64 \<Rightarrow> u64) \<Rightarrow> u64 \<Rightarrow> nat set \<Rightarrow> u64 \<Rightarrow> bool" where
  "below m table K h \<longleftrightarrow> (\<forall>k \<in> K. m (table + 8 * of_nat k) AND PRESENT_FLAG \<noteq> 0 \<longrightarrow> table + 8 * of_nat k \<le> h)"

lemma below_mono: "below m t K h \<Longrightarrow> h \<le> h' \<Longrightarrow> below m t K h'"
  by (auto simp: below_def)

lemma below_insert: "below m t (insert k K) h \<longleftrightarrow>
    (m (t + 8 * of_nat k) AND PRESENT_FLAG \<noteq> 0 \<longrightarrow> t + 8 * of_nat k \<le> h) \<and> below m t K h"
  by (auto simp: below_def)

text \<open>The addresses the loop over a page directory pointer table looks at.\<close>

definition pdp_addrs :: "u64 \<Rightarrow> u64 \<Rightarrow> (u64 \<Rightarrow> u64) \<Rightarrow> u64 \<Rightarrow> nat set \<Rightarrow> u64 set" where
  "pdp_addrs n d m pdp J = (\<lambda>j. pdp + 8 * of_nat j) ` J \<union>
     (\<Union>j \<in> {j \<in> J. tabled m pdp j}. (\<lambda>k. child n d m pdp j + 8 * of_nat k) ` {..<512})"

text \<open>What it leaves behind.\<close>

definition pdp_done :: "u64 \<Rightarrow> u64 \<Rightarrow> (u64 \<Rightarrow> u64) \<Rightarrow> u64 \<Rightarrow> u64 set \<Rightarrow> nat set \<Rightarrow> uefi_mem \<times> u64 \<Rightarrow> uefi_mem \<times> u64 \<Rightarrow> bool" where
  "pdp_done n d m pdp S J s s' \<longleftrightarrow> rest_same (fst s) (fst s') \<and> words (fst s') = move_all n d (S \<union> tabled_entries m pdp J) m \<and>
     snd s \<le> snd s' \<and> snd s' \<in> insert (snd s) (pdp_addrs n d m pdp J) \<and> below m pdp J (snd s') \<and> (\<forall>j \<in> J. tabled m pdp j \<longrightarrow> below m (child n d m pdp j) {..<512} (snd s'))"

text \<open>One entry of a page directory pointer table: what is moved, and where the highest entry in use may be.\<close>

lemma table_entry_moved:
  fixes h :: u64
  assumes w: "words st = move_all n d S m" and e: "pdp + 8 * of_nat j \<notin> S" and t: "tabled m pdp j"
    and off: "\<And>k. k < 512 \<Longrightarrow> child n d m pdp j + 8 * of_nat k \<notin> insert (pdp + 8 * of_nat j) S"
  defines "st' \<equiv> move_entry n d (pdp + 8 * of_nat j) st"
  defines "h' \<equiv> scan_pd (child n d m pdp j) [0..<512] st' (raise_to (pdp + 8 * of_nat j) h)"
  shows "words st' = move_all n d (insert (pdp + 8 * of_nat j) S) m" "words st' (pdp + 8 * of_nat j) AND ADDR_MASK = child n d m pdp j"
    "h \<le> h'" "pdp + 8 * of_nat j \<le> h'" "below m (child n d m pdp j) {..<512} h'" "h' \<in> insert h (pdp_addrs n d m pdp {j})"
proof -
  let ?e = "pdp + 8 * of_nat j" and ?pd = "child n d m pdp j"
  show w': "words st' = move_all n d (insert ?e S) m"
    unfolding st'_def move_entry_words w by (rule move_all_one [OF e])
  show "words st' ?e AND ADDR_MASK = ?pd" unfolding w' by (simp add: move_all_def child_def)
  have pd: "words st' (?pd + 8 * of_nat k) = m (?pd + 8 * of_nat k)" if "k < 512" for k
    using off [OF that] unfolding w' by (simp add: move_all_out)
  show "h \<le> h'" "?e \<le> h'" "below m ?pd {..<512} h'"
    unfolding h'_def using scan_pd_max [of "raise_to ?e h" ?pd "[0..<512]" st'] pd by (auto simp: raise_to_max below_def)
  show "h' \<in> insert h (pdp_addrs n d m pdp {j})"
    unfolding h'_def using scan_pd_in [of ?pd "[0..<512]" st' "raise_to ?e h"] t
    by (auto simp: pdp_addrs_def raise_to_def atLeast0LessThan split: if_splits)
qed

lemma move_pdp_ok:
  assumes inj: "inj_on (\<lambda>j. pdp + 8 * of_nat j) {..<512}"
  shows "distinct js \<Longrightarrow> set js \<subseteq> {..<512} \<Longrightarrow> words st = move_all n d S m \<Longrightarrow>
     \<forall>j \<in> set js. pdp + 8 * of_nat j \<notin> S \<Longrightarrow>
     \<forall>j \<in> set js. tabled m pdp j \<longrightarrow> (\<forall>k < 512. child n d m pdp j + 8 * of_nat k \<notin> S \<union> tabled_entries m pdp (set js)) \<Longrightarrow>
     pdp_done n d m pdp S (set js) (st, h) (move_pdp n d pdp js (st, h))"
proof (induction js arbitrary: st S h)
  case Nil
  then show ?case by (simp add: pdp_done_def rest_same_def tabled_entries_def below_def)
next
  case (Cons j js)
  let ?e = "pdp + 8 * of_nat j"
  have j: "j < 512" "j \<notin> set js" "distinct js" "set js \<subseteq> {..<512}" using Cons.prems(1,2) by auto
  have eS: "?e \<notin> S" using Cons.prems(4) by simp
  then have e: "words st ?e = m ?e" using Cons.prems(3) by (simp add: move_all_out)
  have fresh: "?e \<noteq> pdp + 8 * of_nat i" if "i \<in> set js" for i
    using inj_onD [OF inj, of j i] j that by auto
  have finish: "pdp_done n d m pdp S (set (j # js)) (st, h) (move_pdp n d pdp (j # js) (st, h))"
    if step: "move_pdp n d pdp (j # js) (st, h) = move_pdp n d pdp js (st1, h1)"
      and w: "words st1 = move_all n d S1 m" and S1: "S1 = (if tabled m pdp j then insert ?e S else S)"
      and s1: "rest_same st st1" "h \<le> h1" "m ?e AND PRESENT_FLAG \<noteq> 0 \<longrightarrow> ?e \<le> h1"
      "tabled m pdp j \<longrightarrow> below m (child n d m pdp j) {..<512} h1" and h1: "h1 \<in> insert h (pdp_addrs n d m pdp {j})" for st1 h1 S1
  proof -
    have add: "pdp_addrs n d m pdp (set (j # js)) = pdp_addrs n d m pdp {j} \<union> pdp_addrs n d m pdp (set js)"
      by (auto simp: pdp_addrs_def)
    have all: "S1 \<union> tabled_entries m pdp (set js) = S \<union> tabled_entries m pdp (set (j # js))"
      unfolding S1 by (auto simp: tabled_entries_def)
    have "\<forall>i \<in> set js. pdp + 8 * of_nat i \<notin> S1" unfolding S1 using Cons.prems(4) fresh [THEN not_sym] by auto
    moreover have "\<forall>i \<in> set js. tabled m pdp i \<longrightarrow> (\<forall>k < 512. child n d m pdp i + 8 * of_nat k \<notin> S1 \<union> tabled_entries m pdp (set js))"
      using Cons.prems(5) unfolding all by simp
    ultimately have "pdp_done n d m pdp S1 (set js) (st1, h1) (move_pdp n d pdp js (st1, h1))"
      by (rule Cons.IH [OF j(3,4) w])
    then show ?thesis
      using s1 h1 unfolding step pdp_done_def all add by (auto simp: below_insert rest_same_def intro: below_mono order_trans)
  qed
  consider (absent) "m ?e AND PRESENT_FLAG = 0" | (large) "m ?e AND PRESENT_FLAG \<noteq> 0" "m ?e AND PAGE_SIZE_FLAG \<noteq> 0"
    | (table) "m ?e AND PRESENT_FLAG \<noteq> 0" "m ?e AND PAGE_SIZE_FLAG = 0" by blast
  then show ?case
  proof cases
    case absent
    then show ?thesis using e Cons.prems(3) by (intro finish [of st h S]) (simp_all add: tabled_def rest_same_def)
  next
    case large
    let ?st = "say (''PDP entry with PS bit set!'' @ [CHR 0x0A, CHR 0x0D]) st"
    have "rest_same st ?st" by (simp add: rest_same_def say_def)
    then show ?thesis using large e Cons.prems(3)
      by (intro finish [of ?st "raise_to ?e h" S]) (auto simp: tabled_def Let_def raise_to_max pdp_addrs_def max_def)
  next
    case table
    let ?st = "move_entry n d ?e st" and ?pd = "child n d m pdp j"
    let ?h = "scan_pd ?pd [0..<512] ?st (raise_to ?e h)"
    have t: "tabled m pdp j" using table by (simp add: tabled_def)
    have "?pd + 8 * of_nat k \<notin> insert ?e S" if "k < 512" for k
      using Cons.prems(5) t that by (auto simp: tabled_entries_def)
    note moved = table_entry_moved [OF Cons.prems(3) eS t this]
    have "move_pdp n d pdp (j # js) (st, h) = move_pdp n d pdp js (?st, ?h)"
      using table e by (simp add: Let_def moved(2))
    moreover have "rest_same st ?st" by (simp add: rest_same_def move_entry_words)
    ultimately show ?thesis using t moved(1,3-6) by (intro finish [of ?st ?h "insert ?e S"]) simp_all
  qed
qed

section \<open>Moving all tables\<close>

definition in_use :: "(u64 \<Rightarrow> u64) \<Rightarrow> u64 \<Rightarrow> nat \<Rightarrow> bool" where
  "in_use m table i \<longleftrightarrow> m (table + 8 * of_nat i) AND PRESENT_FLAG \<noteq> 0"

definition pml4_entries :: "u64 \<Rightarrow> u64 \<Rightarrow> (u64 \<Rightarrow> u64) \<Rightarrow> u64 \<Rightarrow> nat set \<Rightarrow> u64 set" where
  "pml4_entries n d m table I = (\<lambda>i. table + 8 * of_nat i) ` {i \<in> I. in_use m table i} \<union>
     (\<Union>i \<in> {i \<in> I. in_use m table i}. tabled_entries m (child n d m table i) {..<512})"

definition pml4_addrs :: "u64 \<Rightarrow> u64 \<Rightarrow> (u64 \<Rightarrow> u64) \<Rightarrow> u64 \<Rightarrow> nat set \<Rightarrow> u64 set" where
  "pml4_addrs n d m table I = (\<lambda>i. table + 8 * of_nat i) ` I \<union>
     (\<Union>i \<in> {i \<in> I. in_use m table i}. pdp_addrs n d m (child n d m table i) {..<512})"

definition pml4_done :: "u64 \<Rightarrow> u64 \<Rightarrow> (u64 \<Rightarrow> u64) \<Rightarrow> u64 \<Rightarrow> u64 set \<Rightarrow> nat set \<Rightarrow> uefi_mem \<times> u64 \<Rightarrow> uefi_mem \<times> u64 \<Rightarrow> bool" where
  "pml4_done n d m table S I s s' \<longleftrightarrow> rest_same (fst s) (fst s') \<and> words (fst s') = move_all n d (S \<union> pml4_entries n d m table I) m \<and>
     snd s \<le> snd s' \<and> snd s' \<in> insert (snd s) (pml4_addrs n d m table I) \<and> below m table I (snd s') \<and>
     (\<forall>i \<in> I. in_use m table i \<longrightarrow> below m (child n d m table i) {..<512} (snd s') \<and>
        (\<forall>j < 512. tabled m (child n d m table i) j \<longrightarrow> below m (child n d m (child n d m table i) j) {..<512} (snd s')))"

text \<open>The tables in the copy are apart.\<close>

definition copies_apart :: "u64 \<Rightarrow> u64 \<Rightarrow> (u64 \<Rightarrow> u64) \<Rightarrow> u64 \<Rightarrow> bool" where
  "copies_apart n d m table \<longleftrightarrow> inj_on (\<lambda>i. table + 8 * of_nat i) {..<512} \<and>
     (\<forall>i < 512. in_use m table i \<longrightarrow> inj_on (\<lambda>j. child n d m table i + 8 * of_nat j) {..<512} \<and>
        (\<forall>j < 512. \<forall>i' < 512. child n d m table i + 8 * of_nat j \<noteq> table + 8 * of_nat i' \<and>
           (i' \<noteq> i \<longrightarrow> in_use m table i' \<longrightarrow> (\<forall>j' < 512. child n d m table i + 8 * of_nat j \<noteq> child n d m table i' + 8 * of_nat j'))) \<and>
        (\<forall>j < 512. tabled m (child n d m table i) j \<longrightarrow>
           (\<forall>k < 512. child n d m (child n d m table i) j + 8 * of_nat k \<notin> pml4_entries n d m table {..<512})))"

lemma pml4_entries_mono: "I \<subseteq> I' \<Longrightarrow> pml4_entries n d m table I \<subseteq> pml4_entries n d m table I'"
  unfolding pml4_entries_def by blast

lemma pml4_entries_insert:
  "pml4_entries n d m table (insert i I) = pml4_entries n d m table I \<union>
    (if in_use m table i then insert (table + 8 * of_nat i) (tabled_entries m (child n d m table i) {..<512}) else {})"
  by (auto simp: pml4_entries_def)

text \<open>An entry of the top table, and an entry of the next table it leads to, that is not among the entries of \<open>I\<close>.\<close>

lemma top_entry_fresh:
  assumes ap: "copies_apart n d m table" and i: "i < 512" "i \<notin> I" and I: "I \<subseteq> {..<512}"
  shows "table + 8 * of_nat i \<notin> pml4_entries n d m table I"
proof -
  have "table + 8 * of_nat i \<noteq> table + 8 * of_nat i'" if "i' \<in> I" for i'
    using ap i that I unfolding copies_apart_def by (metis (no_types, lifting) inj_onD lessThan_iff subsetD)
  moreover have "table + 8 * of_nat i \<notin> tabled_entries m (child n d m table i') {..<512}" if "i' \<in> I" "in_use m table i'" for i'
  proof
    assume "table + 8 * of_nat i \<in> tabled_entries m (child n d m table i') {..<512}"
    then obtain j where "j < 512" "child n d m table i' + 8 * of_nat j = table + 8 * of_nat i" by (auto simp: tabled_entries_def)
    then show False using ap i that I unfolding copies_apart_def by blast
  qed
  ultimately show ?thesis by (auto simp: pml4_entries_def)
qed

lemma next_entry_fresh:
  assumes ap: "copies_apart n d m table" and i: "i < 512" "i \<notin> I" "in_use m table i" and I: "I \<subseteq> {..<512}" and j: "j < 512"
  shows "child n d m table i + 8 * of_nat j \<notin> insert (table + 8 * of_nat i) (pml4_entries n d m table I)"
proof -
  have ne: "child n d m table i + 8 * of_nat j \<noteq> table + 8 * of_nat i'" if "i' < 512" for i'
    using ap i j that unfolding copies_apart_def by blast
  have "child n d m table i + 8 * of_nat j \<notin> tabled_entries m (child n d m table i') {..<512}" if i': "i' \<in> I" "in_use m table i'" for i'
  proof
    assume "child n d m table i + 8 * of_nat j \<in> tabled_entries m (child n d m table i') {..<512}"
    then obtain j' where "j' < 512" "child n d m table i + 8 * of_nat j = child n d m table i' + 8 * of_nat j'"
      by (auto simp: tabled_entries_def)
    moreover have "i' < 512" "i' \<noteq> i" using i' i I by auto
    ultimately show False using ap i j i' unfolding copies_apart_def by blast
  qed
  then show ?thesis using ne i(1) I by (auto simp: pml4_entries_def)
qed

text \<open>The first entry is not in use, or its table is moved.\<close>

lemma move_first:
  assumes ap: "copies_apart n d m table" and i: "i < 512" "i \<notin> I" "in_use m table i" and I: "I \<subseteq> {..<512}"
    and w: "words st = move_all n d (pml4_entries n d m table I) m"
  obtains st1 h1 where "move_pml4 n d table (i # is) (st, h) = move_pml4 n d table is (st1, h1)" "rest_same st st1"
    "words st1 = move_all n d (pml4_entries n d m table (insert i I)) m" "h \<le> h1" "table + 8 * of_nat i \<le> h1"
    "h1 \<in> insert h (pml4_addrs n d m table {i})" "below m (child n d m table i) {..<512} h1"
    "\<forall>j < 512. tabled m (child n d m table i) j \<longrightarrow> below m (child n d m (child n d m table i) j) {..<512} h1"
proof -
  let ?e = "table + 8 * of_nat i" and ?S = "pml4_entries n d m table I" and ?pdp = "child n d m table i"
  let ?st = "move_entry n d ?e st" and ?h = "raise_to ?e h" and ?S1 = "insert ?e ?S"
  have eS: "?e \<notin> ?S" by (rule top_entry_fresh [OF ap i(1,2) I])
  then have e: "words st ?e = m ?e" using w by (simp add: move_all_out)
  have w1: "words ?st = move_all n d ?S1 m" unfolding move_entry_words w by (rule move_all_one [OF eS])
  have we: "words ?st ?e AND ADDR_MASK = ?pdp" unfolding w1 by (simp add: move_all_def child_def)
  have step: "move_pml4 n d table (i # is) (st, h) = move_pml4 n d table is (move_pdp n d ?pdp [0..<512] (?st, ?h))"
    using i(3) e by (simp add: in_use_def Let_def we)
  have inj: "inj_on (\<lambda>j. ?pdp + 8 * of_nat j) {..<512}" using ap i by (simp add: copies_apart_def)
  have out: "\<forall>j \<in> set [0..<512]. ?pdp + 8 * of_nat j \<notin> ?S1" using next_entry_fresh [OF ap i I] by simp
  have sub: "?S1 \<union> tabled_entries m ?pdp {..<512} = pml4_entries n d m table (insert i I)"
    using i(3) by (auto simp: pml4_entries_insert)
  have total: "?S1 \<union> tabled_entries m ?pdp (set [0..<512]) \<subseteq> pml4_entries n d m table {..<512}"
    using pml4_entries_mono [of "insert i I" "{..<512}"] i(1) I sub by (simp add: atLeast0LessThan)
  have "child n d m ?pdp j + 8 * of_nat k \<notin> pml4_entries n d m table {..<512}" if "j < 512" "tabled m ?pdp j" "k < 512" for j k
    using ap i that unfolding copies_apart_def by blast
  then have pds: "\<forall>j \<in> set [0..<512]. tabled m ?pdp j \<longrightarrow>
      (\<forall>k < 512. child n d m ?pdp j + 8 * of_nat k \<notin> ?S1 \<union> tabled_entries m ?pdp (set [0..<512]))"
    using subsetD [OF total] by (metis (no_types, lifting) atLeastLessThan_iff set_upt)
  obtain st1 h1 where s1: "move_pdp n d ?pdp [0..<512] (?st, ?h) = (st1, h1)" by fastforce
  have "pdp_done n d m ?pdp ?S1 (set [0..<512]) (?st, ?h) (st1, h1)"
    using move_pdp_ok [OF inj _ _ w1 out pds, of ?h] unfolding s1 by (simp add: atLeast0LessThan)
  then have d: "rest_same ?st st1" "words st1 = move_all n d (pml4_entries n d m table (insert i I)) m" "?h \<le> h1"
    "h1 \<in> insert ?h (pdp_addrs n d m ?pdp {..<512})" "below m ?pdp {..<512} h1"
    "\<forall>j < 512. tabled m ?pdp j \<longrightarrow> below m (child n d m ?pdp j) {..<512} h1"
    using sub by (simp_all add: pdp_done_def atLeast0LessThan)
  show ?thesis
  proof (rule that [OF step [unfolded s1] _ d(2) _ _ _ d(5,6)])
    show "rest_same st st1" using d(1) by (simp add: rest_same_def move_entry_words)
    show "h \<le> h1" "?e \<le> h1" using d(3) by (simp_all add: raise_to_max)
    show "h1 \<in> insert h (pml4_addrs n d m table {i})"
      using d(4) i(3) by (auto simp: pml4_addrs_def raise_to_def split: if_splits)
  qed
qed

lemma move_pml4_ok:
  assumes ap: "copies_apart n d m table"
  shows "distinct is \<Longrightarrow> set is \<subseteq> {..<512} \<Longrightarrow> set is \<inter> I0 = {} \<Longrightarrow> I0 \<subseteq> {..<512} \<Longrightarrow>
     words st = move_all n d (pml4_entries n d m table I0) m \<Longrightarrow>
     pml4_done n d m table (pml4_entries n d m table I0) (set is) (st, h) (move_pml4 n d table is (st, h))"
proof (induction "is" arbitrary: st h I0)
  case Nil
  then show ?case by (simp add: pml4_done_def rest_same_def pml4_entries_def below_def)
next
  case (Cons i "is")
  let ?S = "pml4_entries n d m table I0" and ?I1 = "insert i I0"
  have i: "i < 512" "i \<notin> set is" "distinct is" "set is \<subseteq> {..<512}" "i \<notin> I0" using Cons.prems(1-3) by auto
  have I1: "set is \<inter> ?I1 = {}" "?I1 \<subseteq> {..<512}" using i Cons.prems(3,4) by auto
  show ?case
  proof (cases "in_use m table i")
    case False
    then have S1: "pml4_entries n d m table ?I1 = ?S" "pml4_entries n d m table (set (i # is)) = pml4_entries n d m table (set is)"
      by (simp_all add: pml4_entries_insert)
    have "words st (table + 8 * of_nat i) = m (table + 8 * of_nat i)"
      using Cons.prems(5) top_entry_fresh [OF ap i(1,5) Cons.prems(4)] by (simp add: move_all_out)
    then have step: "move_pml4 n d table (i # is) (st, h) = move_pml4 n d table is (st, h)"
      using False by (simp add: in_use_def)
    have "words st = move_all n d (pml4_entries n d m table ?I1) m" using Cons.prems(5) S1 by simp
    from Cons.IH [OF i(3,4) I1 this, of h] show ?thesis
      using False unfolding step pml4_done_def S1 by (auto simp: below_insert in_use_def pml4_addrs_def)
  next
    case True
    obtain st1 h1 where step: "move_pml4 n d table (i # is) (st, h) = move_pml4 n d table is (st1, h1)" and d: "rest_same st st1"
      "words st1 = move_all n d (pml4_entries n d m table ?I1) m" "h \<le> h1" "table + 8 * of_nat i \<le> h1"
      "h1 \<in> insert h (pml4_addrs n d m table {i})" "below m (child n d m table i) {..<512} h1"
      "\<forall>j < 512. tabled m (child n d m table i) j \<longrightarrow> below m (child n d m (child n d m table i) j) {..<512} h1"
      by (rule move_first [OF ap i(1,5) True Cons.prems(4,5)])
    have all: "pml4_entries n d m table ?I1 \<union> pml4_entries n d m table (set is) = ?S \<union> pml4_entries n d m table (set (i # is))"
      by (auto simp: pml4_entries_insert)
    have add: "pml4_addrs n d m table (set (i # is)) = pml4_addrs n d m table {i} \<union> pml4_addrs n d m table (set is)"
      by (auto simp: pml4_addrs_def)
    have "pml4_done n d m table (pml4_entries n d m table ?I1) (set is) (st1, h1) (move_pml4 n d table is (st1, h1))"
      by (rule Cons.IH [OF i(3,4) I1 d(2)])
    then show ?thesis
      using d unfolding step pml4_done_def all add
      by (auto simp: below_insert rest_same_def intro: below_mono order_trans)
  qed
qed

end
