(* ===== verification/Boot_Tables.thy ===== *)
theory Boot_Tables
  imports Boot_Init_Props
begin

text \<open>
  The firmware's page tables and their copy: the geometry of the two regions, and the translation of
  addresses before and after \<open>init_virtual_mapping\<close> has moved the tables.
\<close>

section \<open>Regions\<close>

definition in_region :: "u64 \<Rightarrow> nat \<Rightarrow> u64 \<Rightarrow> bool" where
  "in_region base len p \<longleftrightarrow> is_page p \<and> unat base \<le> unat p \<and> unat p + 4096 \<le> unat base + len"

definition regions_ok :: "u64 \<Rightarrow> u64 \<Rightarrow> nat \<Rightarrow> bool" where
  "regions_ok new_map old_map len \<longleftrightarrow> is_page new_map \<and> is_page old_map \<and>
     unat new_map + len \<le> 2 ^ 52 \<and> unat old_map + len \<le> 2 ^ 52 \<and>
     (unat new_map + len \<le> unat old_map \<or> unat old_map + len \<le> unat new_map)"

lemma is_pageI: "4096 dvd unat p \<Longrightarrow> unat p < 2 ^ 52 \<Longrightarrow> is_page p" for p :: u64
proof -
  assume d: "4096 dvd unat p" and l: "unat p < 2 ^ 52"
  have "unat (take_bit 12 p) = take_bit 12 (unat p)" by (rule unsigned_take_bit_eq)
  also have "\<dots> = 0" using d by (simp add: take_bit_eq_mod)
  finally have t: "take_bit 12 p = 0" by (simp only: unat_eq_0)
  have "unat (take_bit 52 p) = unat p" using l by (simp only: unsigned_take_bit_eq take_bit_nat_eq_self)
  then have u: "take_bit 52 p = p" by (simp only: word_unat_eq_iff)
  have "12 \<le> n \<and> n < 52" if "bit p n" for n
  proof
    show "n < 52" using that u by (metis bit_take_bit_iff)
    show "12 \<le> n" using that t by (metis bit_0_eq bit_take_bit_iff bot_apply bot_bool_def not_le)
  qed
  then show ?thesis unfolding is_page_def by (intro bit_word_eqI) (auto simp: bit_simps bit_ADDR_MASK)
qed

lemma shift_unat:
  assumes "regions_ok new_map old_map len" "in_region old_map len p"
  shows "unat (old_addr_to_new_map new_map old_map p) = unat new_map + (unat p - unat old_map)"
proof -
  have u: "unat (p - old_map) = unat p - unat old_map" using assms by (simp add: unat_sub word_le_nat_alt in_region_def)
  have "unat p - unat old_map + 4096 \<le> len" using assms(2) unfolding in_region_def by linarith
  moreover have "unat new_map + len \<le> 2 ^ 52" using assms(1) by (simp add: regions_ok_def)
  ultimately have "unat new_map + (unat p - unat old_map) < 2 ^ 52" by linarith
  then have "unat new_map + (unat p - unat old_map) < 2 ^ 64" by (rule less_trans) simp
  then show ?thesis
    unfolding old_addr_to_new_map_def by (subst unat_add_no_wrap) (simp_all add: u)
qed

lemma shift_region:
  assumes r: "regions_ok new_map old_map len" and p: "in_region old_map len p"
  shows "in_region new_map len (old_addr_to_new_map new_map old_map p)"
proof -
  have d: "4096 dvd unat new_map" "4096 dvd unat old_map" "4096 dvd unat p"
    using r p is_page_bounds by (auto simp: regions_ok_def in_region_def)
  then have "4096 dvd unat (old_addr_to_new_map new_map old_map p)"
    unfolding shift_unat [OF r p] by (intro dvd_add dvd_diff_nat)
  moreover have "unat (old_addr_to_new_map new_map old_map p) + 4096 \<le> unat new_map + len"
    unfolding shift_unat [OF r p] using p unfolding in_region_def by linarith
  ultimately show ?thesis
    using r shift_unat [OF r p] by (auto simp: in_region_def regions_ok_def intro: is_pageI)
qed

lemma shift_inj:
  assumes "regions_ok new_map old_map len" "in_region old_map len p" "in_region old_map len q"
  shows "old_addr_to_new_map new_map old_map p = old_addr_to_new_map new_map old_map q \<longleftrightarrow> p = q"
  by (auto simp: old_addr_to_new_map_def)

lemma index_word: "i < 512 \<Longrightarrow> (of_nat i :: u64) < 512" "i < 512 \<Longrightarrow> unat (of_nat i :: u64) = i"
  by (simp_all add: word_less_nat_alt unat_of_nat_u64)

lemma table_entry_inj:
  assumes "is_page p" "is_page q" "i < 512" "j < 512" "p + 8 * of_nat i = q + 8 * of_nat j"
  shows "p = q \<and> i = j"
  using entry_inj [OF assms(1,2) index_word(1) [OF assms(3)] index_word(1) [OF assms(4)] assms(5)]
  by (metis assms(3,4) index_word(2))

lemma table_entry_unat: "is_page p \<Longrightarrow> i < 512 \<Longrightarrow> unat (p + 8 * of_nat i) = unat p + 8 * i"
  using entry_unat [OF _ index_word(1)] by (simp add: index_word(2))

section \<open>The copy\<close>

text \<open>The addresses of the region the tables are copied to.\<close>

definition copy_area :: "u64 \<Rightarrow> nat \<Rightarrow> u64 set" where
  "copy_area new_map len = {a. unat new_map \<le> unat a \<and> unat a < unat new_map + len}"

lemma region_entry: "regions_ok n d len \<Longrightarrow> in_region n len p \<Longrightarrow> i < 512 \<Longrightarrow> p + 8 * of_nat i \<in> copy_area n len"
  using table_entry_unat [of p i] by (simp add: copy_area_def in_region_def)

lemma copy_words:
  assumes r: "regions_ok new_map old_map len"
  shows "8 * c \<le> len \<Longrightarrow>
    words (fold (\<lambda>i st. store (new_map + 8 * of_nat i) (words st (old_map + 8 * of_nat i)) st) [0..<c] st) =
    (\<lambda>a. if \<exists>i < c. a = new_map + 8 * of_nat i then words st (old_map + (a - new_map)) else words st a)"
proof (induction c)
  case (Suc c)
  have u: "unat (new_map + 8 * of_nat i :: u64) = unat new_map + 8 * i" "unat (old_map + 8 * of_nat i :: u64) = unat old_map + 8 * i"
    if "i \<le> c" for i
  proof -
    have "8 * i < 2 ^ 52" using that Suc.prems r by (simp add: regions_ok_def)
    moreover have "unat (of_nat (8 * i) :: u64) = 8 * i" using \<open>8 * i < 2 ^ 52\<close> by (intro unat_of_nat_u64) simp
    ultimately show "unat (new_map + 8 * of_nat i :: u64) = unat new_map + 8 * i" "unat (old_map + 8 * of_nat i :: u64) = unat old_map + 8 * i"
      using that Suc.prems r by (subst unat_add_no_wrap; simp add: regions_ok_def)+
  qed
  have "old_map + 8 * of_nat c \<noteq> new_map + 8 * of_nat i" if "i < c" for i
  proof
    assume "old_map + 8 * of_nat c = new_map + 8 * of_nat i"
    then have "unat old_map + 8 * c = unat new_map + 8 * i" using u(1) [of i] u(2) [of c] that by simp
    then show False using r that Suc.prems by (auto simp: regions_ok_def)
  qed
  then show ?case using Suc by (auto simp: store_def fun_eq_iff less_Suc_eq)
qed simp

lemma copy_tables_words:
  fixes st :: uefi_mem
  assumes r: "regions_ok new_map old_map (unat map_size)"
  defines "m0 \<equiv> words (copy_tables new_map old_map map_size st)"
  shows "in_region old_map (unat map_size) p \<Longrightarrow> i < 512 \<Longrightarrow>
      m0 (old_addr_to_new_map new_map old_map p + 8 * of_nat i) = words st (p + 8 * of_nat i)"
    "a \<notin> copy_area new_map (unat map_size) \<Longrightarrow> m0 a = words st a"
proof -
  let ?c = "unat map_size div 8"
  have m0: "m0 = (\<lambda>a. if \<exists>i < ?c. a = new_map + 8 * of_nat i then words st (old_map + (a - new_map)) else words st a)"
    unfolding m0_def copy_tables_def by (rule copy_words [OF r]) simp
  {
    assume p: "in_region old_map (unat map_size) p" and i: "i < 512"
    have d: "4096 dvd unat p" "4096 dvd unat old_map" using r p is_page_bounds by (auto simp: regions_ok_def in_region_def)
    then have "8 dvd unat p - unat old_map" by (intro dvd_diff_nat) (auto elim: dvd_trans [rotated])
    then obtain q where q: "unat p - unat old_map = 8 * q" by (auto elim: dvdE)
    have u: "unat (p - old_map) = 8 * q" using p q by (simp add: unat_sub word_le_nat_alt in_region_def)
    then have "of_nat (unat (p - old_map)) = (of_nat (8 * q) :: u64)" by simp
    then have "p - old_map = 8 * of_nat q" by simp
    then have a: "old_addr_to_new_map new_map old_map p + 8 * of_nat i = new_map + 8 * of_nat (q + i)"
      "old_map + 8 * of_nat (q + i) = p + 8 * of_nat i"
      by (simp_all add: old_addr_to_new_map_def algebra_simps)
    have "unat old_map \<le> unat p" "unat p + 4096 \<le> unat old_map + unat map_size" using p by (simp_all add: in_region_def)
    moreover from this have "unat p = unat old_map + 8 * q" using q by simp
    ultimately have "8 * q + 4096 \<le> unat map_size" by simp
    then have "8 * Suc (q + i) \<le> unat map_size" using i by simp
    then have "q + i < ?c" by (simp add: less_eq_div_iff_mult_less_eq Suc_le_eq [symmetric])
    then have ex: "\<exists>k < ?c. new_map + 8 * of_nat (q + i) = new_map + 8 * of_nat k" by blast
    have "old_map + (new_map + 8 * of_nat (q + i) - new_map) = p + 8 * of_nat i" using a(2) by (simp only: add_diff_cancel_left')
    with ex show "m0 (old_addr_to_new_map new_map old_map p + 8 * of_nat i) = words st (p + 8 * of_nat i)"
      unfolding m0 a(1) by (simp only: if_True)
  }
  assume a: "a \<notin> copy_area new_map (unat map_size)"
  have "a \<noteq> new_map + 8 * of_nat i" if "i < ?c" for i
  proof -
    have "8 * i < unat map_size" using that by (simp add: less_mult_imp_div_less) 
    moreover have "unat map_size \<le> 2 ^ 52" using r by (simp add: regions_ok_def)
    ultimately have "unat (new_map + 8 * of_nat i) = unat new_map + 8 * i"
      using r unat_of_nat_u64 [of "8 * i"] by (subst unat_add_no_wrap) (simp_all add: regions_ok_def)
    then show ?thesis using a \<open>8 * i < unat map_size\<close> by (auto simp: copy_area_def)
  qed
  then show "m0 a = words st a" unfolding m0 by auto
qed

section \<open>The firmware's tables\<close>

definition next_of :: "(u64 \<Rightarrow> u64) \<Rightarrow> u64 \<Rightarrow> nat \<Rightarrow> u64" where
  "next_of m table i = m (table + 8 * of_nat i) AND ADDR_MASK"

text \<open>All tables of the upper three levels lie in the region; the top table, the page directory pointer
  tables and the page directories are different tables.\<close>

definition firmware_tables :: "u64 \<Rightarrow> nat \<Rightarrow> (u64 \<Rightarrow> u64) \<Rightarrow> u64 \<Rightarrow> bool" where
  "firmware_tables old_map len m root \<longleftrightarrow> in_region old_map len root \<and>
     (\<forall>i < 512. in_use m root i \<longrightarrow> in_region old_map len (next_of m root i) \<and> next_of m root i \<noteq> root \<and>
        (\<forall>i' < 512. i' \<noteq> i \<longrightarrow> in_use m root i' \<longrightarrow> next_of m root i' \<noteq> next_of m root i) \<and>
        (\<forall>j < 512. tabled m (next_of m root i) j \<longrightarrow> in_region old_map len (next_of m (next_of m root i) j) \<and>
           next_of m (next_of m root i) j \<noteq> root \<and>
           (\<forall>i' < 512. in_use m root i' \<longrightarrow> next_of m (next_of m root i) j \<noteq> next_of m root i')))"

text \<open>The walk of the processor with large pages: the leaf entry of a page and its level.\<close>

definition leaf_entry :: "(u64 \<Rightarrow> u64) \<Rightarrow> u64 \<Rightarrow> nat \<Rightarrow> nat \<Rightarrow> nat \<Rightarrow> nat \<Rightarrow> (nat \<times> u64) option" where
  "leaf_entry m root i j k l =
     (let pdp = next_of m root i; pd = next_of m pdp j; pt = next_of m pd k
      in if \<not> in_use m root i \<or> \<not> in_use m pdp j then None
         else if m (pdp + 8 * of_nat j) AND PAGE_SIZE_FLAG \<noteq> 0 then Some (3, m (pdp + 8 * of_nat j))
         else if \<not> in_use m pd k then None
         else if m (pd + 8 * of_nat k) AND PAGE_SIZE_FLAG \<noteq> 0 then Some (2, m (pd + 8 * of_nat k))
         else if \<not> in_use m pt l then None
         else Some (1, m (pt + 8 * of_nat l)))"

text \<open>The page tables of the last level, which are not moved, are outside the region of the copy.\<close>

definition last_level_outside :: "u64 \<Rightarrow> nat \<Rightarrow> (u64 \<Rightarrow> u64) \<Rightarrow> u64 \<Rightarrow> bool" where
  "last_level_outside new_map len m root \<longleftrightarrow>
     (\<forall>i < 512. \<forall>j < 512. \<forall>k < 512. in_use m root i \<longrightarrow> tabled m (next_of m root i) j \<longrightarrow>
        in_use m (next_of m (next_of m root i) j) k \<longrightarrow>
        m (next_of m (next_of m root i) j + 8 * of_nat k) AND PAGE_SIZE_FLAG = 0 \<longrightarrow>
        (\<forall>l < 512. next_of m (next_of m (next_of m root i) j) k + 8 * of_nat l \<notin> copy_area new_map len))"

lemma moved_bits:
  assumes "is_page (old_addr_to_new_map n d (v AND ADDR_MASK))"
  shows "moved n d v AND ADDR_MASK = old_addr_to_new_map n d (v AND ADDR_MASK)"
    "moved n d v AND PRESENT_FLAG = v AND PRESENT_FLAG" "moved n d v AND PAGE_SIZE_FLAG = v AND PAGE_SIZE_FLAG"
proof -
  let ?s = "old_addr_to_new_map n d (v AND ADDR_MASK)"
  have s: "?s AND ADDR_MASK = ?s" using assms by (simp add: is_page_def)
  have "(v AND NOT ADDR_MASK) AND ADDR_MASK = 0" by (simp add: and.assoc)
  then show "moved n d v AND ADDR_MASK = ?s" by (simp add: moved_def bit.conj_disj_distrib2 s)
  have f: "moved n d v AND f = v AND f" if "ADDR_MASK AND f = 0" for f
  proof -
    have "?s AND f = ?s AND (ADDR_MASK AND f)" by (simp only: and.assoc [symmetric] s)
    then have 1: "?s AND f = 0" using that by simp
    have apart: "\<not> (bit ADDR_MASK m \<and> bit f m)" for m
      using arg_cong [OF that, of "\<lambda>w. bit w m"] by (simp add: bit_and_iff)
    then have "(v AND NOT ADDR_MASK) AND f = v AND f"
      by (intro bit_word_eqI) (auto simp: bit_and_iff bit_not_iff)
    then show ?thesis by (simp add: moved_def bit.conj_disj_distrib2 1)
  qed
  show "moved n d v AND PRESENT_FLAG = v AND PRESENT_FLAG" by (rule f) (simp add: ADDR_MASK_def PRESENT_FLAG_def)
  show "moved n d v AND PAGE_SIZE_FLAG = v AND PAGE_SIZE_FLAG" by (rule f) (simp add: ADDR_MASK_def PAGE_SIZE_FLAG_def)
qed

section \<open>The copy before the entries are moved\<close>

definition copied :: "u64 \<Rightarrow> u64 \<Rightarrow> nat \<Rightarrow> (u64 \<Rightarrow> u64) \<Rightarrow> (u64 \<Rightarrow> u64) \<Rightarrow> bool" where
  "copied n d len m m0 \<longleftrightarrow> (\<forall>p i. in_region d len p \<longrightarrow> i < 512 \<longrightarrow> m0 (old_addr_to_new_map n d p + 8 * of_nat i) = m (p + 8 * of_nat i)) \<and>
     (\<forall>a. a \<notin> copy_area n len \<longrightarrow> m0 a = m a)"

lemma copied_entries:
  assumes "copied n d len m m0" "in_region d len t" "i < 512"
  shows "in_use m0 (old_addr_to_new_map n d t) i = in_use m t i" "tabled m0 (old_addr_to_new_map n d t) i = tabled m t i"
  using assms by (simp_all add: copied_def in_use_def tabled_def)

lemma copied_child:
  assumes r: "regions_ok n d len" and "copied n d len m m0" "in_region d len t" "i < 512" and p: "in_region d len (next_of m t i)"
  shows "child n d m0 (old_addr_to_new_map n d t) i = old_addr_to_new_map n d (next_of m t i)"
proof -
  have "is_page (old_addr_to_new_map n d (m (t + 8 * of_nat i) AND ADDR_MASK))"
    using shift_region [OF r p] by (simp add: in_region_def next_of_def)
  from moved_bits(1) [OF this] show ?thesis using assms by (simp add: child_def next_of_def copied_def)
qed

lemma shift_entry_inj:
  assumes r: "regions_ok n d len" and "in_region d len p" "in_region d len q" "i < 512" "j < 512"
    and "old_addr_to_new_map n d p + 8 * of_nat i = old_addr_to_new_map n d q + 8 * of_nat j"
  shows "p = q \<and> i = j"
  using table_entry_inj [OF _ _ assms(4,5,6)] shift_region [OF r assms(2)] shift_region [OF r assms(3)] shift_inj [OF r assms(2,3)]
  by (simp add: in_region_def)

lemma firmwareD:
  assumes "firmware_tables d len m root" "i < 512" "in_use m root i"
  shows "in_region d len (next_of m root i)" "next_of m root i \<noteq> root"
    "i' < 512 \<Longrightarrow> i' \<noteq> i \<Longrightarrow> in_use m root i' \<Longrightarrow> next_of m root i' \<noteq> next_of m root i"
    "j < 512 \<Longrightarrow> tabled m (next_of m root i) j \<Longrightarrow> in_region d len (next_of m (next_of m root i) j)"
    "j < 512 \<Longrightarrow> tabled m (next_of m root i) j \<Longrightarrow> next_of m (next_of m root i) j \<noteq> root"
    "j < 512 \<Longrightarrow> tabled m (next_of m root i) j \<Longrightarrow> i' < 512 \<Longrightarrow> in_use m root i' \<Longrightarrow> next_of m (next_of m root i) j \<noteq> next_of m root i'"
  using assms unfolding firmware_tables_def by blast+

text \<open>The children and grandchildren of the top table in the copy.\<close>

lemma copied_children:
  assumes r: "regions_ok n d len" and fw: "firmware_tables d len m root" and cp: "copied n d len m m0"
    and i: "i < 512" "in_use m root i"
  shows "child n d m0 (old_addr_to_new_map n d root) i = old_addr_to_new_map n d (next_of m root i)"
    "j < 512 \<Longrightarrow> tabled m0 (old_addr_to_new_map n d (next_of m root i)) j = tabled m (next_of m root i) j"
    "j < 512 \<Longrightarrow> tabled m (next_of m root i) j \<Longrightarrow>
       child n d m0 (old_addr_to_new_map n d (next_of m root i)) j = old_addr_to_new_map n d (next_of m (next_of m root i) j)"
proof -
  have root: "in_region d len root" using fw by (simp add: firmware_tables_def)
  note p = firmwareD [OF fw i]
  show "child n d m0 (old_addr_to_new_map n d root) i = old_addr_to_new_map n d (next_of m root i)"
    by (rule copied_child [OF r cp root i(1) p(1)])
  show "j < 512 \<Longrightarrow> tabled m0 (old_addr_to_new_map n d (next_of m root i)) j = tabled m (next_of m root i) j"
    by (rule copied_entries(2) [OF cp p(1)])
  show "j < 512 \<Longrightarrow> tabled m (next_of m root i) j \<Longrightarrow>
      child n d m0 (old_addr_to_new_map n d (next_of m root i)) j = old_addr_to_new_map n d (next_of m (next_of m root i) j)"
    by (rule copied_child [OF r cp p(1) _ p(4)])
qed

text \<open>The entries that are moved, in terms of the tables of the firmware.\<close>

lemma moved_entries_eq:
  assumes r: "regions_ok n d len" and fw: "firmware_tables d len m root" and cp: "copied n d len m m0"
  shows "pml4_entries n d m0 (old_addr_to_new_map n d root) {..<512} =
    {old_addr_to_new_map n d root + 8 * of_nat i |i. i < 512 \<and> in_use m root i} \<union>
    {old_addr_to_new_map n d (next_of m root i) + 8 * of_nat j |i j. i < 512 \<and> in_use m root i \<and> j < 512 \<and> tabled m (next_of m root i) j}"
proof -
  have root: "in_region d len root" using fw by (simp add: firmware_tables_def)
  have use: "in_use m0 (old_addr_to_new_map n d root) i = in_use m root i" if "i < 512" for i
    by (rule copied_entries(1) [OF cp root that])
  have "tabled_entries m0 (child n d m0 (old_addr_to_new_map n d root) i) {..<512} =
      {old_addr_to_new_map n d (next_of m root i) + 8 * of_nat j |j. j < 512 \<and> tabled m (next_of m root i) j}"
    if i: "i < 512" "in_use m root i" for i
    using copied_child [OF r cp root i(1) firmwareD(1) [OF fw i]] copied_entries(2) [OF cp firmwareD(1) [OF fw i]]
    by (auto simp: tabled_entries_def)
  then show ?thesis using use unfolding pml4_entries_def by fastforce
qed

lemma firmware_apart:
  assumes r: "regions_ok n d len" and fw: "firmware_tables d len m root" and cp: "copied n d len m m0"
  shows "copies_apart n d m0 (old_addr_to_new_map n d root)"
proof -
  let ?f = "old_addr_to_new_map n d"
  have root: "in_region d len root" using fw by (simp add: firmware_tables_def)
  have inj: "inj_on (\<lambda>i. ?f p + 8 * of_nat i) {..<512}" if "in_region d len p" for p
    using shift_entry_inj [OF r that that] by (auto intro!: inj_onI)
  have use: "in_use m0 (?f root) i = in_use m root i" if "i < 512" for i by (rule copied_entries(1) [OF cp root that])
  note ch = copied_children(1) [OF r fw cp] and tab = copied_children(2) [OF r fw cp] and pd = copied_children(3) [OF r fw cp]
  show ?thesis
    unfolding copies_apart_def
  proof (intro conjI allI impI)
    show "inj_on (\<lambda>i. ?f root + 8 * of_nat i) {..<512}" by (rule inj [OF root])
    fix i assume i: "i < 512" "in_use m0 (?f root) i"
    then have u: "in_use m root i" using use by simp
    note p = firmwareD [OF fw i(1) u] and c = ch [OF i(1) u]
    show "inj_on (\<lambda>j. child n d m0 (?f root) i + 8 * of_nat j) {..<512}" unfolding c by (rule inj [OF p(1)])
    fix j :: nat assume j: "j < 512"
    show "child n d m0 (?f root) i + 8 * of_nat j \<noteq> ?f root + 8 * of_nat i'" if "i' < 512" for i'
      unfolding c using shift_entry_inj [OF r p(1) root j that] p(2) by blast
    show "child n d m0 (?f root) i + 8 * of_nat j \<noteq> child n d m0 (?f root) i' + 8 * of_nat j'"
      if "i' < 512" "i' \<noteq> i" "in_use m0 (?f root) i'" "j' < 512" for i' j'
    proof -
      have u': "in_use m root i'" using that use by simp
      show ?thesis
        unfolding c ch [OF that(1) u']
        using shift_entry_inj [OF r p(1) firmwareD(1) [OF fw that(1) u'] j that(4)] p(3) [OF that(1,2) u'] by metis
    qed
    assume "tabled m0 (child n d m0 (?f root) i) j"
    then have t: "tabled m (next_of m root i) j" using c tab [OF i(1) u j] by simp
    fix k :: nat assume k: "k < 512"
    have 1: "?f (next_of m (next_of m root i) j) + 8 * of_nat k \<noteq> ?f root + 8 * of_nat i'" if "i' < 512" for i'
      using shift_entry_inj [OF r p(4) [OF j t] root k that] p(5) [OF j t] by blast
    have 2: "?f (next_of m (next_of m root i) j) + 8 * of_nat k \<noteq> ?f (next_of m root i') + 8 * of_nat j'"
      if "i' < 512" "in_use m root i'" "j' < 512" for i' j'
      using shift_entry_inj [OF r p(4) [OF j t] firmwareD(1) [OF fw that(1,2)] k that(3)] p(6) [OF j t that(1,2)] by blast
    show "child n d m0 (child n d m0 (?f root) i) j + 8 * of_nat k \<notin> pml4_entries n d m0 (?f root) {..<512}"
      unfolding c pd [OF i(1) u j t] moved_entries_eq [OF r fw cp] using 1 2 by blast
  qed
qed

section \<open>The moved tables\<close>

text \<open>The memory after the move: the entries of the top table, those of the page directory pointer tables, and
  what is not an entry of either.\<close>

abbreviation moved_memory :: "u64 \<Rightarrow> u64 \<Rightarrow> (u64 \<Rightarrow> u64) \<Rightarrow> u64 \<Rightarrow> u64 \<Rightarrow> u64" where
  "moved_memory n d m0 root \<equiv>
     move_all n d (pml4_entries n d m0 (old_addr_to_new_map n d root) {..<512}) m0"

lemma moved_top_entry:
  assumes r: "regions_ok n d len" and fw: "firmware_tables d len m root" and cp: "copied n d len m m0" and i: "i < 512"
  shows "moved_memory n d m0 root (old_addr_to_new_map n d root + 8 * of_nat i) =
    (if in_use m root i then moved n d (m (root + 8 * of_nat i)) else m (root + 8 * of_nat i))"
proof -
  let ?f = "old_addr_to_new_map n d" and ?E = "pml4_entries n d m0 (old_addr_to_new_map n d root) {..<512}"
  have root: "in_region d len root" using fw by (simp add: firmware_tables_def)
  note inj = shift_entry_inj [OF r] and E = moved_entries_eq [OF r fw cp]
  have "in_use m root i" if "?f root + 8 * of_nat i \<in> ?E"
  proof -
    from that consider i' where "i' < 512" "in_use m root i'" "?f root + 8 * of_nat i = ?f root + 8 * of_nat i'"
      | i' j' where "i' < 512" "in_use m root i'" "j' < 512" "?f root + 8 * of_nat i = ?f (next_of m root i') + 8 * of_nat j'"
      unfolding E by blast
    then show ?thesis
      using inj [OF root root i] inj [OF root firmwareD(1) [OF fw] i] firmwareD(2) [OF fw] by cases metis+
  qed
  then show ?thesis using i cp root by (auto simp: move_all_def E copied_def)
qed

lemma moved_middle_entry:
  assumes r: "regions_ok n d len" and fw: "firmware_tables d len m root" and cp: "copied n d len m m0"
    and i: "i < 512" "in_use m root i" and j: "j < 512"
  defines "p \<equiv> next_of m root i"
  shows "moved_memory n d m0 root (old_addr_to_new_map n d p + 8 * of_nat j) =
    (if tabled m p j then moved n d (m (p + 8 * of_nat j)) else m (p + 8 * of_nat j))"
proof -
  let ?f = "old_addr_to_new_map n d" and ?E = "pml4_entries n d m0 (old_addr_to_new_map n d root) {..<512}"
  have root: "in_region d len root" using fw by (simp add: firmware_tables_def)
  note inj = shift_entry_inj [OF r] and E = moved_entries_eq [OF r fw cp] and p = firmwareD [OF fw i, folded p_def]
  have "tabled m p j" if "?f p + 8 * of_nat j \<in> ?E"
  proof -
    from that consider i' where "i' < 512" "in_use m root i'" "?f p + 8 * of_nat j = ?f root + 8 * of_nat i'"
      | i' j' where "i' < 512" "in_use m root i'" "j' < 512" "tabled m (next_of m root i') j'"
          "?f p + 8 * of_nat j = ?f (next_of m root i') + 8 * of_nat j'"
      unfolding E by blast
    then show ?thesis
    proof cases
      case 1
      then show ?thesis using inj [OF p(1) root j] p(2) by blast
    next
      case (2 i' j')
      then have "p = next_of m root i' \<and> j = j'" using inj [OF p(1) firmwareD(1) [OF fw] j] by blast
      then show ?thesis using 2(4) by simp
    qed
  qed
  moreover have "?f p + 8 * of_nat j \<in> ?E" if "tabled m p j" using that i j unfolding E p_def by blast
  moreover have "m0 (?f p + 8 * of_nat j) = m (p + 8 * of_nat j)" using cp p(1) j by (simp add: copied_def)
  ultimately show ?thesis by (simp add: move_all_def)
qed

lemma moved_bottom_entry:
  assumes r: "regions_ok n d len" and fw: "firmware_tables d len m root" and cp: "copied n d len m m0"
    and i: "i < 512" "in_use m root i" and j: "j < 512" "tabled m (next_of m root i) j" and k: "k < 512"
  defines "q \<equiv> next_of m (next_of m root i) j"
  shows "moved_memory n d m0 root (old_addr_to_new_map n d q + 8 * of_nat k) = m (q + 8 * of_nat k)"
proof -
  let ?E = "pml4_entries n d m0 (old_addr_to_new_map n d root) {..<512}"
  have root: "in_region d len root" using fw by (simp add: firmware_tables_def)
  note inj = shift_entry_inj [OF r] and q = firmwareD(4-6) [OF fw i j, folded q_def]
  have "old_addr_to_new_map n d q + 8 * of_nat k \<notin> ?E"
    unfolding moved_entries_eq [OF r fw cp] using inj [OF q(1) root k] inj [OF q(1) firmwareD(1) [OF fw] k] q(2,3) by blast
  then show ?thesis using cp q(1) k by (simp add: move_all_def copied_def)
qed

lemma moved_outside:
  assumes r: "regions_ok n d len" and fw: "firmware_tables d len m root" and cp: "copied n d len m m0" and a: "a \<notin> copy_area n len"
  shows "moved_memory n d m0 root a = m a"
proof -
  have "old_addr_to_new_map n d p + 8 * of_nat x \<in> copy_area n len" if "in_region d len p" "x < 512" for p x
    by (rule region_entry [OF r shift_region [OF r that(1)] that(2)])
  moreover have "in_region d len root" using fw by (simp add: firmware_tables_def)
  ultimately have "a \<notin> pml4_entries n d m0 (old_addr_to_new_map n d root) {..<512}"
    using a firmwareD(1) [OF fw] unfolding moved_entries_eq [OF r fw cp] by blast
  then show ?thesis using cp a by (simp add: move_all_def copied_def)
qed

text \<open>The same, level by level.\<close>

lemma moved_region_bits:
  assumes "regions_ok n d len" and "in_region d len (v AND ADDR_MASK)"
  shows "moved n d v AND ADDR_MASK = old_addr_to_new_map n d (v AND ADDR_MASK)" "moved n d v AND PRESENT_FLAG = v AND PRESENT_FLAG"
    "moved n d v AND PAGE_SIZE_FLAG = v AND PAGE_SIZE_FLAG"
  using moved_bits [of n d v] shift_region [OF assms] by (simp_all add: in_region_def)

lemma moved_levels:
  assumes r: "regions_ok n d len" and fw: "firmware_tables d len m root" and cp: "copied n d len m m0"
    and i: "i < 512" and j: "j < 512"
  defines "f \<equiv> old_addr_to_new_map n d" and "M \<equiv> moved_memory n d m0 root"
  shows "in_use M (f root) i = in_use m root i"
    "in_use m root i \<Longrightarrow> next_of M (f root) i = f (next_of m root i)"
    "in_use m root i \<Longrightarrow> in_use M (f (next_of m root i)) j = in_use m (next_of m root i) j"
    "in_use m root i \<Longrightarrow> M (f (next_of m root i) + 8 * of_nat j) AND PAGE_SIZE_FLAG = m (next_of m root i + 8 * of_nat j) AND PAGE_SIZE_FLAG"
    "in_use m root i \<Longrightarrow> \<not> tabled m (next_of m root i) j \<Longrightarrow>
       M (f (next_of m root i) + 8 * of_nat j) = m (next_of m root i + 8 * of_nat j)"
    "in_use m root i \<Longrightarrow> tabled m (next_of m root i) j \<Longrightarrow> next_of M (f (next_of m root i)) j = f (next_of m (next_of m root i) j)"
    "in_use m root i \<Longrightarrow> tabled m (next_of m root i) j \<Longrightarrow> k < 512 \<Longrightarrow>
       M (f (next_of m (next_of m root i) j) + 8 * of_nat k) = m (next_of m (next_of m root i) j + 8 * of_nat k)"
proof -
  note e1 = moved_top_entry [OF r fw cp i, folded f_def M_def]
  have b1: "moved n d (m (root + 8 * of_nat i)) AND ADDR_MASK = f (next_of m root i)"
    "moved n d (m (root + 8 * of_nat i)) AND PRESENT_FLAG = m (root + 8 * of_nat i) AND PRESENT_FLAG" if "in_use m root i"
    using moved_region_bits [OF r, of "m (root + 8 * of_nat i)"] firmwareD(1) [OF fw i that] by (simp_all add: next_of_def f_def)
  show "in_use M (f root) i = in_use m root i" using b1(2) by (auto simp: in_use_def e1)
  show "next_of M (f root) i = f (next_of m root i)" if u: "in_use m root i" using b1(1) [OF u] u by (simp add: next_of_def [of M] e1)
  assume u: "in_use m root i"
  let ?p = "next_of m root i"
  note e2 = moved_middle_entry [OF r fw cp i u j, folded f_def M_def]
  have b2: "moved n d (m (?p + 8 * of_nat j)) AND ADDR_MASK = f (next_of m ?p j)"
    "moved n d (m (?p + 8 * of_nat j)) AND PRESENT_FLAG = m (?p + 8 * of_nat j) AND PRESENT_FLAG"
    "moved n d (m (?p + 8 * of_nat j)) AND PAGE_SIZE_FLAG = m (?p + 8 * of_nat j) AND PAGE_SIZE_FLAG" if "tabled m ?p j"
    using moved_region_bits [OF r, of "m (?p + 8 * of_nat j)"] firmwareD(4) [OF fw i u j that] by (simp_all add: next_of_def f_def)
  show "in_use M (f ?p) j = in_use m ?p j" using b2(2) by (auto simp: in_use_def e2)
  show "M (f ?p + 8 * of_nat j) AND PAGE_SIZE_FLAG = m (?p + 8 * of_nat j) AND PAGE_SIZE_FLAG" using b2(3) by (simp add: e2)
  show "M (f ?p + 8 * of_nat j) = m (?p + 8 * of_nat j)" if "\<not> tabled m ?p j" using that by (simp add: e2)
  assume t: "tabled m ?p j"
  show "next_of M (f ?p) j = f (next_of m ?p j)" using b2(1) t by (simp add: next_of_def [of M] e2)
  show "M (f (next_of m ?p j) + 8 * of_nat k) = m (next_of m ?p j + 8 * of_nat k)" if "k < 512"
    unfolding f_def M_def by (rule moved_bottom_entry [OF r fw cp i u j t that])
qed

text \<open>Every page has the same leaf entry at the same level.\<close>

lemma leaf_entry_moved:
  assumes r: "regions_ok n d len" and fw: "firmware_tables d len m root" and cp: "copied n d len m m0"
    and last: "last_level_outside n len m root" and i: "i < 512" and j: "j < 512" and k: "k < 512" and l: "l < 512"
  shows "leaf_entry (moved_memory n d m0 root) (old_addr_to_new_map n d root) i j k l = leaf_entry m root i j k l"
proof (cases "in_use m root i")
  case False
  then show ?thesis using moved_levels(1) [OF r fw cp i j] by (simp add: leaf_entry_def)
next
  case u: True
  note L = moved_levels [OF r fw cp i j]
  show ?thesis
  proof (cases "tabled m (next_of m root i) j")
    case False
    then show ?thesis
      using L(1-5) u by (auto simp: leaf_entry_def Let_def tabled_def in_use_def)
  next
    case t: True
    let ?f = "old_addr_to_new_map n d" and ?pd = "next_of m (next_of m root i) j"
    let ?M = "moved_memory n d m0 root"
    have pd: "?M (?f ?pd + 8 * of_nat k) = m (?pd + 8 * of_nat k)" by (rule L(7) [OF u t k])
    then have pt: "next_of ?M (?f ?pd) k = next_of m ?pd k" "in_use ?M (?f ?pd) k = in_use m ?pd k"
      by (simp_all add: next_of_def in_use_def)
    have "?M (next_of m ?pd k + 8 * of_nat l) = m (next_of m ?pd k + 8 * of_nat l)"
      if "in_use m ?pd k" "m (?pd + 8 * of_nat k) AND PAGE_SIZE_FLAG = 0"
    proof (rule moved_outside [OF r fw cp])
      show "next_of m ?pd k + 8 * of_nat l \<notin> copy_area n len"
        using last i j k l u t that unfolding last_level_outside_def by blast
    qed
    then show ?thesis
      using L(2-4) [OF u] L(1) L(6) [OF u t] u t pd pt by (auto simp: leaf_entry_def Let_def tabled_def in_use_def)
  qed
qed

section \<open>init_virtual_mapping\<close>

text \<open>The tables of the upper three levels.\<close>

definition upper_tables :: "(u64 \<Rightarrow> u64) \<Rightarrow> u64 \<Rightarrow> u64 set" where
  "upper_tables m root = insert root ({next_of m root i |i. i < 512 \<and> in_use m root i} \<union>
     {next_of m (next_of m root i) j |i j. i < 512 \<and> in_use m root i \<and> j < 512 \<and> tabled m (next_of m root i) j})"

lemma upper_region: "firmware_tables d len m root \<Longrightarrow> t \<in> upper_tables m root \<Longrightarrow> in_region d len t"
proof -
  assume fw: "firmware_tables d len m root" and "t \<in> upper_tables m root"
  then consider "t = root" | i where "i < 512" "in_use m root i" "t = next_of m root i"
    | i j where "i < 512" "in_use m root i" "j < 512" "tabled m (next_of m root i) j" "t = next_of m (next_of m root i) j"
    unfolding upper_tables_def by blast
  then show ?thesis using fw firmwareD(1,4) [OF fw] by cases (simp_all add: firmware_tables_def)
qed

lemma page_end:
  fixes h :: u64
  assumes "unat h < 2 ^ 53"
  shows "unat (0x1000 + h - h mod 0x1000) = 4096 * (unat h div 4096) + 4096"
proof -
  have "0x1000 + h - h mod 0x1000 = (h - h mod 0x1000) + 0x1000" by simp
  moreover have "unat (h - h mod 0x1000) = 4096 * (unat h div 4096)" by (rule unat_page_base)
  moreover have "4096 * (unat h div 4096) \<le> unat h" by simp
  ultimately show ?thesis using assms by (simp only:) (subst unat_add_no_wrap; simp)
qed

text \<open>Every address the move visits is an entry of a copied table, and so in the region of the copy.\<close>

lemma visited_tables:
  assumes r: "regions_ok n d len" and fw: "firmware_tables d len m root" and cp: "copied n d len m m0"
    and a: "a \<in> pml4_addrs n d m0 (old_addr_to_new_map n d root) {..<512}"
  obtains t x where "t \<in> upper_tables m root" "x < 512" "a = old_addr_to_new_map n d t + 8 * of_nat x"
proof -
  let ?f = "old_addr_to_new_map n d"
  have root: "in_region d len root" using fw by (simp add: firmware_tables_def)
  from a consider i where "i < 512" "a = ?f root + 8 * of_nat i"
    | i j where "i < 512" "in_use m root i" "j < 512" "a = ?f (next_of m root i) + 8 * of_nat j"
    | i j k where "i < 512" "in_use m root i" "j < 512" "tabled m (next_of m root i) j" "k < 512"
        "a = ?f (next_of m (next_of m root i) j) + 8 * of_nat k"
    using copied_entries(1) [OF cp root] by (auto simp: pml4_addrs_def pdp_addrs_def copied_children [OF r fw cp])
  then show ?thesis
  proof cases
    case 1
    then show ?thesis using that [of root] by (simp add: upper_tables_def)
  next
    case (2 i j)
    then have "next_of m root i \<in> upper_tables m root" unfolding upper_tables_def by blast
    then show ?thesis using 2(3,4) by (rule that)
  next
    case (3 i j k)
    then have "next_of m (next_of m root i) j \<in> upper_tables m root" unfolding upper_tables_def by blast
    then show ?thesis using 3(5,6) by (rule that)
  qed
qed

lemma visited_area:
  assumes r: "regions_ok n d len" and fw: "firmware_tables d len m root" and cp: "copied n d len m m0"
  shows "pml4_addrs n d m0 (old_addr_to_new_map n d root) {..<512} \<subseteq> copy_area n len"
  using visited_tables [OF r fw cp] region_entry [OF r shift_region [OF r upper_region [OF fw]]] by blast

text \<open>A table with an entry in use is below the page after the highest address visited.\<close>

definition page_after :: "u64 \<Rightarrow> u64" where
  "page_after h = 0x1000 + h - h mod 0x1000"

lemma table_below_next:
  assumes r: "regions_ok n d len" and cp: "copied n d len m m0" and h: "unat h < 2 ^ 53"
    and t: "in_region d len t" "below m0 (old_addr_to_new_map n d t) {..<512} h" "k < 512" "in_use m t k"
  shows "unat (old_addr_to_new_map n d t) + 4096 \<le> unat (page_after h)"
proof -
  let ?t = "old_addr_to_new_map n d t"
  have page: "is_page ?t" using shift_region [OF r t(1)] by (simp add: in_region_def)
  have "?t + 8 * of_nat k \<le> h" using t copied_entries(1) [OF cp t(1,3)] by (simp add: below_def in_use_def)
  then have "unat ?t \<le> unat h" using table_entry_unat [OF page t(3)] by (simp add: word_le_nat_alt)
  moreover obtain c where "unat ?t = 4096 * c" using is_page_bounds [OF page] by auto
  ultimately show ?thesis unfolding page_after_def page_end [OF h] by (simp add: less_eq_div_iff_mult_less_eq)
qed

text \<open>The count of the pages that are left does not go past the region.\<close>

lemma whole_pages: "4096 dvd unat (push_bit 12 (w :: u64))"
proof -
  have "unat (push_bit 12 w) = (4096 * unat w) mod 2 ^ 64"
    by (simp add: push_bit_eq_mult unat_word_ariths mult.commute)
  then show ?thesis by (simp add: dvd_mod)
qed

lemma pages_left:
  fixes sz :: u64
  assumes r: "regions_ok n d (unat sz)" and h: "h \<in> insert 0 (copy_area n (unat sz))" and sz: "4096 dvd unat sz" "0 < unat sz"
  shows "unat (page_after h) + 4096 * unat (drop_bit 12 (n + sz - page_after h)) = unat n + unat sz"
proof -
  have "unat n + unat sz \<le> 2 ^ 52" "4096 dvd unat n" using r is_page_bounds by (auto simp: regions_ok_def)
  then have e: "unat (n + sz) = unat n + unat sz" by (intro unat_add_no_wrap) simp
  have h': "unat h < unat n + unat sz" using h sz(2) by (auto simp: copy_area_def)
  then have p: "unat (page_after h) = 4096 * (unat h div 4096) + 4096"
    unfolding page_after_def using \<open>unat n + unat sz \<le> 2 ^ 52\<close> by (intro page_end) simp
  obtain q where q: "unat n + unat sz = 4096 * q" using \<open>4096 dvd unat n\<close> sz(1) by (metis dvd_add dvdE)
  then have "unat h div 4096 < q" using h' by (simp add: less_mult_imp_div_less mult.commute)
  then have le: "unat (page_after h) \<le> unat n + unat sz" unfolding p q by simp
  then have "unat (n + sz - page_after h) = unat n + unat sz - unat (page_after h)"
    by (simp add: unat_sub word_le_nat_alt e)
  moreover have "4096 dvd unat n + unat sz - unat (page_after h)" unfolding p q by (simp add: dvd_diff_nat)
  ultimately show ?thesis using le by (simp add: unat_drop_bit_div)
qed

text \<open>The page after the highest address visited comes right after a copied table.\<close>

lemma next_after_table:
  assumes r: "regions_ok n d len" and fw: "firmware_tables d len m root" and cp: "copied n d len m m0"
    and h: "h \<in> insert 0 (pml4_addrs n d m0 (old_addr_to_new_map n d root) {..<512})"
  shows "unat (page_after h) = 4096 \<or> (\<exists>t \<in> upper_tables m root. unat (page_after h) = unat (old_addr_to_new_map n d t) + 4096)"
proof (cases "h = 0")
  case False
  then obtain t x where t: "t \<in> upper_tables m root" "x < 512" "h = old_addr_to_new_map n d t + 8 * of_nat x"
    using visited_tables [OF r fw cp] h by blast
  have page: "is_page (old_addr_to_new_map n d t)" using shift_region [OF r upper_region [OF fw t(1)]] by (simp add: in_region_def)
  obtain q where q: "unat (old_addr_to_new_map n d t) = 4096 * q" using is_page_bounds [OF page] by auto
  have uh: "unat h = 4096 * q + 8 * x" unfolding t(3) using table_entry_unat [OF page t(2)] q by simp
  moreover have "unat h < 2 ^ 53" using uh is_page_bounds [OF page] q t(2) by simp
  ultimately have "unat (page_after h) = 4096 * q + 4096" using page_end [of h] t(2) by (simp add: page_after_def)
  then show ?thesis using t(1) q by metis
qed (simp add: page_after_def)

lemma upper_below:
  assumes r: "regions_ok n d len" and fw: "firmware_tables d len m root" and cp: "copied n d len m m0"
    and fin: "pml4_done n d m0 (old_addr_to_new_map n d root) {} {..<512} s (s1, h)" and t: "t \<in> upper_tables m root"
  shows "below m0 (old_addr_to_new_map n d t) {..<512} h"
proof -
  have root: "in_region d len root" using fw by (simp add: firmware_tables_def)
  note use = copied_entries(1) [OF cp root] and ch = copied_children [OF r fw cp]
  from t consider "t = root" | i where "i < 512" "in_use m root i" "t = next_of m root i"
    | i j where "i < 512" "in_use m root i" "j < 512" "tabled m (next_of m root i) j" "t = next_of m (next_of m root i) j"
    unfolding upper_tables_def by blast
  then show ?thesis
  proof cases
    case 1
    then show ?thesis using fin by (simp add: pml4_done_def)
  next
    case 2
    then show ?thesis using fin ch(1) use by (simp add: pml4_done_def)
  next
    case 3
    then show ?thesis using fin ch use by (simp add: pml4_done_def)
  qed
qed

lemma copy_tables_base: "mapping_base_address (copy_tables n d len st) = mapping_base_address st"
proof -
  have "mapping_base_address (fold (\<lambda>i st. store (a i) (b i st) st) is s) = mapping_base_address s" for a b s and "is" :: "nat list"
    by (induction "is" arbitrary: s) (simp_all add: store_def)
  then show ?thesis by (simp add: copy_tables_def)
qed

text \<open>The loops of the move, run on the copy.\<close>

lemma move_pml4_copied:
  assumes r: "regions_ok n d len" and fw: "firmware_tables d len m root" and cp: "copied n d len m (words s0)"
    and run: "move_pml4 n d (old_addr_to_new_map n d root) [0..<512] (s0, 0) = (s1, h)"
  shows "pml4_done n d (words s0) (old_addr_to_new_map n d root) {} {..<512} (s0, 0) (s1, h)" "unat h < 2 ^ 53"
    "h \<in> insert 0 (copy_area n len)"
    "h \<in> insert 0 (pml4_addrs n d (words s0) (old_addr_to_new_map n d root) {..<512})"
proof -
  let ?t = "old_addr_to_new_map n d root"
  have w: "words s0 = move_all n d (pml4_entries n d (words s0) ?t {}) (words s0)"
    by (simp add: pml4_entries_def move_all_def fun_eq_iff)
  from move_pml4_ok [OF firmware_apart [OF r fw cp] _ _ _ _ w, of "[0..<512]" 0]
  show fin: "pml4_done n d (words s0) ?t {} {..<512} (s0, 0) (s1, h)"
    unfolding run by (simp add: atLeast0LessThan pml4_entries_def)
  then show area: "h \<in> insert 0 (copy_area n len)" using visited_area [OF r fw cp] by (auto simp: pml4_done_def)
  show "h \<in> insert 0 (pml4_addrs n d (words s0) ?t {..<512})" using fin by (auto simp: pml4_done_def)
  show "unat h < 2 ^ 53" using area r by (auto simp: copy_area_def regions_ok_def)
qed

lemma move_tables_core:
  assumes r: "regions_ok n d (unat (push_bit 12 pages))" and fw: "firmware_tables d (unat (push_bit 12 pages)) (words st) reg"
    and last: "last_level_outside n (unat (push_bit 12 pages)) (words st) reg"
  obtains st' m0 where "move_tables reg n d pages st = (old_addr_to_new_map n d reg, st')" "pml4 st' = old_addr_to_new_map n d reg"
    "\<And>i j k l. i < 512 \<Longrightarrow> j < 512 \<Longrightarrow> k < 512 \<Longrightarrow> l < 512 \<Longrightarrow>
       leaf_entry (words st') (pml4 st') i j k l = leaf_entry (words st) reg i j k l"
    "\<And>a. a \<notin> copy_area n (unat (push_bit 12 pages)) \<Longrightarrow> words st' a = words st a" "mapping_base_address st' = n"
    "\<And>t k. t \<in> upper_tables (words st) reg \<Longrightarrow> k < 512 \<Longrightarrow> in_use (words st) t k \<Longrightarrow>
       unat (old_addr_to_new_map n d t) + 4096 \<le> unat (next_available_mapping_page st')"
    "4096 dvd unat (next_available_mapping_page st')"
    "copied n d (unat (push_bit 12 pages)) (words st) m0" "words st' = moved_memory n d m0 reg"
    "unat (next_available_mapping_page st') + 4096 * unat (available_mapping_page_count st') = unat n + unat (push_bit 12 pages)"
    "unat (next_available_mapping_page st') = 4096 \<or>
       (\<exists>t \<in> upper_tables (words st) reg. unat (next_available_mapping_page st') = unat (old_addr_to_new_map n d t) + 4096)"
proof -
  let ?f = "old_addr_to_new_map n d" and ?size = "push_bit 12 pages" and ?len = "unat (push_bit 12 pages)" and ?m = "words st"
  define s0 where "s0 = copy_tables n d ?size (st\<lparr>mapping_base_address := n\<rparr>)"
  have cp: "copied n d ?len ?m (words s0)"
    using copy_tables_words [OF r, where st = "st\<lparr>mapping_base_address := n\<rparr>"] by (simp add: copied_def s0_def)
  have root: "in_region d ?len reg" using fw by (simp add: firmware_tables_def)
  have table: "n + reg - d = ?f reg" by (simp add: old_addr_to_new_map_def)
  have reg: "reg AND ADDR_MASK = reg" "?f reg AND ADDR_MASK = ?f reg"
    using root shift_region [OF r root] by (simp_all add: in_region_def is_page_def)
  have "reg AND NOT ADDR_MASK = (reg AND ADDR_MASK) AND NOT ADDR_MASK" by (simp only: reg)
  also have "\<dots> = 0" by (simp add: and.assoc)
  finally have low: "reg AND NOT ADDR_MASK = 0" .
  obtain s1 h where s1: "move_pml4 n d (?f reg) [0..<512] (s0, 0) = (s1, h)" by fastforce
  note fin = move_pml4_copied [OF r fw cp s1]
  have w: "words s1 = moved_memory n d (words s0) reg" using fin(1) by (simp add: pml4_done_def)
  define st' where "st' = s1\<lparr>next_available_mapping_page := page_after h,
      available_mapping_page_count := drop_bit 12 (n + ?size - page_after h), pml4 := ?f reg\<rparr>"
  have mv: "move_tables reg n d pages st = (?f reg, st')"
    unfolding move_tables_def Let_def s0_def [symmetric] table s1 reg low by (simp add: st'_def table page_after_def)
  have leaf: "leaf_entry (words st') (pml4 st') i j k l = leaf_entry ?m reg i j k l" if "i < 512" "j < 512" "k < 512" "l < 512" for i j k l
    using leaf_entry_moved [OF r fw cp last that] w by (simp add: st'_def)
  have out: "words st' a = ?m a" if "a \<notin> copy_area n ?len" for a
    using moved_outside [OF r fw cp that] w by (simp add: st'_def)
  show ?thesis
  proof (rule that [OF mv _ leaf out _ _ _ cp])
    show "unat (next_available_mapping_page st') = 4096 \<or>
        (\<exists>t \<in> upper_tables ?m reg. unat (next_available_mapping_page st') = unat (?f t) + 4096)"
      using next_after_table [OF r fw cp fin(4)] by (simp add: st'_def)
    show "unat (next_available_mapping_page st') + 4096 * unat (available_mapping_page_count st') = unat n + ?len"
      using pages_left [OF r fin(3) whole_pages] root by (simp add: st'_def in_region_def)
    show "words st' = moved_memory n d (words s0) reg" using w by (simp add: st'_def)
    show "pml4 st' = ?f reg" by (simp add: st'_def)
    show "mapping_base_address st' = n"
      using fin(1) by (simp add: st'_def pml4_done_def rest_same_def s0_def copy_tables_base)
    show "unat (?f t) + 4096 \<le> unat (next_available_mapping_page st')"
      if "t \<in> upper_tables ?m reg" "k < 512" "in_use ?m t k" for t k
      using table_below_next [OF r cp fin(2) upper_region [OF fw that(1)] upper_below [OF r fw cp fin(1) that(1)] that(2,3)]
      by (simp add: st'_def)
    show "4096 dvd unat (next_available_mapping_page st')" using page_end [OF fin(2)] by (simp add: st'_def page_after_def)
  qed
qed

section \<open>The window\<close>

text \<open>No table below the top one is the top one.\<close>

definition root_apart :: "(u64 \<Rightarrow> u64) \<Rightarrow> u64 \<Rightarrow> bool" where
  "root_apart m root \<longleftrightarrow> is_page root \<and> (\<forall>i < 512. in_use m root i \<longrightarrow> next_of m root i \<noteq> root \<and>
     (\<forall>j < 512. tabled m (next_of m root i) j \<longrightarrow> next_of m (next_of m root i) j \<noteq> root \<and>
       (\<forall>k < 512. in_use m (next_of m (next_of m root i) j) k \<longrightarrow>
          m (next_of m (next_of m root i) j + 8 * of_nat k) AND PAGE_SIZE_FLAG = 0 \<longrightarrow>
          next_of m (next_of m (next_of m root i) j) k \<noteq> root)))"

lemma next_of_page: "is_page (next_of m t i)"
  by (simp add: next_of_def)

lemma leaf_entry_root:
  assumes ap: "root_apart m root" and off: "\<And>a. (\<And>i. i < 512 \<Longrightarrow> a \<noteq> root + 8 * of_nat i) \<Longrightarrow> m' a = m a"
    and same: "in_use m' root x = in_use m root i" "in_use m root i \<Longrightarrow> next_of m' root x = next_of m root i"
    and ind: "i < 512" "j < 512" "k < 512" "l < 512"
  shows "leaf_entry m' root x j k l = leaf_entry m root i j k l"
proof (cases "in_use m root i")
  case u: True
  have other: "m' (t + 8 * of_nat y) = m (t + 8 * of_nat y)" if "is_page t" "t \<noteq> root" "y < 512" for t y
  proof (rule off)
    show "t + 8 * of_nat y \<noteq> root + 8 * of_nat i" if "i < 512" for i
      using table_entry_inj [OF \<open>is_page t\<close> _ \<open>y < 512\<close> that] ap \<open>t \<noteq> root\<close> by (auto simp: root_apart_def)
  qed
  let ?p = "next_of m root i"
  have p: "?p \<noteq> root" using ap ind(1) u by (simp add: root_apart_def)
  note p' = other [OF next_of_page p ind(2)]
  show ?thesis
  proof (cases "tabled m ?p j")
    case False
    then show ?thesis using same u p' by (auto simp: leaf_entry_def Let_def tabled_def in_use_def)
  next
    case t: True
    let ?q = "next_of m ?p j"
    have q: "?q \<noteq> root" using ap ind(1,2) u t by (simp add: root_apart_def)
    note q' = other [OF next_of_page q ind(3)]
    have "next_of m' ?p j = ?q" "in_use m' ?p j = in_use m ?p j" using p' by (simp_all add: next_of_def in_use_def)
    moreover have "next_of m' ?q k = next_of m ?q k" "in_use m' ?q k = in_use m ?q k" using q' by (simp_all add: next_of_def in_use_def)
    moreover have "m' (next_of m ?q k + 8 * of_nat l) = m (next_of m ?q k + 8 * of_nat l)"
      if "in_use m ?q k" "m (?q + 8 * of_nat k) AND PAGE_SIZE_FLAG = 0"
      using ap ind u t that by (intro other [OF next_of_page _ ind(4)]) (simp add: root_apart_def)
    ultimately show ?thesis using same u p' q' by (auto simp: leaf_entry_def Let_def in_use_def)
  qed
qed (use same in \<open>simp add: leaf_entry_def Let_def\<close>)

lemma copy_window_words:
  assumes t: "is_page table" and s: "count \<le> s" "s + count \<le> 512"
  shows "c \<le> count \<Longrightarrow> words (copy_window table (of_nat s) c st) =
    (\<lambda>a. if \<exists>i < c. a = table + 8 * of_nat (s + i)
      then (words st (a - 8 * of_nat s) AND ADDR_MASK) OR (PRESENT_FLAG OR WRITABLE_FLAG) else words st a)"
proof (induction c)
  case (Suc c)
  let ?e = "table + 8 * of_nat (s + c)"
  have e: "table + 8 * (of_nat c + of_nat s) = ?e" by (simp add: algebra_simps)
  have "words (copy_window table (of_nat s) c st) (table + 8 * of_nat c) = words st (table + 8 * of_nat c)"
  proof -
    have "table + 8 * of_nat c \<noteq> table + 8 * of_nat (s + i)" if "i < c" for i
      using table_entry_inj [OF t t, of c "s + i"] that Suc.prems s by auto
    then show ?thesis using Suc by (simp del: of_nat_add) blast
  qed
  then have upd: "words (copy_window table (of_nat s) (Suc c) st) = (words (copy_window table (of_nat s) c st))
      (?e := (words st (table + 8 * of_nat c) AND ADDR_MASK) OR (PRESENT_FLAG OR WRITABLE_FLAG))"
    by (simp add: copy_window_def Let_def store_def e del: of_nat_add distrib_left_numeral)
  have shift_back: "?e - 8 * of_nat s = table + 8 * of_nat c" by (simp add: algebra_simps)
  have step: "words (copy_window table (of_nat s) (Suc c) st) a = (if a = ?e
      then (words st (a - 8 * of_nat s) AND ADDR_MASK) OR (PRESENT_FLAG OR WRITABLE_FLAG)
      else words (copy_window table (of_nat s) c st) a)" for a
  proof (cases "a = ?e")
    case True
    then show ?thesis unfolding upd True shift_back by (simp only: fun_upd_same if_True)
  qed (simp only: upd fun_upd_apply if_False)
  show ?case
  proof
    fix a
    have "(\<exists>i < Suc c. a = table + 8 * of_nat (s + i)) \<longleftrightarrow> a = ?e \<or> (\<exists>i < c. a = table + 8 * of_nat (s + i))"
      unfolding less_Suc_eq by blast
    then show "words (copy_window table (of_nat s) (Suc c) st) a = (if \<exists>i < Suc c. a = table + 8 * of_nat (s + i)
        then (words st (a - 8 * of_nat s) AND ADDR_MASK) OR (PRESENT_FLAG OR WRITABLE_FLAG) else words st a)"
      unfolding step using Suc by (simp del: of_nat_add) blast
  qed
qed (simp add: copy_window_def)

lemma window_entry: "((v AND ADDR_MASK) OR (PRESENT_FLAG OR WRITABLE_FLAG)) AND PRESENT_FLAG \<noteq> 0"
  "((v AND ADDR_MASK) OR (PRESENT_FLAG OR WRITABLE_FLAG)) AND ADDR_MASK = v AND ADDR_MASK"
  using flags_bits [of "PRESENT_FLAG OR WRITABLE_FLAG" "v AND ADDR_MASK"] by (simp_all add: and.assoc or.commute)

lemma copy_window_rest: "copy_window table start count st = st\<lparr>words := words (copy_window table start count st)\<rparr>"
proof -
  have "\<exists>w. copy_window table start count st = st\<lparr>words := w\<rparr>"
  proof (induction count)
    case (Suc count)
    then obtain w where w: "copy_window table start count st = st\<lparr>words := w\<rparr>" by blast
    then show ?case unfolding copy_window_def by (simp add: store_def Let_def) blast
  qed (auto simp: copy_window_def intro: exI [of _ "words st"])
  then show ?thesis by auto
qed

lemma window_core:
  assumes ap: "root_apart (words st) (pml4 st)" and few: "pml4_entry_count st \<le> 255"
    and first: "\<forall>i < 512. in_use (words st) (pml4 st) i \<longleftrightarrow> i < pml4_entry_count st"
  obtains st' where "set_up_mapping wide MAPPING_TYPE_MAP_ALL (pml4 st) st =
      (OFFSETS_TO_ADDR (of_nat (511 - pml4_entry_count st)) 0 0 0, st')"
    "\<forall>i < pml4_entry_count st. \<forall>j < 512. \<forall>k < 512. \<forall>l < 512.
       leaf_entry (words st') (pml4 st) (511 - pml4_entry_count st + i) j k l = leaf_entry (words st) (pml4 st) i j k l"
    "\<forall>i < 512. i < 511 - pml4_entry_count st \<or> i = 511 \<longrightarrow> (\<forall>j < 512. \<forall>k < 512. \<forall>l < 512.
       leaf_entry (words st') (pml4 st) i j k l = leaf_entry (words st) (pml4 st) i j k l)"
    "\<forall>a. (\<forall>i < 512. a \<noteq> pml4 st + 8 * of_nat i) \<longrightarrow> words st' a = words st a"
    "\<forall>i < 512. i < 511 - pml4_entry_count st \<or> i = 511 \<longrightarrow> words st' (pml4 st + 8 * of_nat i) = words st (pml4 st + 8 * of_nat i)"
    "\<forall>i < pml4_entry_count st. words st' (pml4 st + 8 * of_nat (511 - pml4_entry_count st + i)) =
       (words st (pml4 st + 8 * of_nat i) AND ADDR_MASK) OR (PRESENT_FLAG OR WRITABLE_FLAG)"
    "st' = st\<lparr>words := words st'\<rparr>"
proof -
  define c where "c = pml4_entry_count st"
  define s where "s = 511 - c"
  have cs: "c \<le> s" "s + c \<le> 512" using few by (simp_all add: s_def c_def)
  have t: "is_page (pml4 st)" using ap by (simp add: root_apart_def)
  let ?st = "copy_window (pml4 st) (of_nat s) c st"
  note w = copy_window_words [OF t cs order_refl, of st]
  have "511 - of_nat c = (of_nat s :: u64)" using few by (simp add: s_def c_def of_nat_diff)
  then have set_up: "set_up_mapping wide MAPPING_TYPE_MAP_ALL (pml4 st) st = (OFFSETS_TO_ADDR (of_nat s) 0 0 0, ?st)"
    by (simp add: set_up_mapping_def Let_def c_def [symmetric])
  have off: "words ?st a = words st a" if "\<And>i. i < 512 \<Longrightarrow> a \<noteq> pml4 st + 8 * of_nat i" for a
  proof -
    have "a \<noteq> pml4 st + 8 * of_nat (s + i)" if "i < c" for i using \<open>\<And>i. i < 512 \<Longrightarrow> a \<noteq> pml4 st + 8 * of_nat i\<close> [of "s + i"] that cs by simp
    then show ?thesis unfolding w by (simp del: of_nat_add) blast
  qed
  have inside: "words ?st (pml4 st + 8 * of_nat (s + i)) = (words st (pml4 st + 8 * of_nat i) AND ADDR_MASK) OR (PRESENT_FLAG OR WRITABLE_FLAG)"
    if "i < c" for i
  proof -
    have "pml4 st + 8 * of_nat (s + i) - 8 * of_nat s = pml4 st + 8 * of_nat i" by (simp add: algebra_simps)
    moreover have "\<exists>i' < c. pml4 st + 8 * of_nat (s + i) = pml4 st + 8 * of_nat (s + i')" using that by blast
    ultimately show ?thesis unfolding w by (simp only: if_True)
  qed
  have outside: "words ?st (pml4 st + 8 * of_nat i) = words st (pml4 st + 8 * of_nat i)" if "i < 512" "i < s \<or> i = 511" for i
  proof -
    have "pml4 st + 8 * of_nat i \<noteq> pml4 st + 8 * of_nat (s + i')" if "i' < c" for i'
    proof -
      have "s + i' < 511" using that cs unfolding s_def by linarith
      moreover from this have "i \<noteq> s + i'" using \<open>i < s \<or> i = 511\<close> by linarith
      ultimately show ?thesis using table_entry_inj [OF t t \<open>i < 512\<close>, of "s + i'"] by auto
    qed
    then show ?thesis unfolding w by (simp del: of_nat_add) blast
  qed
  have win: "leaf_entry (words ?st) (pml4 st) (s + i) j k l = leaf_entry (words st) (pml4 st) i j k l"
    if "i < c" "j < 512" "k < 512" "l < 512" for i j k l
  proof (rule leaf_entry_root [OF ap off _ _ _ that(2-4)])
    show "i < 512" using that(1) few by (simp add: c_def)
    then show "in_use (words ?st) (pml4 st) (s + i) = in_use (words st) (pml4 st) i"
      using first that(1) inside [OF that(1)] window_entry(1) by (simp add: in_use_def c_def del: of_nat_add)
    show "next_of (words ?st) (pml4 st) (s + i) = next_of (words st) (pml4 st) i"
      unfolding next_of_def inside [OF that(1)] by (rule window_entry(2))
  qed
  have rest: "leaf_entry (words ?st) (pml4 st) i j k l = leaf_entry (words st) (pml4 st) i j k l"
    if "i < 512" "i < s \<or> i = 511" "j < 512" "k < 512" "l < 512" for i j k l
    using outside [OF that(1,2)] by (intro leaf_entry_root [OF ap off _ _ that(1,3-5)]) (simp_all add: in_use_def next_of_def)
  show ?thesis
    using that [of ?st] set_up win rest off inside outside copy_window_rest [of "pml4 st" "of_nat s" c st]
    unfolding c_def [symmetric] s_def [symmetric] by blast
qed

text \<open>With the mapping type of the bootloader, and the entries in use the first ones of the top table
  and at most 255, every page of the first half of the address space that is mapped is mapped a second
  time in the window, with the same leaf entry, at the address \<open>init_virtual_mapping\<close> reports; every
  page outside the window is mapped as before.\<close>

theorem window_ok:
  assumes ap: "root_apart (words st) (pml4 st)" and few: "pml4_entry_count st \<le> 255"
    and first: "\<forall>i < 512. in_use (words st) (pml4 st) i \<longleftrightarrow> i < pml4_entry_count st"
  shows "\<exists>st'. set_up_mapping wide MAPPING_TYPE_MAP_ALL (pml4 st) st =
      (OFFSETS_TO_ADDR (of_nat (511 - pml4_entry_count st)) 0 0 0, st') \<and>
    (\<forall>i < pml4_entry_count st. \<forall>j < 512. \<forall>k < 512. \<forall>l < 512.
       leaf_entry (words st') (pml4 st) (511 - pml4_entry_count st + i) j k l = leaf_entry (words st) (pml4 st) i j k l) \<and>
    (\<forall>i < 512. i < 511 - pml4_entry_count st \<or> i = 511 \<longrightarrow> (\<forall>j < 512. \<forall>k < 512. \<forall>l < 512.
       leaf_entry (words st') (pml4 st) i j k l = leaf_entry (words st) (pml4 st) i j k l))"
proof -
  obtain st' where "set_up_mapping wide MAPPING_TYPE_MAP_ALL (pml4 st) st =
      (OFFSETS_TO_ADDR (of_nat (511 - pml4_entry_count st)) 0 0 0, st')"
    "\<forall>i < pml4_entry_count st. \<forall>j < 512. \<forall>k < 512. \<forall>l < 512.
       leaf_entry (words st') (pml4 st) (511 - pml4_entry_count st + i) j k l = leaf_entry (words st) (pml4 st) i j k l"
    "\<forall>i < 512. i < 511 - pml4_entry_count st \<or> i = 511 \<longrightarrow> (\<forall>j < 512. \<forall>k < 512. \<forall>l < 512.
       leaf_entry (words st') (pml4 st) i j k l = leaf_entry (words st) (pml4 st) i j k l)"
    by (rule window_core [OF assms, of wide])
  then show ?thesis by blast
qed

text \<open>C9: after the tables have been moved, the new top table translates every address as the firmware's
  did: the same leaf entry, at the same level. Nothing outside the new region is written. The next
  page of the region begins above every table of the upper levels that has an entry in use.\<close>

theorem move_tables_ok:
  assumes "regions_ok new_map old_map (unat (push_bit 12 pages))"
    and "firmware_tables old_map (unat (push_bit 12 pages)) (words st) reg"
    and "last_level_outside new_map (unat (push_bit 12 pages)) (words st) reg"
  shows "\<exists>st'. move_tables reg new_map old_map pages st = (old_addr_to_new_map new_map old_map reg, st') \<and>
    pml4 st' = old_addr_to_new_map new_map old_map reg \<and>
    (\<forall>i < 512. \<forall>j < 512. \<forall>k < 512. \<forall>l < 512. leaf_entry (words st') (pml4 st') i j k l = leaf_entry (words st) reg i j k l) \<and>
    (\<forall>a. a \<notin> copy_area new_map (unat (push_bit 12 pages)) \<longrightarrow> words st' a = words st a) \<and>
    (\<forall>t \<in> upper_tables (words st) reg. (\<exists>k < 512. in_use (words st) t k) \<longrightarrow>
       unat (old_addr_to_new_map new_map old_map t) + 4096 \<le> unat (next_available_mapping_page st')) \<and>
    4096 dvd unat (next_available_mapping_page st')"
  by (rule move_tables_core [OF assms]) blast

text \<open>Three tables at \<open>0x40000\<close>, mapping the first 2 MiB with a large page.\<close>

definition small_tables :: "u64 \<Rightarrow> u64" where
  "small_tables = (\<lambda>_. 0)(0x40000 := 0x41003, 0x41000 := 0x42003, 0x42000 := 0x83)"

lemma small_table_pages: "is_page 0x40000" "is_page 0x41000" "is_page 0x42000" "is_page 0x80000"
  by (simp_all add: is_page_def ADDR_MASK_def)

lemma small_table_entry:
  assumes "p \<in> {0x40000, 0x41000, 0x42000}" "i < 512"
  shows "small_tables (p + 8 * of_nat i) = (if i = 0 then small_tables p else 0)"
proof (cases "i = 0")
  case False
  have "p + 8 * of_nat i \<noteq> q" if "q \<in> {0x40000, 0x41000, 0x42000}" for q
    using table_entry_inj [of p q i 0] assms that small_table_pages False by auto
  then show ?thesis using False by (simp add: small_tables_def)
qed simp

lemma small_table_values [simp]:
  "small_tables 0x40000 = 0x41003" "small_tables 0x41000 = 0x42003" "small_tables 0x42000 = 0x83"
  "next_of small_tables 0x40000 0 = 0x41000" "next_of small_tables 0x41000 0 = 0x42000" "(0x83 :: u64) AND PAGE_SIZE_FLAG \<noteq> 0"
  "(0x42003 :: u64) AND PAGE_SIZE_FLAG = 0"
  by (simp_all add: small_tables_def next_of_def ADDR_MASK_def PAGE_SIZE_FLAG_def)

lemma small_table_walk [simp]:
  assumes "i < 512"
  shows "in_use small_tables 0x40000 i \<longleftrightarrow> i = 0" "tabled small_tables 0x41000 i \<longleftrightarrow> i = 0"
    "in_use small_tables 0x41000 i \<longleftrightarrow> i = 0" "in_use small_tables 0x42000 i \<longleftrightarrow> i = 0"
  using small_table_entry [of _ i] assms by (simp_all add: in_use_def tabled_def PRESENT_FLAG_def)

lemma small_leaf: "leaf_entry small_tables 0x40000 0 0 0 l = Some (2, 0x83)"
  by (simp add: leaf_entry_def Let_def)

lemma small_firmware: "firmware_tables 0x40000 0x4000 small_tables 0x40000"
  using small_table_pages by (auto simp: firmware_tables_def in_region_def)

theorem move_tables_ok_witness:
  "\<exists>st'. move_tables 0x40000 0x80000 0x40000 4 (with_image small_tables) = (0x80000, st') \<and>
    leaf_entry (words st') (pml4 st') 0 0 0 0 = Some (2, 0x83) \<and> 0x83000 \<le> unat (next_available_mapping_page st')"
proof -
  have len: "unat (push_bit 12 (4 :: u64)) = 0x4000" by (simp add: push_bit_eq_mult)
  have w: "words (with_image small_tables) = small_tables" by (simp add: with_image_def)
  have r: "regions_ok 0x80000 0x40000 0x4000" using small_table_pages by (simp add: regions_ok_def)
  have last: "last_level_outside 0x80000 0x4000 small_tables 0x40000"
    by (auto simp: last_level_outside_def)
  have "0x42000 \<in> upper_tables small_tables 0x40000" "in_use small_tables 0x42000 0"
    by (auto simp: upper_tables_def intro!: exI [of _ 0])
  then show ?thesis
    using move_tables_ok [of "0x80000" "0x40000" 4 "with_image small_tables" "0x40000", unfolded len w, OF r small_firmware last]
    by (force simp: old_addr_to_new_map_def small_leaf)
qed

theorem window_ok_witness:
  "\<exists>st'. set_up_mapping 0 MAPPING_TYPE_MAP_ALL 0x40000 (with_image small_tables) = (0xFFFFFF0000000000, st') \<and>
    leaf_entry (words st') 0x40000 510 0 0 0 = Some (2, 0x83)"
proof -
  let ?st = "with_image small_tables"
  have w: "words ?st = small_tables" "pml4 ?st = 0x40000" by (simp_all add: with_image_def fresh_mem_def)
  have "filter (\<lambda>i. small_tables (0x40000 + 8 * of_nat i) AND PRESENT_FLAG \<noteq> 0) [0..<512] = filter (\<lambda>i. i = 0) [0..<512]"
    using small_table_walk(1) by (intro filter_cong) (simp_all add: in_use_def)
  also have "\<dots> = [0]"
  proof -
    have "[0..<512] = 0 # [Suc 0..<512]" by (rule upt_conv_Cons) simp
    moreover have "filter (\<lambda>i. i = 0) [Suc 0..<512] = []" by (rule filter_False) (auto simp only: set_upt atLeastLessThan_iff)
    ultimately show ?thesis by (simp only: filter.simps if_True simp_thms)
  qed
  finally have c: "pml4_entry_count ?st = 1" by (simp add: pml4_entry_count_def w)
  have ap: "root_apart (words ?st) (pml4 ?st)"
    using small_table_pages by (auto simp: root_apart_def w) 
  have "OFFSETS_TO_ADDR (of_nat 510) 0 0 0 = 0xFFFFFF0000000000" by code_simp
  then show ?thesis
    using window_ok [OF ap, of 0] small_leaf [of 0] by (force simp: c w)
qed
end
