(* ===== verification/Boot_Space.thy ===== *)
theory Boot_Space
  imports Boot_Tables Boot_Load
begin

text \<open>
  The address space in which the kernel starts: \<open>init_virtual_mapping\<close> and the loop over the segments, one
  after the other.

  The firmware's tables use large pages and the window shares its tables with them, so that the whole of
  memory is no tree of tables. The mapper never sees that part: the entries \<open>D\<close> of the top table whose indices
  the kernel does not use are hidden, the mapper is run on what is left, and that run is the real one.
\<close>

section \<open>Hidden words\<close>

definition hide :: "u64 set \<Rightarrow> uefi_mem \<Rightarrow> uefi_mem" where
  "hide D st = st\<lparr>words := (\<lambda>a. if a \<in> D then 0 else words st a)\<rparr>"

definition kept :: "u64 set \<Rightarrow> uefi_mem \<Rightarrow> uefi_mem \<Rightarrow> bool" where
  "kept D st st' \<longleftrightarrow> (\<forall>a \<in> D. words st' a = words st a)"

lemma hide_simps [simp]:
  "pml4 (hide D st) = pml4 st" "next_available_mapping_page (hide D st) = next_available_mapping_page st"
  "available_mapping_page_count (hide D st) = available_mapping_page_count st"
  "mapping_base_address (hide D st) = mapping_base_address st" "a \<notin> D \<Longrightarrow> words (hide D st) a = words st a"
  by (simp_all add: hide_def)

lemma kept_refl [simp]: "kept D st st"
  by (simp add: kept_def)

lemma kept_trans: "kept D a b \<Longrightarrow> kept D b c \<Longrightarrow> kept D a c"
  by (simp add: kept_def)

lemma hide_say [simp]: "say msg (hide D st) = hide D (say msg st)" "say_hex64 v (hide D st) = hide D (say_hex64 v st)"
  by (simp_all add: hide_def say_def say_hex64_def cong: if_cong)

lemma kept_say [simp]:
  "kept D st (say msg st') = kept D st st'" "kept D st (say_hex64 v st') = kept D st st'"
  "kept D (say msg st) st' = kept D st st'" "kept D (say_hex64 v st) st' = kept D st st'"
  by (simp_all add: say_def say_hex64_def kept_def)

lemma hide_store:
  assumes "a \<notin> D"
  shows "store a v (hide D st) = hide D (store a v st)" "kept D st (store a v st)"
  using assms by (cases st; auto simp: hide_def store_def kept_def fun_eq_iff)+

lemma hide_new_table:
  assumes "e \<notin> D" and "\<And>i. i < 512 \<Longrightarrow> next_available_mapping_page st + 8 * of_nat i \<notin> D"
  shows "new_table flags e (hide D st) = hide D (new_table flags e st)" "kept D st (new_table flags e st)"
  using assms by (cases st; auto simp: new_table_eq hide_def kept_def zero_upto_def fun_eq_iff)+

lemma hide_level:
  assumes "e \<notin> D" and "\<And>i. i < 512 \<Longrightarrow> next_available_mapping_page st + 8 * of_nat i \<notin> D"
  shows "level flags e (hide D st) = hide D (level flags e st)" "kept D st (level flags e st)"
  using hide_new_table [OF assms] assms(1) by (simp_all add: level_def)

lemma hide_top_level:
  assumes "e \<notin> D" and "\<And>i. i < 512 \<Longrightarrow> next_available_mapping_page st + 8 * of_nat i \<notin> D"
  shows "top_level e (hide D st) = hide D (top_level e st)" "kept D st (top_level e st)"
proof -
  have n: "new_table flags e (hide D (say msg st)) = hide D (new_table flags e (say msg st))"
    "kept D st (new_table flags e (say msg st))" for flags msg
    using hide_new_table [of e D "say msg st"] assms by (simp_all add: say_def kept_def)
  show "top_level e (hide D st) = hide D (top_level e st)" "kept D st (top_level e st)"
    using n [of "PRESENT_FLAG OR WRITABLE_FLAG" "''Writing PML4: 0x''"] assms(1)
    by (auto simp: top_level_def Let_def)
qed

section \<open>The mapper on what is left\<close>

text \<open>The entries of the top table with an index in \<open>J\<close>.\<close>

definition top_entries :: "u64 \<Rightarrow> u64 set \<Rightarrow> u64 set" where
  "top_entries root J = (\<lambda>j. root + 8 * j) ` (J \<inter> {..<512})"

lemma top_entries_iff:
  assumes "is_page p" "is_page root" "i < 512"
  shows "p + 8 * i \<in> top_entries root J \<longleftrightarrow> p = root \<and> i \<in> J"
proof
  assume "p + 8 * i \<in> top_entries root J"
  then obtain j where "j \<in> J" "j < 512" "p + 8 * i = root + 8 * j" by (auto simp: top_entries_def)
  then show "p = root \<and> i \<in> J" using entry_inj [OF assms(1,2,3)] by blast
qed (use assms(3) in \<open>auto simp: top_entries_def\<close>)

text \<open>No table below the top one, and no spare page, has a hidden entry.\<close>

lemma below_not_hidden:
  assumes ready: "tables_ready F n st" and D: "D = top_entries (pml4 st) J" and i: "i < 512"
    and p: "boot_lookup st is = Some p" "is \<noteq> []" "length is \<le> 3" "valid_path is"
  shows "p + 8 * i \<notin> D"
proof -
  have t: "tree (words st) (pml4 st)" using ready by (simp add: tables_ready_def)
  have root: "is_page (pml4 st)" "walk_from (words st) (pml4 st) [] = Some (pml4 st)" using t by (simp_all add: tree_def)
  have w: "walk_from (words st) (pml4 st) is = Some p" using p(1) by (simp add: boot_lookup_def)
  have "p \<noteq> pml4 st"
  proof
    assume "p = pml4 st"
    then have "is = []" using t w root(2) p(3,4) unfolding tree_def by force
    then show False using p(2) by simp
  qed
  then show ?thesis using top_entries_iff [OF walk_page [OF root(1) w] root(1) i] D by simp
qed

lemma spare_not_hidden:
  assumes ready: "tables_ready F (Suc n) st" and D: "D = top_entries (pml4 st) J" and i: "i < 512"
  shows "next_available_mapping_page st + 8 * of_nat i \<notin> D"
proof -
  have "is_page (spare st 0)" "spare st 0 \<notin> tables (words st) (pml4 st)" "is_page (pml4 st)"
    using ready by (simp_all add: tables_ready_def tree_def)
  moreover have "pml4 st \<in> tables (words st) (pml4 st)"
    unfolding tables_def by (rule CollectI, rule exI [of _ "[]"]) simp
  ultimately have "spare st 0 + 8 * of_nat i \<notin> D"
    using top_entries_iff [OF _ _ index_word(1) [OF i], of "spare st 0" "pml4 st" J] unfolding D by metis
  then show ?thesis by (simp add: spare_def)
qed

lemma hide_map_page:
  assumes ready: "tables_ready F (n + 3) (hide D st)" and D: "D = top_entries (pml4 st) J" and i4: "VA_GET_PML4_INDEX va \<notin> J"
  shows "map_page pa va (hide D st) = (fst (map_page pa va st), hide D (snd (map_page pa va st)))"
    "kept D st (snd (map_page pa va st))"
proof -
  note b = va_index_bounds [of va]
  let ?i4 = "VA_GET_PML4_INDEX va" and ?i3 = "VA_GET_PDP_INDEX va" and ?i2 = "VA_GET_PD_INDEX va" and ?i1 = "VA_GET_PT_INDEX va"
  obtain t1 t2 t3 p3 p2 p1 k where d: "t1 = top_level (pml4 (hide D st) + 8 * ?i4) (hide D st)"
    "p3 = words t1 (pml4 (hide D st) + 8 * ?i4) AND ADDR_MASK"
    "t2 = level NEW_ENTRY (p3 + 8 * ?i3) t1" "p2 = words t2 (p3 + 8 * ?i3) AND ADDR_MASK"
    "t3 = level NEW_ENTRY (p2 + 8 * ?i2) t2" "p1 = words t3 (p2 + 8 * ?i2) AND ADDR_MASK"
    and r: "tables_ready F (Suc (Suc n)) t1" "tables_ready F (Suc n) t2" "tables_ready F n t3"
    and l: "boot_lookup t1 [?i4] = Some p3" "boot_lookup t2 [?i4, ?i3] = Some p2" "boot_lookup t3 [?i4, ?i3, ?i2] = Some p1"
    and took: "took F k (hide D st) t3"
    by (rule map_page_levels [OF ready, of va])
  have pm: "pml4 t1 = pml4 st" "pml4 t2 = pml4 st" "pml4 t3 = pml4 st"
    by (simp_all add: d top_level_def level_def new_table_eq Let_def say_def say_hex64_def)
  have root: "is_page (pml4 st)" using ready by (simp add: tables_ready_def tree_def)
  have e4: "pml4 st + 8 * ?i4 \<notin> D" using top_entries_iff [OF root root b(1)] i4 D by simp
  have e3: "p3 + 8 * ?i3 \<notin> D" by (rule below_not_hidden [OF r(1) _ b(2) l(1)]) (use D pm b in simp_all)
  have e2: "p2 + 8 * ?i2 \<notin> D" by (rule below_not_hidden [OF r(2) _ b(3) l(2)]) (use D pm b in simp_all)
  have e1: "p1 + 8 * ?i1 \<notin> D" by (rule below_not_hidden [OF r(3) _ b(4) l(3)]) (use D pm b in simp_all)
  define s1 where "s1 = top_level (pml4 st + 8 * ?i4) st"
  define s2 where "s2 = level NEW_ENTRY (p3 + 8 * ?i3) s1"
  define s3 where "s3 = level NEW_ENTRY (p2 + 8 * ?i2) s2"
  have "tables_ready F (Suc (n + 2)) (hide D st)" using ready by (simp add: numeral_3_eq_3 numeral_2_eq_2)
  from spare_not_hidden [OF this] D have "next_available_mapping_page st + 8 * of_nat i \<notin> D" if "i < 512" for i using that by simp
  from hide_top_level [OF e4 this] have h1: "t1 = hide D s1" "kept D st s1" by (simp_all add: d(1) s1_def)
  from spare_not_hidden [OF r(1)] D pm(1) have "next_available_mapping_page s1 + 8 * of_nat i \<notin> D" if "i < 512" for i using that h1(1) by simp
  from hide_level [OF e3 this, of NEW_ENTRY] have h2: "t2 = hide D s2" "kept D s1 s2" by (simp_all add: d(3) h1(1) s2_def)
  from spare_not_hidden [OF r(2)] D pm(2) have "next_available_mapping_page s2 + 8 * of_nat i \<notin> D" if "i < 512" for i using that h2(1) by simp
  from hide_level [OF e2 this, of NEW_ENTRY] have h3: "t3 = hide D s3" "kept D s2 s3" by (simp_all add: d(5) h2(1) s3_def)
  have p: "p3 = words s1 (pml4 st + 8 * ?i4) AND ADDR_MASK" by (simp only: d(2) h1(1) hide_simps(1) hide_simps(5) [OF e4])
  have p': "p2 = words s2 (p3 + 8 * ?i3) AND ADDR_MASK" by (simp only: d(4) h2(1) hide_simps(5) [OF e3])
  have p'': "p1 = words s3 (p2 + 8 * ?i2) AND ADDR_MASK" by (simp only: d(6) h3(1) hide_simps(5) [OF e2])
  note m = map_page_leaf [OF s1_def p s2_def p' s3_def p'', of pa]
  note m' = map_page_leaf [OF d, of pa]
  have k3: "kept D st s3" by (rule kept_trans [OF kept_trans [OF h1(2) h2(2)] h3(2)])
  show "map_page pa va (hide D st) = (fst (map_page pa va st), hide D (snd (map_page pa va st)))" "kept D st (snd (map_page pa va st))"
    unfolding m m' h3(1) using e1 hide_store [OF e1, where st = s3] k3 by (auto intro: kept_trans)
qed

text \<open>The same for a run of pages.\<close>

lemma hide_map_pages_upto:
  assumes D: "D = top_entries (pml4 st) J"
  shows "tables_ready F (n + 3 * c) (hide D st) \<Longrightarrow> \<forall>i < c. VA_GET_PML4_INDEX (dest + push_bit 12 (of_nat i)) \<notin> J \<Longrightarrow>
    let run = fold (\<lambda>i st. snd (map_page (src + push_bit 12 (of_nat i)) (dest + push_bit 12 (of_nat i)) st)) [0..<c]
    in run (hide D st) = hide D (run st) \<and> kept D st (run st) \<and> pml4 (run st) = pml4 st"
proof (induction c arbitrary: n)
  case (Suc c)
  let ?run = "fold (\<lambda>i st. snd (map_page (src + push_bit 12 (of_nat i)) (dest + push_bit 12 (of_nat i)) st)) [0..<c]"
  let ?va = "dest + push_bit 12 (of_nat c)" and ?pa = "src + push_bit 12 (of_nat c)"
  have ready: "tables_ready F (n + 3 + 3 * c) (hide D st)" using Suc.prems(1) by (simp add: ac_simps)
  have ih: "?run (hide D st) = hide D (?run st)" "kept D st (?run st)" "pml4 (?run st) = pml4 st"
    using Suc.IH [OF ready] Suc.prems(2) by (simp_all add: Let_def)
  have "tables_ready F (n + 3) (hide D (?run st))"
    using map_pages_upto [OF ready, of src dest] ih(1) by auto
  from hide_map_page [OF this _ , of J ?va ?pa] have step:
    "map_page ?pa ?va (hide D (?run st)) = (fst (map_page ?pa ?va (?run st)), hide D (snd (map_page ?pa ?va (?run st))))"
    "kept D (?run st) (snd (map_page ?pa ?va (?run st)))"
    using D ih(3) Suc.prems(2) by simp_all
  obtain r k s2 where "map_page ?pa ?va (hide D (?run st)) = (r, s2)" "took F k (hide D (?run st)) s2"
    by (rule map_page_ok [OF \<open>tables_ready F (n + 3) (hide D (?run st))\<close>])
  then have "pml4 (snd (map_page ?pa ?va (?run st))) = pml4 st"
    using step(1) ih(3) by (auto simp: took_def)
  then show ?case using step ih(1) kept_trans [OF ih(2) step(2)] by (simp add: Let_def)
qed simp

lemma hide_map_pages:
  assumes D: "D = top_entries (pml4 st) J" and "tables_ready F (n + 3 * unat count) (hide D st)"
    and "\<forall>i < unat count. VA_GET_PML4_INDEX (dest + push_bit 12 (of_nat i)) \<notin> J"
  shows "map_pages src dest count (hide D st) = hide D (map_pages src dest count st)" "kept D st (map_pages src dest count st)"
    "pml4 (map_pages src dest count st) = pml4 st"
  using hide_map_pages_upto [OF assms] by (simp_all add: map_pages_def Let_def)

section \<open>The loop over the segments on what is left\<close>

text \<open>No page of the segments is in the part that is hidden.\<close>

definition clear_of :: "u64 set \<Rightarrow> (u64 list \<times> u64) list \<Rightarrow> bool" where
  "clear_of J run \<longleftrightarrow> (\<forall>x \<in> set run. hd (fst x) \<notin> J)"

lemma clear_of_run:
  "clear_of J (page_run src dest n) \<longleftrightarrow> (\<forall>i < n. VA_GET_PML4_INDEX (dest + push_bit 12 (of_nat i)) \<notin> J)"
  by (auto simp: clear_of_def page_run_def va_path_def)

definition hide_uefi :: "u64 set \<Rightarrow> loading \<Rightarrow> loading" where
  "hide_uefi D ld = ld\<lparr>uefi := hide D (uefi ld)\<rparr>"

lemma ready_apart_hidden: "tables_ready F n (hide D st) \<Longrightarrow> D = top_entries (pml4 st) J \<Longrightarrow> a \<in> F \<Longrightarrow> a \<notin> D"
proof -
  assume r: "tables_ready F n (hide D st)" and D: "D = top_entries (pml4 st) J" and a: "a \<in> F"
  have "pml4 st \<in> tables (words (hide D st)) (pml4 st)" unfolding tables_def by (rule CollectI, rule exI [of _ "[]"]) simp
  then have "apart F (pml4 st)" using r by (simp add: tables_ready_def)
  then show "a \<notin> D" using a by (auto simp: D top_entries_def apart_def)
qed

lemma hide_load_segment:
  assumes D: "D = top_entries (pml4 (uefi ld)) J" and F: "image_words m hdr \<subseteq> F" "\<forall>a \<in> F. words (uefi ld) a = m a"
    and ready: "tables_ready F (n + 3 * unat (image_pages m hdr kernel_size (of_nat i))) (hide D (uefi ld))"
    and i: "i < unat (prog_header_entry_num m hdr)" and clear: "clear_of J (image_run m hdr kernel_size (of_nat i))"
  defines "ld' \<equiv> load_segment hdr (image_table m hdr) kernel_size (of_nat i) ld"
  shows "load_segment hdr (image_table m hdr) kernel_size (of_nat i) (hide_uefi D ld) = hide_uefi D ld'"
    "kept D (uefi ld) (uefi ld')" "pml4 (uefi ld') = pml4 (uefi ld)"
    "tables_ready F n (hide D (uefi ld'))" "\<forall>a \<in> F. words (uefi ld') a = m a"
proof -
  have out: "a \<notin> D" if "a \<in> F" for a by (rule ready_apart_hidden [OF ready D that])
  have F': "\<forall>a \<in> F. words (uefi (hide_uefi D ld)) a = m a" using F(2) out by (simp add: hide_uefi_def)
  note seg = load_segment_eq [OF F(2,1) i, of kernel_size, folded ld'_def] and seg' = load_segment_eq [OF F' F(1) i, of kernel_size]
  let ?src = "hdr + entry_offset m (image_table m hdr) (of_nat i)" and ?dest = "entry_vaddr m (image_table m hdr) (of_nat i)"
    and ?c = "image_pages m hdr kernel_size (of_nat i)"
  have run: "\<forall>k < unat ?c. VA_GET_PML4_INDEX (?dest + push_bit 12 (of_nat k)) \<notin> J"
    using clear unfolding image_run_def clear_of_run .
  note mp = hide_map_pages [OF D ready run, of ?src]
  have u: "uefi ld' = map_pages ?src ?dest ?c (uefi ld)" by (simp add: seg)
  show "load_segment hdr (image_table m hdr) kernel_size (of_nat i) (hide_uefi D ld) = hide_uefi D ld'"
    unfolding seg seg' by (simp add: hide_uefi_def mp(1))
  show "kept D (uefi ld) (uefi ld')" "pml4 (uefi ld') = pml4 (uefi ld)" unfolding u by (rule mp(2,3))+
  have "\<exists>k. took F k (hide D (uefi ld)) (map_pages ?src ?dest ?c (hide D (uefi ld))) \<and>
      tables_ready F n (map_pages ?src ?dest ?c (hide D (uefi ld)))"
    using map_pages_upto [OF ready, of ?src ?dest] unfolding map_pages_def by blast
  then obtain k where k: "took F k (hide D (uefi ld)) (hide D (uefi ld'))" "tables_ready F n (hide D (uefi ld'))"
    unfolding u mp(1) by blast
  show "tables_ready F n (hide D (uefi ld'))" by (rule k(2))
  show "\<forall>a \<in> F. words (uefi ld') a = m a" using k(1) F(2) out by (simp add: took_def)
qed

lemma hide_load_loop:
  assumes st: "\<And>i. \<not> efi_error (left i)" and F: "image_words m hdr \<subseteq> F"
  shows "\<forall>i \<in> set ks. i < unat (prog_header_entry_num m hdr) \<and> clear_of J (image_run m hdr kernel_size (of_nat i)) \<Longrightarrow>
    \<forall>a \<in> F. words (uefi ld) a = m a \<Longrightarrow> D = top_entries (pml4 (uefi ld)) J \<Longrightarrow>
    tables_ready F (n + 3 * sum_list (map (\<lambda>i. unat (image_pages m hdr kernel_size (of_nat i))) ks)) (hide D (uefi ld)) \<Longrightarrow>
    \<exists>ld'. load_loop efi_error left hdr (image_table m hdr) kernel_size ks ld = (None, ld') \<and>
      load_loop efi_error left hdr (image_table m hdr) kernel_size ks (hide_uefi D ld) = (None, hide_uefi D ld') \<and>
      kept D (uefi ld) (uefi ld')"
proof (induction ks arbitrary: ld)
  case (Cons i ks)
  let ?p = "\<lambda>i. unat (image_pages m hdr kernel_size (of_nat i))"
  let ?ld = "load_segment hdr (image_table m hdr) kernel_size (of_nat i) ld"
  have i: "i < unat (prog_header_entry_num m hdr)" "clear_of J (image_run m hdr kernel_size (of_nat i))" using Cons.prems(1) by simp_all
  have "tables_ready F ((n + 3 * sum_list (map ?p ks)) + 3 * ?p i) (hide D (uefi ld))"
    using Cons.prems(4) by (simp add: ac_simps distrib_left)
  note seg = hide_load_segment [OF Cons.prems(3) F Cons.prems(2) this i]
  have "\<exists>ld'. load_loop efi_error left hdr (image_table m hdr) kernel_size ks ?ld = (None, ld') \<and>
      load_loop efi_error left hdr (image_table m hdr) kernel_size ks (hide_uefi D ?ld) = (None, hide_uefi D ld') \<and>
      kept D (uefi ?ld) (uefi ld')"
    using Cons.IH [OF _ seg(5) _ seg(4)] Cons.prems(1,3) seg(3) by simp
  then show ?case using st seg(1) kept_trans [OF seg(2)] by auto
qed (simp add: hide_uefi_def)

text \<open>Walks through entries that are not hidden are the same in both memories.\<close>

lemma boot_lookup_hide:
  assumes ready: "tables_ready F n (hide D st)" and D: "D = top_entries (pml4 st) J"
    and js: "length js \<le> 4" "valid_path js" "hd js \<notin> J"
  shows "boot_lookup st js = boot_lookup (hide D st) js"
proof -
  have "walk_from (words st) (pml4 st) js = walk_from (words (hide D st)) (pml4 st) js"
  proof (rule walk_cong)
    fix ks k rest q assume e: "js = ks @ k # rest" and w: "walk_from (words (hide D st)) (pml4 st) ks = Some q"
    have k: "k < 512" using js(2) e by simp
    have "q + 8 * k \<notin> D"
    proof (cases "ks = []")
      case True
      have "is_page (pml4 st)" using ready by (simp add: tables_ready_def tree_def)
      then show ?thesis using True w e js(3) top_entries_iff [OF _ _ k] by (simp add: D)
    next
      case False
      show ?thesis
        by (rule below_not_hidden [OF ready _ k, of _ J ks]) (use D w False e js in \<open>simp_all add: boot_lookup_def\<close>)
    qed
    then show "words st (q + 8 * k) = words (hide D st) (q + 8 * k)" by simp
  qed
  then show ?thesis by (simp add: boot_lookup_def)
qed

text \<open>The segments are mapped as \<open>load_kernel_ok\<close> says, for a top table of which only the part that is not
  hidden is in order.\<close>

lemma load_kernel_hidden:
  assumes st: "\<And>i. \<not> efi_error (left i)" and F: "image_words (words st) hdr \<subseteq> F" and D: "D = top_entries (pml4 st) J"
    and ready: "tables_ready F (n + 3 * sum_list (map (\<lambda>i. unat (image_pages (words st) hdr kernel_size (of_nat i)))
      [0..<unat (prog_header_entry_num (words st) hdr)])) (hide D st)"
    and clear: "\<forall>i < unat (prog_header_entry_num (words st) hdr). clear_of J (image_run (words st) hdr kernel_size (of_nat i))"
  obtains ld where "load_kernel efi_error left hdr kernel_size st = (None, ld)" "kept D st (uefi ld)" "pml4 (uefi ld) = pml4 st"
    "tables_ready F n (hide D (uefi ld))"
    "\<forall>a \<in> F. words (uefi ld) a = words st a"
    "\<And>js. length js = 4 \<Longrightarrow> valid_path js \<Longrightarrow> hd js \<notin> J \<Longrightarrow> boot_lookup (uefi ld) js =
      (map_of (concat (map (\<lambda>i. image_run (words st) hdr kernel_size (of_nat i)) [0..<unat (prog_header_entry_num (words st) hdr)]))
       ++ boot_lookup st) js"
proof -
  let ?m = "words st" and ?is = "[0..<unat (prog_header_entry_num (words st) hdr)]"
  let ?ld = "\<lparr>uefi = st, kernel_start = 0, kernel_pages = 0, highest_page_mapped = 0\<rparr>"
  have load: "load_kernel efi_error left hdr kernel_size st = load_loop efi_error left hdr (image_table ?m hdr) kernel_size ?is ?ld"
    by (simp add: load_kernel_def image_table_def)
  have all: "\<forall>i \<in> set ?is. i < unat (prog_header_entry_num ?m hdr) \<and> clear_of J (image_run ?m hdr kernel_size (of_nat i))"
    using clear by simp
  have w: "\<forall>a \<in> F. words (uefi ?ld) a = ?m a" and D': "D = top_entries (pml4 (uefi ?ld)) J" using D by simp_all
  have r: "tables_ready F (n + 3 * sum_list (map (\<lambda>i. unat (image_pages ?m hdr kernel_size (of_nat i))) ?is)) (hide D (uefi ?ld))"
    using ready by simp
  obtain ld where ld: "load_loop efi_error left hdr (image_table ?m hdr) kernel_size ?is ?ld = (None, ld)"
    "load_loop efi_error left hdr (image_table ?m hdr) kernel_size ?is (hide_uefi D ?ld) = (None, hide_uefi D ld)" "kept D st (uefi ld)"
    using hide_load_loop [where efi_error = efi_error and left = left and ld = ?ld and ks = ?is, OF st F all w D' r] by auto
  have out: "a \<notin> D" if "a \<in> F" for a by (rule ready_apart_hidden [OF ready D that])
  have w': "\<forall>a \<in> F. words (uefi (hide_uefi D ?ld)) a = ?m a" using out by (simp add: hide_uefi_def)
  have all': "\<forall>i \<in> set ?is. i < unat (prog_header_entry_num ?m hdr)" by simp
  have r': "tables_ready F (n + 3 * sum_list (map (\<lambda>i. unat (image_pages ?m hdr kernel_size (of_nat i))) ?is)) (uefi (hide_uefi D ?ld))"
    using ready by (simp add: hide_uefi_def)
  from load_loop_ok [where efi_error = efi_error and left = left, OF st F all' w' r'] ld(2)
  obtain k where k: "took F k (hide D st) (hide D (uefi ld))" "tables_ready F n (hide D (uefi ld))"
    "\<And>js. length js = 4 \<Longrightarrow> valid_path js \<Longrightarrow> boot_lookup (hide D (uefi ld)) js =
       (map_of (concat (map (\<lambda>i. image_run ?m hdr kernel_size (of_nat i)) ?is)) ++ boot_lookup (hide D st)) js"
    by (auto simp: hide_uefi_def)
  have p: "pml4 (uefi ld) = pml4 st" using k(1) by (simp add: took_def)
  have "boot_lookup (uefi ld) js = (map_of (concat (map (\<lambda>i. image_run ?m hdr kernel_size (of_nat i)) ?is)) ++ boot_lookup st) js"
    if "length js = 4" "valid_path js" "hd js \<notin> J" for js
    using boot_lookup_hide [OF k(2) _ eq_imp_le [OF that(1)] that(2,3)] boot_lookup_hide [OF ready D eq_imp_le [OF that(1)] that(2,3)] k(3) [OF that(1,2)] D p
    by (simp add: map_add_def split: option.splits)
  moreover have "\<forall>a \<in> F. words (uefi ld) a = ?m a" using k(1) out by (simp add: took_def)
  ultimately show ?thesis using that [of ld] load ld(1,3) k(2) p by simp
qed

section \<open>Entries up to the writable bit\<close>

definition up_to_writable :: "(u64 \<Rightarrow> u64) \<Rightarrow> (u64 \<Rightarrow> u64) \<Rightarrow> bool" where
  "up_to_writable m m' \<longleftrightarrow> (\<forall>a. m' a = m a \<or> m' a = m a OR WRITABLE_FLAG)"

text \<open>The leaf entry of a page, made writable.\<close>

definition leaf_page :: "(u64 \<Rightarrow> u64) \<Rightarrow> u64 \<Rightarrow> nat \<Rightarrow> nat \<Rightarrow> nat \<Rightarrow> nat \<Rightarrow> (nat \<times> u64) option" where
  "leaf_page m root i j k l = map_option (\<lambda>(level, v). (level, v OR WRITABLE_FLAG)) (leaf_entry m root i j k l)"

lemma writable_bits:
  "(v OR WRITABLE_FLAG) AND PRESENT_FLAG = v AND PRESENT_FLAG" "(v OR WRITABLE_FLAG) AND PAGE_SIZE_FLAG = v AND PAGE_SIZE_FLAG"
  "(v OR WRITABLE_FLAG) AND ADDR_MASK = v AND ADDR_MASK"
  by (simp_all add: bit.conj_disj_distrib2 WRITABLE_FLAG_def PRESENT_FLAG_def PAGE_SIZE_FLAG_def ADDR_MASK_def)

lemma up_to_writable_bits:
  assumes "up_to_writable m m'"
  shows "m' a AND PRESENT_FLAG = m a AND PRESENT_FLAG" "m' a AND PAGE_SIZE_FLAG = m a AND PAGE_SIZE_FLAG"
    "m' a AND ADDR_MASK = m a AND ADDR_MASK" "m' a OR WRITABLE_FLAG = m a OR WRITABLE_FLAG"
proof -
  have "m' a = m a \<or> m' a = m a OR WRITABLE_FLAG" using assms by (simp add: up_to_writable_def)
  then show "m' a AND PRESENT_FLAG = m a AND PRESENT_FLAG" "m' a AND PAGE_SIZE_FLAG = m a AND PAGE_SIZE_FLAG"
    "m' a AND ADDR_MASK = m a AND ADDR_MASK" "m' a OR WRITABLE_FLAG = m a OR WRITABLE_FLAG"
    by (elim disjE; simp only: writable_bits or.assoc or.idem)+
qed

lemma up_to_writable_walk:
  assumes "up_to_writable m m'"
  shows "in_use m' = in_use m" "next_of m' = next_of m" "tabled m' = tabled m"
    "leaf_page m' root i j k l = leaf_page m root i j k l"
proof -
  note b = up_to_writable_bits [OF assms]
  show w: "in_use m' = in_use m" "next_of m' = next_of m" "tabled m' = tabled m"
    by (simp_all add: fun_eq_iff in_use_def next_of_def tabled_def b)
  show "leaf_page m' root i j k l = leaf_page m root i j k l"
    by (simp add: leaf_page_def leaf_entry_def Let_def w b(2,4))
qed

section \<open>The words a translation reads\<close>

definition leaf_words :: "(u64 \<Rightarrow> u64) \<Rightarrow> u64 \<Rightarrow> nat \<Rightarrow> u64 set" where
  "leaf_words m root i = (if in_use m root i then
     {next_of m root i + 8 * of_nat j |j. j < 512} \<union>
     {next_of m (next_of m root i) j + 8 * of_nat k |j k. j < 512 \<and> k < 512 \<and> tabled m (next_of m root i) j} \<union>
     {next_of m (next_of m (next_of m root i) j) k + 8 * of_nat l |j k l. j < 512 \<and> k < 512 \<and> l < 512 \<and> tabled m (next_of m root i) j \<and>
        tabled m (next_of m (next_of m root i) j) k} else {})"

lemma leaf_entry_cong:
  assumes top: "m' (root' + 8 * of_nat i') = m (root + 8 * of_nat i)" and same: "\<And>a. a \<in> leaf_words m root i \<Longrightarrow> m' a = m a"
    and ind: "j < 512" "k < 512" "l < 512"
  shows "leaf_entry m' root' i' j k l = leaf_entry m root i j k l"
proof (cases "in_use m root i")
  case False
  then show ?thesis using top by (simp add: leaf_entry_def Let_def in_use_def)
next
  case u: True
  have t: "in_use m' root' i'" "next_of m' root' i' = next_of m root i" using top u by (simp_all add: in_use_def next_of_def)
  let ?p = "next_of m root i"
  have p: "m' (?p + 8 * of_nat j) = m (?p + 8 * of_nat j)" by (rule same) (use u ind in \<open>auto simp: leaf_words_def\<close>)
  have pn: "in_use m' ?p j = in_use m ?p j" "next_of m' ?p j = next_of m ?p j" using p by (simp_all add: in_use_def next_of_def)
  show ?thesis
  proof (cases "tabled m ?p j")
    case False
    then show ?thesis using t u p pn by (auto simp: leaf_entry_def Let_def tabled_def in_use_def)
  next
    case tb: True
    let ?q = "next_of m ?p j"
    have q: "m' (?q + 8 * of_nat k) = m (?q + 8 * of_nat k)" by (rule same) (use u tb ind in \<open>auto simp: leaf_words_def\<close>)
    have qn: "in_use m' ?q k = in_use m ?q k" "next_of m' ?q k = next_of m ?q k" using q by (simp_all add: in_use_def next_of_def)
    have "m' (next_of m ?q k + 8 * of_nat l) = m (next_of m ?q k + 8 * of_nat l)" if "tabled m ?q k"
      by (rule same) (use u tb that ind in \<open>auto simp: leaf_words_def\<close>)
    then show ?thesis using t u tb p pn q qn by (auto simp: leaf_entry_def Let_def tabled_def in_use_def)
  qed
qed

section \<open>What the bootloader relies on\<close>

definition boot_ready :: "u64 \<Rightarrow> u64 \<Rightarrow> nat \<Rightarrow> (u64 \<Rightarrow> u64) \<Rightarrow> u64 \<Rightarrow> nat \<Rightarrow> bool" where
  "boot_ready n d len m root count \<longleftrightarrow> regions_ok n d len \<and> firmware_tables d len m root \<and> last_level_outside n len m root \<and>
     0 < count \<and> count \<le> 255 \<and> (\<forall>i < 512. in_use m root i \<longleftrightarrow> i < count) \<and>
     (\<forall>t \<in> upper_tables m root. \<exists>k < 512. in_use m t k) \<and>
     in_use m root (unat (VA_GET_PML4_INDEX root)) \<and>
     tabled m (next_of m root (unat (VA_GET_PML4_INDEX root))) (unat (VA_GET_PDP_INDEX root))"

text \<open>Making the entry of the old tables writable changes that entry and no translation.\<close>

lemma make_writable_words:
  assumes r: "regions_ok n d len" and fw: "firmware_tables d len m root" and cp: "copied n d len m m0"
    and w: "words st = moved_memory n d m0 root"
    and old: "in_use m root (unat (VA_GET_PML4_INDEX root))" "tabled m (next_of m root (unat (VA_GET_PML4_INDEX root))) (unat (VA_GET_PDP_INDEX root))"
  obtains e where "make_writable (old_addr_to_new_map n d root) root st = store e (words st e OR WRITABLE_FLAG) st"
    "e \<in> copy_area n len" "\<And>i. i < 512 \<Longrightarrow> e \<noteq> old_addr_to_new_map n d root + 8 * of_nat i"
proof -
  let ?f = "old_addr_to_new_map n d" and ?i = "unat (VA_GET_PML4_INDEX root)" and ?j = "unat (VA_GET_PDP_INDEX root)"
    and ?k = "unat (VA_GET_PD_INDEX root)"
  have b: "?i < 512" "?j < 512" "?k < 512" using va_index_bounds [of root] by (simp_all add: word_less_nat_alt)
  let ?q = "next_of m (next_of m root ?i) ?j"
  define e where "e = ?f ?q + 8 * of_nat ?k"
  note lv = moved_levels [OF r fw cp b(1,2), folded w]
  have "words st (?f root + 8 * VA_GET_PML4_INDEX root) AND ADDR_MASK = ?f (next_of m root ?i)"
    using lv(2) [OF old(1)] by (simp add: next_of_def)
  moreover have "words st (?f (next_of m root ?i) + 8 * VA_GET_PDP_INDEX root) AND ADDR_MASK = ?f ?q"
    using lv(6) [OF old] by (simp add: next_of_def [of "words st"])
  ultimately have "make_writable (?f root) root st = store e (words st e OR WRITABLE_FLAG) st"
    by (simp add: make_writable_def Let_def e_def)
  moreover have q: "in_region d len ?q" "?q \<noteq> root" using firmwareD [OF fw b(1) old(1)] b(2) old(2) by blast+
  have "e \<in> copy_area n len" unfolding e_def by (rule region_entry [OF r shift_region [OF r q(1)] b(3)])
  moreover have "e \<noteq> ?f root + 8 * of_nat i" if "i < 512" for i
    using shift_entry_inj [OF r q(1) _ b(3) that] fw q(2) by (auto simp: e_def firmware_tables_def)
  ultimately show ?thesis using that by blast
qed

section \<open>After init_virtual_mapping\<close>

text \<open>The moved tables below the top one: the words a translation reads are those of the copies below the next
  free page, or those of the last level, which the bootloader does not touch.\<close>

definition safe_words :: "u64 \<Rightarrow> nat \<Rightarrow> u64 \<Rightarrow> u64 \<Rightarrow> u64 set" where
  "safe_words n len root next_free = {a. a \<notin> copy_area n len \<or> unat a < unat next_free \<and> (\<forall>i < 512. a \<noteq> root + 8 * of_nat i)}"

lemma moved_leaf_words:
  assumes r: "regions_ok n d len" and fw: "firmware_tables d len m root" and cp: "copied n d len m m0"
    and last: "last_level_outside n len m root" and i: "i < 512"
    and used: "\<And>t. t \<in> upper_tables m root \<Longrightarrow> unat (old_addr_to_new_map n d t) + 4096 \<le> unat next_free"
  shows "leaf_words (moved_memory n d m0 root) (old_addr_to_new_map n d root) i \<subseteq> safe_words n len (old_addr_to_new_map n d root) next_free"
proof (cases "in_use m root i")
  case False
  then show ?thesis using moved_levels(1) [OF r fw cp i i] by (simp add: leaf_words_def)
next
  case u: True
  let ?f = "old_addr_to_new_map n d" and ?M = "moved_memory n d m0 root" and ?p = "next_of m root i"
  note lv = moved_levels [OF r fw cp i] and fp = firmwareD [OF fw i u]
  have safe: "?f t + 8 * of_nat x \<in> safe_words n len (?f root) next_free" if t: "t \<in> upper_tables m root" "t \<noteq> root" and x: "x < 512" for t x
  proof -
    have reg: "in_region d len t" by (rule upper_region [OF fw t(1)])
    have "unat (?f t + 8 * of_nat x) = unat (?f t) + 8 * x"
      using shift_region [OF r reg] by (intro table_entry_unat) (simp_all add: in_region_def x)
    then have "unat (?f t + 8 * of_nat x) < unat next_free" using used [OF t(1)] x by simp
    moreover have "?f t + 8 * of_nat x \<noteq> ?f root + 8 * of_nat y" if "y < 512" for y
      using shift_entry_inj [OF r reg _ x that] fw t(2) by (auto simp: firmware_tables_def)
    ultimately show ?thesis by (simp add: safe_words_def)
  qed
  have pt: "?p \<in> upper_tables m root" using i u by (auto simp: upper_tables_def)
  have pl: "next_of ?M (?f root) i = ?f ?p" using lv(2) [OF i u] .
  have tab: "tabled ?M (?f ?p) j \<longleftrightarrow> tabled m ?p j" if "j < 512" for j
    using lv(3,4) [OF that u] by (simp add: tabled_def in_use_def)
  have q: "next_of ?M (?f ?p) j = ?f (next_of m ?p j)" "next_of m ?p j \<in> upper_tables m root" "next_of m ?p j \<noteq> root"
    if "j < 512" "tabled m ?p j" for j
    using lv(6) [OF that(1) u that(2)] fp(5) [OF that] i u that by (auto simp: upper_tables_def)
  have last': "tabled ?M (?f (next_of m ?p j)) k \<longleftrightarrow> tabled m (next_of m ?p j) k"
    "next_of ?M (?f (next_of m ?p j)) k = next_of m (next_of m ?p j) k"
    if "j < 512" "tabled m ?p j" "k < 512" for j k
    using lv(7) [OF that(1) u that(2,3)] by (simp_all add: tabled_def next_of_def)
  have out: "next_of m (next_of m ?p j) k + 8 * of_nat l \<in> safe_words n len (?f root) next_free"
    if "j < 512" "tabled m ?p j" "k < 512" "tabled m (next_of m ?p j) k" "l < 512" for j k l
    using last i u that unfolding last_level_outside_def safe_words_def by (simp add: tabled_def [of m "next_of m (next_of m root i) j"] in_use_def)
  show ?thesis
    unfolding leaf_words_def pl using safe [OF pt fp(2)] safe [OF q(2,3)] out
    by (auto simp: tab q(1) last' split: if_splits)
qed

lemma leaf_words_cong:
  assumes top: "in_use m' root' i' = in_use m root i" "in_use m root i \<Longrightarrow> next_of m' root' i' = next_of m root i"
    and same: "\<And>a. a \<in> leaf_words m root i \<Longrightarrow> m' a = m a"
  shows "leaf_words m' root' i' = leaf_words m root i"
proof (cases "in_use m root i")
  case u: True
  let ?p = "next_of m root i"
  have p: "tabled m' ?p j = tabled m ?p j" "next_of m' ?p j = next_of m ?p j" if "j < 512" for j
  proof -
    have "m' (?p + 8 * of_nat j) = m (?p + 8 * of_nat j)" by (rule same) (use u that in \<open>auto simp: leaf_words_def\<close>)
    then show "tabled m' ?p j = tabled m ?p j" "next_of m' ?p j = next_of m ?p j" by (simp_all add: tabled_def next_of_def)
  qed
  have q: "tabled m' (next_of m ?p j) k = tabled m (next_of m ?p j) k" "next_of m' (next_of m ?p j) k = next_of m (next_of m ?p j) k"
    if "j < 512" "tabled m ?p j" "k < 512" for j k
  proof -
    have "m' (next_of m ?p j + 8 * of_nat k) = m (next_of m ?p j + 8 * of_nat k)"
      by (rule same) (use u that in \<open>auto simp: leaf_words_def\<close>)
    then show "tabled m' (next_of m ?p j) k = tabled m (next_of m ?p j) k" "next_of m' (next_of m ?p j) k = next_of m (next_of m ?p j) k"
      by (simp_all add: tabled_def next_of_def)
  qed
  have pds: "{next_of m' (next_of m' ?p j) k + 8 * of_nat l |j k l. j < 512 \<and> k < 512 \<and> l < 512 \<and> tabled m' ?p j \<and> tabled m' (next_of m' ?p j) k} =
    {next_of m (next_of m ?p j) k + 8 * of_nat l |j k l. j < 512 \<and> k < 512 \<and> l < 512 \<and> tabled m ?p j \<and> tabled m (next_of m ?p j) k}"
    by (intro Collect_cong ex_cong1) (metis p q)
  have "{next_of m' ?p j + 8 * of_nat k |j k. j < 512 \<and> k < 512 \<and> tabled m' ?p j} =
    {next_of m ?p j + 8 * of_nat k |j k. j < 512 \<and> k < 512 \<and> tabled m ?p j}"
    by (intro Collect_cong ex_cong1) (metis p)
  then show ?thesis using top u pds by (simp add: leaf_words_def)
qed (use top in \<open>simp add: leaf_words_def\<close>)

lemma leaf_words_up_to_writable: "up_to_writable m m' \<Longrightarrow> leaf_words m' root i = leaf_words m root i"
  by (simp add: leaf_words_def up_to_writable_walk)

lemma entry_count:
  assumes "\<forall>i < 512. in_use (words st) (pml4 st) i \<longleftrightarrow> i < c" and "c \<le> 512"
  shows "pml4_entry_count st = c"
proof -
  have "filter (\<lambda>i. words st (pml4 st + 8 * of_nat i) AND PRESENT_FLAG \<noteq> 0) [0..<512] = filter (\<lambda>i. i < c) [0..<512]"
    using assms(1) by (intro filter_cong) (simp_all add: in_use_def)
  also have "\<dots> = filter (\<lambda>i. i < c) ([0..<c] @ [c..<512])" using upt_add_eq_append [of 0 c "512 - c"] assms(2) by simp
  also have "\<dots> = [0..<c]" by (simp add: filter_id_conv filter_empty_conv)
  finally show ?thesis by (simp add: pml4_entry_count_def)
qed

text \<open>The moved top table is not among the tables below it.\<close>

lemma moved_root_apart:
  assumes r: "regions_ok n d len" and fw: "firmware_tables d len m root" and cp: "copied n d len m m0"
    and last: "last_level_outside n len m root"
  shows "root_apart (moved_memory n d m0 root) (old_addr_to_new_map n d root)"
proof -
  let ?f = "old_addr_to_new_map n d" and ?M = "moved_memory n d m0 root"
  have root: "in_region d len root" using fw by (simp add: firmware_tables_def)
  have ne: "?f t \<noteq> ?f root" if "in_region d len t" "t \<noteq> root" for t using shift_inj [OF r that(1) root] that(2) by simp
  have area: "?f root + 8 * of_nat 0 \<in> copy_area n len" by (rule region_entry [OF r shift_region [OF r root]]) simp
  show ?thesis
    unfolding root_apart_def
  proof (intro conjI allI impI)
    show "is_page (?f root)" using shift_region [OF r root] by (simp add: in_region_def)
    fix i assume i: "i < 512" "in_use ?M (?f root) i"
    note lv = moved_levels [OF r fw cp i(1)]
    have u: "in_use m root i" using lv(1) [OF i(1)] i(2) by simp
    note fp = firmwareD [OF fw i(1) u] and nx = lv(2) [OF i(1) u]
    show "next_of ?M (?f root) i \<noteq> ?f root" unfolding nx by (rule ne [OF fp(1,2)])
    fix j assume j: "j < 512" "tabled ?M (next_of ?M (?f root) i) j"
    then have t: "tabled m (next_of m root i) j" using lv(3,4) [OF j(1) u] unfolding nx by (simp add: tabled_def in_use_def)
    note nq = lv(6) [OF j(1) u t]
    show "next_of ?M (next_of ?M (?f root) i) j \<noteq> ?f root" unfolding nx nq by (rule ne [OF fp(4,5) [OF j(1) t]])
    fix k assume k: "k < 512" "in_use ?M (next_of ?M (next_of ?M (?f root) i) j) k"
      "?M (next_of ?M (next_of ?M (?f root) i) j + 8 * of_nat k) AND PAGE_SIZE_FLAG = 0"
    then have "next_of m (next_of m (next_of m root i) j) k + 8 * of_nat 0 \<notin> copy_area n len"
      using last i(1) u j(1) t lv(7) [OF j(1) u t k(1)] unfolding last_level_outside_def nx nq in_use_def
      by (metis zero_less_numeral)
    then show "next_of ?M (next_of ?M (next_of ?M (?f root) i) j) k \<noteq> ?f root"
      using area lv(7) [OF j(1) u t k(1)] unfolding nx nq by (auto simp: next_of_def [of ?M "?f (next_of m (next_of m root i) j)"] next_of_def)
  qed
qed

lemma root_apart_up_to_writable: "up_to_writable m m' \<Longrightarrow> root_apart m' root = root_apart m root"
  by (simp add: root_apart_def up_to_writable_walk up_to_writable_bits)

text \<open>The state after \<open>init_virtual_mapping\<close>: what every page of the address space is mapped to, which words that
  depends on, and what is free.\<close>

definition entry_shows :: "(u64 \<Rightarrow> u64) \<Rightarrow> u64 \<Rightarrow> nat \<Rightarrow> u64 set \<Rightarrow> (u64 \<Rightarrow> u64) \<Rightarrow> u64 \<Rightarrow> nat \<Rightarrow> bool" where
  "entry_shows m root i S w t x \<longleftrightarrow> leaf_words w t x \<subseteq> S \<and>
     (\<forall>j < 512. \<forall>k < 512. \<forall>l < 512. leaf_page w t x j k l = leaf_page m root i j k l)"

lemma entry_shows_cong:
  assumes old: "entry_shows m root i S w t x" and same: "\<And>a. a \<in> S \<Longrightarrow> w' a = w a"
    and top: "in_use w' t' x' = in_use w t x" "in_use w t x \<Longrightarrow> next_of w' t' x' = next_of w t x"
    and leaf: "\<forall>j < 512. \<forall>k < 512. \<forall>l < 512. leaf_entry w' t' x' j k l = leaf_entry w t x j k l"
  shows "entry_shows m root i S w' t' x'"
proof -
  have sub: "leaf_words w t x \<subseteq> S" using old by (simp add: entry_shows_def)
  have "leaf_words w' t' x' = leaf_words w t x" by (rule leaf_words_cong [OF top]) (use same sub in auto)
  moreover have "leaf_page w' t' x' j k l = leaf_page w t x j k l" if "j < 512" "k < 512" "l < 512" for j k l
    using leaf that by (simp add: leaf_page_def)
  ultimately show ?thesis using old by (simp add: entry_shows_def)
qed

text \<open>After the tables have been moved: every entry of the new top table shows what the old one does. After the window has
  been set up: the entries below the window do, the entries of the window show the first ones, and the last one is free.\<close>

definition region_left :: "u64 \<Rightarrow> nat \<Rightarrow> uefi_mem \<Rightarrow> bool" where
  "region_left n len u \<longleftrightarrow> (\<forall>i < 512. pml4 u + 8 * of_nat i \<in> copy_area n len) \<and>
     unat (pml4 u) + 4096 \<le> unat (next_available_mapping_page u) \<and> unat n \<le> unat (next_available_mapping_page u) \<and>
     mapping_base_address u = n \<and> 4096 dvd unat (next_available_mapping_page u) \<and>
     unat (next_available_mapping_page u) + 4096 * unat (available_mapping_page_count u) = unat n + len"

definition moved_space :: "u64 \<Rightarrow> nat \<Rightarrow> (u64 \<Rightarrow> u64) \<Rightarrow> u64 \<Rightarrow> nat \<Rightarrow> uefi_mem \<Rightarrow> bool" where
  "moved_space n len m root c v \<longleftrightarrow> root_apart (words v) (pml4 v) \<and> (\<forall>i < 512. in_use (words v) (pml4 v) i \<longleftrightarrow> i < c) \<and>
     (\<forall>i < 512. entry_shows m root i (safe_words n len (pml4 v) (next_available_mapping_page v)) (words v) (pml4 v) i) \<and>
     (\<forall>a. a \<notin> copy_area n len \<longrightarrow> words v a = m a) \<and> region_left n len v"

definition mapped_space :: "u64 \<Rightarrow> nat \<Rightarrow> (u64 \<Rightarrow> u64) \<Rightarrow> u64 \<Rightarrow> nat \<Rightarrow> uefi_mem \<Rightarrow> bool" where
  "mapped_space n len m root c u \<longleftrightarrow> is_page (pml4 u) \<and>
     (\<forall>i < 512. i < 511 - c \<or> i = 511 \<longrightarrow>
        entry_shows m root i (safe_words n len (pml4 u) (next_available_mapping_page u)) (words u) (pml4 u) i) \<and>
     (\<forall>i < c. entry_shows m root i (safe_words n len (pml4 u) (next_available_mapping_page u)) (words u) (pml4 u) (511 - c + i)) \<and>
     \<not> in_use (words u) (pml4 u) 511 \<and> (\<forall>a. a \<notin> copy_area n len \<longrightarrow> words u a = m a) \<and> region_left n len u"

lemmas space_defs = mapped_space_def region_left_def

text \<open>The first two steps.\<close>

lemma boot_moved:
  assumes ready: "boot_ready n d (unat (push_bit 12 pages)) (words st) reg c"
  obtains st1 where "make_writable (old_addr_to_new_map n d reg) reg (snd (move_tables reg n d pages st)) = st1"
    "fst (move_tables reg n d pages st) = old_addr_to_new_map n d reg" "pml4 st1 = old_addr_to_new_map n d reg"
    "moved_space n (unat (push_bit 12 pages)) (words st) reg c st1"
    "\<exists>t \<in> upper_tables (words st) reg. unat (next_available_mapping_page st1) = unat (old_addr_to_new_map n d t) + 4096"
proof -
  let ?len = "unat (push_bit 12 pages)" and ?f = "old_addr_to_new_map n d" and ?m = "words st"
  have r: "regions_ok n d ?len" and fw: "firmware_tables d ?len ?m reg" and last: "last_level_outside n ?len ?m reg"
    and first: "\<forall>i < 512. in_use ?m reg i \<longleftrightarrow> i < c" and full: "\<forall>t \<in> upper_tables ?m reg. \<exists>k < 512. in_use ?m t k"
    and old: "in_use ?m reg (unat (VA_GET_PML4_INDEX reg))" "tabled ?m (next_of ?m reg (unat (VA_GET_PML4_INDEX reg))) (unat (VA_GET_PDP_INDEX reg))"
    using ready by (simp_all add: boot_ready_def)
  obtain st0 m0 where mv: "move_tables reg n d pages st = (?f reg, st0)" "pml4 st0 = ?f reg" and
    leaf: "\<And>i j k l. i < 512 \<Longrightarrow> j < 512 \<Longrightarrow> k < 512 \<Longrightarrow> l < 512 \<Longrightarrow> leaf_entry (words st0) (pml4 st0) i j k l = leaf_entry ?m reg i j k l" and
    out: "\<And>a. a \<notin> copy_area n ?len \<Longrightarrow> words st0 a = ?m a" and base: "mapping_base_address st0 = n" and
    above: "\<And>t k. t \<in> upper_tables ?m reg \<Longrightarrow> k < 512 \<Longrightarrow> in_use ?m t k \<Longrightarrow> unat (?f t) + 4096 \<le> unat (next_available_mapping_page st0)" and
    np: "4096 dvd unat (next_available_mapping_page st0)" and cp: "copied n d ?len ?m m0" and w: "words st0 = moved_memory n d m0 reg" and
    left: "unat (next_available_mapping_page st0) + 4096 * unat (available_mapping_page_count st0) = unat n + ?len" and
    high: "unat (next_available_mapping_page st0) = 4096 \<or>
       (\<exists>t \<in> upper_tables ?m reg. unat (next_available_mapping_page st0) = unat (?f t) + 4096)"
    by (rule move_tables_core [OF r fw last]) blast
  obtain e where e: "make_writable (?f reg) reg st0 = store e (words st0 e OR WRITABLE_FLAG) st0" "e \<in> copy_area n ?len"
    by (rule make_writable_words [OF r fw cp w old]) blast
  define st1 where "st1 = store e (words st0 e OR WRITABLE_FLAG) st0"
  have same: "pml4 st1 = ?f reg" "next_available_mapping_page st1 = next_available_mapping_page st0"
    "available_mapping_page_count st1 = available_mapping_page_count st0" "mapping_base_address st1 = n"
    by (simp_all add: st1_def store_def mv(2) base)
  have wr: "up_to_writable (words st0) (words st1)" by (simp add: up_to_writable_def st1_def store_def)
  have used: "unat (?f t) + 4096 \<le> unat (next_available_mapping_page st0)" if "t \<in> upper_tables ?m reg" for t
    using full above that by blast
  have reg: "in_region n ?len (?f reg)" using shift_region [OF r] fw by (simp add: firmware_tables_def)
  have top: "unat (?f reg) + 4096 \<le> unat (next_available_mapping_page st0)" by (rule used) (simp add: upper_tables_def)
  have "moved_space n ?len ?m reg c st1"
    unfolding moved_space_def region_left_def
  proof (intro conjI allI impI)
    show "root_apart (words st1) (pml4 st1)"
      using moved_root_apart [OF r fw cp last] unfolding root_apart_up_to_writable [OF wr] w same(1) .
    show "in_use (words st1) (pml4 st1) i \<longleftrightarrow> i < c" if "i < 512" for i
      using moved_levels(1) [OF r fw cp] first that unfolding up_to_writable_walk(1) [OF wr] w same(1) by blast
    fix i :: nat assume i: "i < 512"
    have "leaf_page (words st1) (pml4 st1) i j k l = leaf_page ?m reg i j k l" if "j < 512" "k < 512" "l < 512" for j k l
      using leaf [OF i that] unfolding up_to_writable_walk(4) [OF wr] same(1) mv(2) by (simp add: leaf_page_def)
    moreover have "leaf_words (words st1) (pml4 st1) i \<subseteq> safe_words n ?len (pml4 st1) (next_available_mapping_page st1)"
      using moved_leaf_words [OF r fw cp last i used] unfolding leaf_words_up_to_writable [OF wr] w same .
    ultimately show "entry_shows ?m reg i (safe_words n ?len (pml4 st1) (next_available_mapping_page st1)) (words st1) (pml4 st1) i"
      by (simp add: entry_shows_def)
    show "pml4 st1 + 8 * of_nat i \<in> copy_area n ?len" using region_entry [OF r reg i] same(1) by simp
  next
    show "words st1 a = ?m a" if "a \<notin> copy_area n ?len" for a
      using out [OF that] that e(2) by (auto simp: st1_def store_def)
  qed (use top reg in \<open>simp_all add: same np left in_region_def\<close>)
  moreover have "\<exists>t \<in> upper_tables ?m reg. unat (next_available_mapping_page st1) = unat (?f t) + 4096"
    using high
  proof
    assume "unat (next_available_mapping_page st0) = 4096"
    then have "unat (next_available_mapping_page st1) = unat (?f reg) + 4096" using top same(2) by simp
    moreover have "reg \<in> upper_tables ?m reg" by (simp add: upper_tables_def)
    ultimately show ?thesis by blast
  qed (simp add: same(2))
  moreover have "make_writable (?f reg) reg (snd (move_tables reg n d pages st)) = st1" using e(1) mv(1) by (simp add: st1_def)
  ultimately show ?thesis using that mv(1) same(1) by simp
qed

text \<open>The third step.\<close>

lemma window_mapped:
  assumes mv: "moved_space n len m root c v" and c: "0 < c" "c \<le> 255"
  obtains u where "set_up_mapping wide MAPPING_TYPE_MAP_ALL (pml4 v) v = (OFFSETS_TO_ADDR (of_nat (511 - c)) 0 0 0, u)"
    "mapped_space n len m root c u" "pml4 u = pml4 v" "next_available_mapping_page u = next_available_mapping_page v"
proof -
  let ?t = "pml4 v" and ?S = "safe_words n len (pml4 v) (next_available_mapping_page v)"
  have ap: "root_apart (words v) ?t" and use: "\<forall>i < 512. in_use (words v) ?t i \<longleftrightarrow> i < c"
    and shown: "\<And>i. i < 512 \<Longrightarrow> entry_shows m root i ?S (words v) ?t i" and out: "\<And>a. a \<notin> copy_area n len \<Longrightarrow> words v a = m a"
    and left: "region_left n len v"
    using mv by (simp_all add: moved_space_def)
  have area: "\<And>i. i < 512 \<Longrightarrow> ?t + 8 * of_nat i \<in> copy_area n len" using left by (simp add: region_left_def)
  have count: "pml4_entry_count v = c" using entry_count [OF use] c(2) by simp
  obtain u where su: "set_up_mapping wide MAPPING_TYPE_MAP_ALL ?t v = (OFFSETS_TO_ADDR (of_nat (511 - c)) 0 0 0, u)" and
    win: "\<forall>i < c. \<forall>j < 512. \<forall>k < 512. \<forall>l < 512. leaf_entry (words u) ?t (511 - c + i) j k l = leaf_entry (words v) ?t i j k l" and
    oth: "\<forall>i < 512. i < 511 - c \<or> i = 511 \<longrightarrow> (\<forall>j < 512. \<forall>k < 512. \<forall>l < 512. leaf_entry (words u) ?t i j k l = leaf_entry (words v) ?t i j k l)" and
    off: "\<forall>a. (\<forall>i < 512. a \<noteq> ?t + 8 * of_nat i) \<longrightarrow> words u a = words v a" and
    top: "\<forall>i < 512. i < 511 - c \<or> i = 511 \<longrightarrow> words u (?t + 8 * of_nat i) = words v (?t + 8 * of_nat i)" and
    topw: "\<forall>i < c. words u (?t + 8 * of_nat (511 - c + i)) = (words v (?t + 8 * of_nat i) AND ADDR_MASK) OR (PRESENT_FLAG OR WRITABLE_FLAG)" and
    u: "u = v\<lparr>words := words u\<rparr>"
    using window_core [OF ap _ use [unfolded count [symmetric]], of wide] c(2) unfolding count by blast
  have same: "pml4 u = ?t" "next_available_mapping_page u = next_available_mapping_page v"
    "available_mapping_page_count u = available_mapping_page_count v" "mapping_base_address u = mapping_base_address v"
    by (subst u, simp)+
  have safe: "words u a = words v a" if "a \<in> ?S \<or> a \<notin> copy_area n len" for a
  proof -
    have "a \<noteq> ?t + 8 * of_nat i" if "i < 512" for i using \<open>a \<in> ?S \<or> a \<notin> copy_area n len\<close> area [OF that] that unfolding safe_words_def by blast
    then show ?thesis using off by blast
  qed
  have low: "entry_shows m root i ?S (words u) ?t i" if "i < 512" "i < 511 - c \<or> i = 511" for i
  proof (rule entry_shows_cong [OF shown [OF that(1)]])
    have "words u (?t + 8 * of_nat i) = words v (?t + 8 * of_nat i)" using top that by blast
    then show "in_use (words u) ?t i = in_use (words v) ?t i" "next_of (words u) ?t i = next_of (words v) ?t i"
      by (simp_all add: in_use_def next_of_def)
  qed (use safe oth that in blast)+
  have high: "entry_shows m root i ?S (words u) ?t (511 - c + i)" if "i < c" for i
  proof (rule entry_shows_cong [OF shown])
    have "in_use (words v) ?t i" using use that c(2) by simp
    then show "in_use (words u) ?t (511 - c + i) = in_use (words v) ?t i" using topw that window_entry(1) by (simp add: in_use_def)
    show "next_of (words u) ?t (511 - c + i) = next_of (words v) ?t i" using topw that window_entry(2) by (simp add: next_of_def)
  qed (use safe win that c(2) in simp_all)
  have "\<not> in_use (words u) ?t 511" using top [rule_format, of 511] use [rule_format, of 511] c by (simp add: in_use_def)
  then have "mapped_space n len m root c u"
    using low high ap left safe out unfolding mapped_space_def region_left_def same root_apart_def by simp
  then show ?thesis by (rule that [OF su]) (rule same)+
qed

lemma boot_init_core:
  assumes src: "source_descriptor reg descs = Some (Inr src)" and dst: "dest_index (NumberOfPages src) descs = Some x"
  defines "n \<equiv> PhysicalStart (descs ! x)" and "d \<equiv> PhysicalStart src" and "len \<equiv> unat (push_bit 12 (NumberOfPages src))"
  assumes ready: "boot_ready n d len (words st) reg c"
  obtains u where "init_virtual_mapping wide reg MAPPING_TYPE_MAP_ALL descs base st = Some (EFI_SUCCESS,
      descs[x := (descs ! x)\<lparr>desc_type := 0x10\<rparr>], OFFSETS_TO_ADDR (of_nat (511 - c)) 0 0 0, pml4 u, u)"
    "pml4 u = old_addr_to_new_map n d reg" "mapped_space n len (words st) reg c u"
    "\<exists>t \<in> upper_tables (words st) reg. unat (next_available_mapping_page u) = unat (old_addr_to_new_map n d t) + 4096"
proof -
  have c: "0 < c" "c \<le> 255" using ready by (simp_all add: boot_ready_def)
  obtain v where v: "make_writable (old_addr_to_new_map n d reg) reg (snd (move_tables reg n d (NumberOfPages src) st)) = v"
    "fst (move_tables reg n d (NumberOfPages src) st) = old_addr_to_new_map n d reg" "pml4 v = old_addr_to_new_map n d reg"
    "moved_space n len (words st) reg c v"
    and high: "\<exists>t \<in> upper_tables (words st) reg. unat (next_available_mapping_page v) = unat (old_addr_to_new_map n d t) + 4096"
    unfolding len_def by (rule boot_moved [OF ready [unfolded len_def]]) blast
  obtain u where u: "set_up_mapping wide MAPPING_TYPE_MAP_ALL (pml4 v) v = (OFFSETS_TO_ADDR (of_nat (511 - c)) 0 0 0, u)"
    "mapped_space n len (words st) reg c u" "pml4 u = pml4 v" "next_available_mapping_page u = next_available_mapping_page v"
    by (rule window_mapped [OF v(4) c])
  have table: "n + reg - d = old_addr_to_new_map n d reg" by (simp add: old_addr_to_new_map_def)
  have "init_virtual_mapping wide reg MAPPING_TYPE_MAP_ALL descs base st = Some (EFI_SUCCESS,
      descs[x := (descs ! x)\<lparr>desc_type := 0x10\<rparr>], OFFSETS_TO_ADDR (of_nat (511 - c)) 0 0 0, pml4 u, u)"
    using src dst v(1-3) u(1,3) unfolding init_virtual_mapping_def
    by (auto simp: Let_def n_def [symmetric] d_def [symmetric] table split: prod.splits)
  then show ?thesis using that u high v(3) by simp
qed

end
