(* ===== verification/Boot_Kernel_Space.thy ===== *)
theory Boot_Kernel_Space
  imports Boot_Space
begin

text \<open>
  The two steps in one: what \<open>init_virtual_mapping\<close> leaves is what the loop over the segments relies on, and the
  address space the kernel gets.
\<close>

section \<open>The mapper is ready\<close>

text \<open>The top entries but the last one, which is the kernel's.\<close>

definition other_entries :: "u64 set" where
  "other_entries = {j. j < 511}"

definition rest_hidden :: "uefi_mem \<Rightarrow> uefi_mem" where
  "rest_hidden u = hide (top_entries (pml4 u) other_entries) u"

text \<open>What the mapper may write: the top table and the pages that are left.\<close>

definition written_words :: "uefi_mem \<Rightarrow> u64 set" where
  "written_words u = {a. (\<exists>i < 512. a = pml4 u + 8 * of_nat i) \<or> unat (next_available_mapping_page u) \<le> unat a \<and>
     unat a < unat (next_available_mapping_page u) + 4096 * unat (available_mapping_page_count u)}"

lemma empty_top:
  assumes r: "is_page root" and e: "\<And>i. i < 512 \<Longrightarrow> m (root + 8 * i) AND PRESENT_FLAG = 0"
  shows "tree m root" "tables m root = {root}" "small_pages m root"
proof -
  have w: "walk_from m root is = (if is = [] then Some root else None)" if "valid_path is" for "is"
    using that e by (cases "is") simp_all
  show "tables m root = {root}" by (auto simp: tables_def w split: if_splits intro!: exI [of _ "[]"])
  show "tree m root" using r by (auto simp: tree_def w split: if_splits)
  show "small_pages m root" using e by (auto simp: small_pages_def w split: if_splits)
qed

lemma spare_pages:
  assumes free: "4096 dvd unat (next_available_mapping_page u)"
    "unat (next_available_mapping_page u) + 4096 * unat (available_mapping_page_count u) \<le> 2 ^ 52"
    and k: "k < unat (available_mapping_page_count u)"
  shows "unat (spare u k) = unat (next_available_mapping_page u) + 4096 * k" "is_page (spare u k)"
proof -
  have b: "unat (next_available_mapping_page u) + 4096 * k + 4096 \<le> 2 ^ 52" using free(2) k by linarith
  have s: "unat (0x1000 * of_nat k :: u64) = 4096 * k"
    using unat_of_nat_u64 [of "4096 * k"] b by simp
  show u: "unat (spare u k) = unat (next_available_mapping_page u) + 4096 * k"
    unfolding spare_def using b by (subst unat_add_no_wrap) (simp_all add: s)
  show "is_page (spare u k)" by (rule is_pageI) (use u free(1) b in simp_all)
qed

lemma mapper_ready_core:
  assumes sp: "mapped_space n len m root c u" and r: "regions_ok n d len" and N: "N \<le> unat (available_mapping_page_count u)"
  shows "tables_ready (- written_words u) N (rest_hidden u)"
proof -
  let ?D = "top_entries (pml4 u) other_entries" and ?na = "next_available_mapping_page u" and ?c = "unat (available_mapping_page_count u)"
  have page: "is_page (pml4 u)" and unused: "\<not> in_use (words u) (pml4 u) 511" and above: "unat (pml4 u) + 4096 \<le> unat ?na"
    and np: "4096 dvd unat ?na" and left: "unat ?na + 4096 * ?c \<le> unat n + len"
    using sp by (simp_all add: space_defs)
  have b: "unat ?na + 4096 * ?c \<le> 2 ^ 52" using left r by (simp add: regions_ok_def)
  note spare = spare_pages [OF np b]
  have sh: "spare (rest_hidden u) k = spare u k" for k by (simp add: spare_def rest_hidden_def)
  have "words (rest_hidden u) (pml4 u + 8 * i) AND PRESENT_FLAG = 0" if i: "i < 512" for i
  proof (cases "i < 511")
    case True
    then have "pml4 u + 8 * i \<in> ?D" using top_entries_iff [OF page page i] by (simp add: other_entries_def)
    then show ?thesis by (simp add: rest_hidden_def hide_def)
  next
    case False
    then have "i = 511" using i by (simp add: word_less_nat_alt word_unat_eq_iff)
    moreover from this have "pml4 u + 8 * i \<notin> ?D" using top_entries_iff [OF page page i] by (simp add: other_entries_def)
    ultimately show ?thesis using unused by (simp add: rest_hidden_def in_use_def)
  qed
  note top = empty_top [where m = "words (rest_hidden u)", OF page this]
  have inj: "inj_on (spare u) {..<N}"
  proof (rule inj_onI)
    fix j k assume "j \<in> {..<N}" "k \<in> {..<N}" and eq: "spare u j = spare u k"
    then have jk: "j < ?c" "k < ?c" using N by simp_all
    have "unat ?na + 4096 * j = unat ?na + 4096 * k" unfolding spare(1) [OF jk(1), symmetric] spare(1) [OF jk(2), symmetric] eq ..
    then show "j = k" by simp
  qed
  have apart_spare: "apart (- written_words u) (spare u k)" if k: "k < N" for k
    unfolding apart_def
  proof (intro ballI allI impI)
    fix a j assume a: "a \<in> - written_words u" and j: "j < (512 :: u64)"
    have uk: "k < ?c" using k N by simp
    have "unat (spare u k + 8 * j) = unat ?na + 4096 * k + 8 * unat j"
      using entry_unat [OF spare(2) [OF uk] j] spare(1) [OF uk] by simp
    moreover have "unat j < 512" using j by (simp add: word_less_nat_alt)
    ultimately have "unat ?na \<le> unat (spare u k + 8 * j)" "unat (spare u k + 8 * j) < unat ?na + 4096 * ?c" using uk by linarith+
    then show "a \<noteq> spare u k + 8 * j" using a by (auto simp: written_words_def)
  qed
  have apart_top: "apart (- written_words u) (pml4 u)"
    unfolding apart_def
  proof (intro ballI allI impI)
    fix a j assume a: "a \<in> - written_words u" and j: "j < (512 :: u64)"
    have "unat j < 512" "pml4 u + 8 * j = pml4 u + 8 * of_nat (unat j)" using j by (simp_all add: word_less_nat_alt)
    then show "a \<noteq> pml4 u + 8 * j" using a unfolding written_words_def by blast
  qed
  have "spare u k \<noteq> pml4 u" "is_page (spare u k)" if "k < N" for k
  proof -
    have "k < ?c" using that N by simp
    then show "spare u k \<noteq> pml4 u" "is_page (spare u k)" using spare [of k] above by auto
  qed
  moreover have "pml4 (rest_hidden u) = pml4 u" by (simp add: rest_hidden_def)
  moreover have "inj_on (spare (rest_hidden u)) {..<N}" using inj by (simp add: inj_on_def sh)
  ultimately show ?thesis using top apart_spare apart_top by (simp add: tables_ready_def sh)
qed

lemma safe_not_written:
  assumes sp: "mapped_space n len m root c u"
  shows "safe_words n len (pml4 u) (next_available_mapping_page u) \<subseteq> - written_words u" "- copy_area n len \<subseteq> - written_words u"
proof -
  have top: "\<forall>i < 512. pml4 u + 8 * of_nat i \<in> copy_area n len" and b: "unat n \<le> unat (next_available_mapping_page u)"
    "unat (next_available_mapping_page u) + 4096 * unat (available_mapping_page_count u) \<le> unat n + len"
    using sp by (simp_all add: space_defs)
  have w: "a \<in> copy_area n len" if "a \<in> written_words u" for a
    using that top b by (auto simp: written_words_def copy_area_def)
  then show "- copy_area n len \<subseteq> - written_words u" by blast
  show "safe_words n len (pml4 u) (next_available_mapping_page u) \<subseteq> - written_words u"
    using w by (force simp: safe_words_def written_words_def)
qed

section \<open>Walks and leaves\<close>

lemma small_pagesD:
  "small_pages m root \<Longrightarrow> walk_from m root is = Some p \<Longrightarrow> length is \<le> 2 \<Longrightarrow> valid_path is \<Longrightarrow> i < 512 \<Longrightarrow>
    in_use m p (unat i) \<Longrightarrow> m (p + 8 * i) AND PAGE_SIZE_FLAG = 0"
  unfolding small_pages_def in_use_def by simp

text \<open>Without large pages the walk through four levels ends at the frame of the leaf entry.\<close>

lemma walk_leaf:
  assumes small: "small_pages m root" and ind: "i < 512" "j < 512" "k < 512" "l < 512"
  shows "map_option (\<lambda>(level, v). (level, v AND ADDR_MASK)) (leaf_entry m root i j k l) =
    map_option (Pair 1) (walk_from m root [of_nat i, of_nat j, of_nat k, of_nat l])"
proof (cases "in_use m root i \<and> in_use m (next_of m root i) j")
  case True
  let ?p = "next_of m root i" and ?q = "next_of m (next_of m root i) j"
  have w1: "walk_from m root [of_nat i] = Some ?p" using True by (simp add: in_use_def next_of_def)
  have w2: "walk_from m root [of_nat i, of_nat j] = Some ?q" using True by (simp add: in_use_def next_of_def)
  have "m (?p + 8 * of_nat j) AND PAGE_SIZE_FLAG = 0"
    by (rule small_pagesD [OF small w1]) (use True ind in \<open>simp_all add: index_word\<close>)
  moreover have "m (?q + 8 * of_nat k) AND PAGE_SIZE_FLAG = 0" if "in_use m ?q k"
    by (rule small_pagesD [OF small w2]) (use that ind in \<open>simp_all add: index_word\<close>)
  ultimately show ?thesis using True by (auto simp: leaf_entry_def Let_def in_use_def next_of_def)
qed (auto simp: leaf_entry_def Let_def in_use_def next_of_def)

text \<open>The words a page of the kernel depends on are not hidden.\<close>

lemma kernel_leaf:
  assumes ready: "tables_ready F n (rest_hidden u)" and ind: "j < 512" "k < 512" "l < 512"
  shows "leaf_entry (words u) (pml4 u) 511 j k l = leaf_entry (words (rest_hidden u)) (pml4 u) 511 j k l"
proof (rule leaf_entry_cong [OF _ _ ind])
  let ?D = "top_entries (pml4 u) other_entries" and ?W = "words (rest_hidden u)" and ?root = "pml4 u"
  have p: "pml4 (rest_hidden u) = ?root" by (simp add: rest_hidden_def)
  have page: "is_page ?root" using ready by (simp add: tables_ready_def tree_def p)
  have same: "words u a = ?W a" if "a \<notin> ?D" for a using that by (simp add: rest_hidden_def)
  have "?root + 8 * 511 \<notin> ?D" using top_entries_iff [OF page page, of 511] by (simp add: other_entries_def)
  from same [OF this] show "words u (?root + 8 * of_nat 511) = ?W (?root + 8 * of_nat 511)" by simp
  have out: "q + 8 * of_nat x \<notin> ?D" if "walk_from ?W ?root is = Some q" "is \<noteq> []" "length is \<le> 3" "valid_path is" "x < 512" for q "is" x
    by (rule below_not_hidden [OF ready _ index_word(1) [OF that(5)], of _ other_entries "is"])
      (use that p in \<open>simp_all add: boot_lookup_def\<close>)
  fix a assume a: "a \<in> leaf_words ?W ?root 511"
  then have u: "in_use ?W ?root 511" by (simp add: leaf_words_def split: if_splits)
  let ?p = "next_of ?W ?root 511"
  have w1: "walk_from ?W ?root [511] = Some ?p" using u by (simp add: in_use_def next_of_def)
  have w2: "walk_from ?W ?root [511, of_nat j] = Some (next_of ?W ?p j)" if "tabled ?W ?p j" for j
    using u that by (simp add: in_use_def next_of_def tabled_def)
  have w3: "walk_from ?W ?root [511, of_nat j, of_nat k] = Some (next_of ?W (next_of ?W ?p j) k)"
    if "tabled ?W ?p j" "tabled ?W (next_of ?W ?p j) k" for j k
    using u that by (simp add: in_use_def next_of_def tabled_def)
  from a u consider j where "j < 512" "a = ?p + 8 * of_nat j"
    | j k where "j < 512" "k < 512" "tabled ?W ?p j" "a = next_of ?W ?p j + 8 * of_nat k"
    | j k l where "j < 512" "k < 512" "l < 512" "tabled ?W ?p j" "tabled ?W (next_of ?W ?p j) k" "a = next_of ?W (next_of ?W ?p j) k + 8 * of_nat l"
    unfolding leaf_words_def by auto
  then have "a \<notin> ?D"
  proof cases
    case 1
    then show ?thesis using out [OF w1] by simp
  next
    case 2
    then show ?thesis using out [OF w2] index_word(1) by simp
  next
    case 3
    then show ?thesis using out [OF w3] index_word(1) by simp
  qed
  then show "words u a = ?W a" by (rule same)
qed

section \<open>The address space of the kernel\<close>

definition segment_runs :: "(u64 \<Rightarrow> u64) \<Rightarrow> u64 \<Rightarrow> u64 \<Rightarrow> (u64 list \<times> u64) list" where
  "segment_runs m hdr kernel_size =
     concat (map (\<lambda>i. image_run m hdr kernel_size (of_nat i)) [0..<unat (prog_header_entry_num m hdr)])"

definition segment_page_total :: "(u64 \<Rightarrow> u64) \<Rightarrow> u64 \<Rightarrow> u64 \<Rightarrow> nat" where
  "segment_page_total m hdr kernel_size =
     sum_list (map (\<lambda>i. unat (image_pages m hdr kernel_size (of_nat i))) [0..<unat (prog_header_entry_num m hdr)])"

text \<open>An entry of the top table below the last one, when the loader has written neither it nor what is below it.\<close>

lemma entry_shows_kept:
  assumes old: "entry_shows m root i S (words u) (pml4 u) x" and x: "x < 511" and page: "is_page (pml4 u)"
    and kept: "kept (top_entries (pml4 u) other_entries) u v" and same: "\<And>a. a \<in> S \<Longrightarrow> words v a = words u a"
  shows "entry_shows m root i S (words v) (pml4 u) x"
proof (rule entry_shows_cong [OF old same])
  have "(of_nat x :: u64) < 511" using x by (simp add: word_less_nat_alt unat_of_nat_u64)
  then have "pml4 u + 8 * of_nat x \<in> top_entries (pml4 u) other_entries"
    using top_entries_iff [OF page page index_word(1)] x by (simp add: other_entries_def)
  then have top: "words v (pml4 u + 8 * of_nat x) = words u (pml4 u + 8 * of_nat x)" using kept by (simp add: kept_def)
  then show "in_use (words v) (pml4 u) x = in_use (words u) (pml4 u) x" "next_of (words v) (pml4 u) x = next_of (words u) (pml4 u) x"
    by (simp_all add: in_use_def next_of_def)
  have "words v a = words u a" if "a \<in> leaf_words (words u) (pml4 u) x" for a
    using same that old unfolding entry_shows_def by blast
  then show "\<forall>j < 512. \<forall>k < 512. \<forall>l < 512. leaf_entry (words v) (pml4 u) x j k l = leaf_entry (words u) (pml4 u) x j k l"
    using leaf_entry_cong [where m' = "words v" and m = "words u", OF top] by blast
qed

text \<open>The walk of the processor through the last entry is the walk through four levels.\<close>

lemma last_entry_walk:
  assumes ready: "tables_ready F 0 (rest_hidden v)" and ind: "j < 512" "k < 512" "l < 512"
  shows "map_option (\<lambda>(level, v). (level, v AND ADDR_MASK)) (leaf_entry (words v) (pml4 v) 511 j k l) =
    map_option (Pair 1) (boot_lookup v [511, of_nat j, of_nat k, of_nat l])"
proof -
  let ?js = "[511, of_nat j, of_nat k, of_nat l] :: u64 list" and ?h = "rest_hidden v"
  have js: "length ?js \<le> 4" "valid_path ?js" "hd ?js \<notin> other_entries" using ind by (simp_all add: index_word other_entries_def)
  have p: "pml4 ?h = pml4 v" by (simp add: rest_hidden_def)
  have "leaf_entry (words v) (pml4 v) 511 j k l = leaf_entry (words ?h) (pml4 v) 511 j k l" by (rule kernel_leaf [OF ready ind])
  moreover have "map_option (\<lambda>(level, v). (level, v AND ADDR_MASK)) (leaf_entry (words ?h) (pml4 v) 511 j k l) =
      map_option (Pair 1) (walk_from (words ?h) (pml4 v) ?js)"
    using walk_leaf [OF _ _ ind, of "words ?h" "pml4 v" 511] ready p by (simp add: tables_ready_def)
  moreover have "walk_from (words ?h) (pml4 v) ?js = boot_lookup v ?js"
    using boot_lookup_hide [OF ready [unfolded rest_hidden_def] refl js] p by (simp add: boot_lookup_def rest_hidden_def)
  ultimately show ?thesis by simp
qed

lemma kernel_loaded:
  assumes sp: "mapped_space n len m root c u" and r: "regions_ok n d len" and c: "c \<le> 255"
    and st: "\<And>i. \<not> efi_error (left i)" and image: "image_words (words u) hdr \<inter> copy_area n len = {}"
    and room: "3 * segment_page_total (words u) hdr kernel_size \<le> unat (available_mapping_page_count u)"
    and own: "\<forall>x \<in> set (segment_runs (words u) hdr kernel_size). hd (fst x) = 511"
  obtains ld where "load_kernel efi_error left hdr kernel_size u = (None, ld)" "pml4 (uefi ld) = pml4 u"
    "\<And>i j k l. i < 511 - c \<Longrightarrow> j < 512 \<Longrightarrow> k < 512 \<Longrightarrow> l < 512 \<Longrightarrow> leaf_page (words (uefi ld)) (pml4 u) i j k l = leaf_page m root i j k l"
    "\<And>i j k l. i < c \<Longrightarrow> j < 512 \<Longrightarrow> k < 512 \<Longrightarrow> l < 512 \<Longrightarrow> leaf_page (words (uefi ld)) (pml4 u) (511 - c + i) j k l = leaf_page m root i j k l"
    "\<And>j k l. j < 512 \<Longrightarrow> k < 512 \<Longrightarrow> l < 512 \<Longrightarrow>
       map_option (\<lambda>(level, v). (level, v AND ADDR_MASK)) (leaf_entry (words (uefi ld)) (pml4 u) 511 j k l) =
       map_option (Pair 1) (map_of (segment_runs (words u) hdr kernel_size) [511, of_nat j, of_nat k, of_nat l])"
    "\<And>a. a \<notin> copy_area n len \<Longrightarrow> words (uefi ld) a = m a" "tables_ready (- written_words u) 0 (rest_hidden (uefi ld))"
proof -
  let ?D = "top_entries (pml4 u) other_entries" and ?F = "- written_words u"
  have F: "image_words (words u) hdr \<subseteq> ?F" using image safe_not_written(2) [OF sp] by blast
  have ready: "tables_ready ?F (0 + 3 * segment_page_total (words u) hdr kernel_size) (hide ?D u)"
    using mapper_ready_core [OF sp r room] by (simp add: rest_hidden_def)
  have clear: "\<forall>i < unat (prog_header_entry_num (words u) hdr). clear_of other_entries (image_run (words u) hdr kernel_size (of_nat i))"
    using own by (force simp: clear_of_def other_entries_def segment_runs_def)
  obtain ld where ld: "load_kernel efi_error left hdr kernel_size u = (None, ld)" "kept ?D u (uefi ld)" "pml4 (uefi ld) = pml4 u"
    "tables_ready ?F 0 (hide ?D (uefi ld))" "\<forall>a \<in> ?F. words (uefi ld) a = words u a" and
    look: "\<And>js. length js = 4 \<Longrightarrow> valid_path js \<Longrightarrow> hd js \<notin> other_entries \<Longrightarrow>
      boot_lookup (uefi ld) js = (map_of (segment_runs (words u) hdr kernel_size) ++ boot_lookup u) js"
    unfolding segment_runs_def
    by (rule load_kernel_hidden [where efi_error = efi_error and left = left, OF st F refl ready [unfolded segment_page_total_def] clear]) blast
  have page: "is_page (pml4 u)" and unused: "\<not> in_use (words u) (pml4 u) 511" and out: "\<And>a. a \<notin> copy_area n len \<Longrightarrow> words u a = m a"
    using sp by (simp_all add: space_defs)
  have same: "words (uefi ld) a = words u a" if "a \<in> safe_words n len (pml4 u) (next_available_mapping_page u)" for a
    using ld(5) that safe_not_written(1) [OF sp] by blast
  note kept = entry_shows_kept [OF _ _ page ld(2) same]
  have low: "entry_shows m root i (safe_words n len (pml4 u) (next_available_mapping_page u)) (words (uefi ld)) (pml4 u) i" if "i < 511 - c" for i
    using kept [of m root i _ i] sp that by (simp add: space_defs)
  have win: "entry_shows m root i (safe_words n len (pml4 u) (next_available_mapping_page u)) (words (uefi ld)) (pml4 u) (511 - c + i)" if "i < c" for i
    using kept [of m root i _ "511 - c + i"] sp that c by (simp add: space_defs)
  have rh: "tables_ready ?F 0 (rest_hidden (uefi ld))" using ld(3,4) by (simp add: rest_hidden_def)
  show ?thesis
  proof (rule that [OF ld(1,3)])
    show "leaf_page (words (uefi ld)) (pml4 u) i j k l = leaf_page m root i j k l" if "i < 511 - c" "j < 512" "k < 512" "l < 512" for i j k l
      using low that by (simp add: entry_shows_def)
    show "leaf_page (words (uefi ld)) (pml4 u) (511 - c + i) j k l = leaf_page m root i j k l" if "i < c" "j < 512" "k < 512" "l < 512" for i j k l
      using win [OF that(1)] that(2-4) by (simp add: entry_shows_def)
    show "words (uefi ld) a = m a" if "a \<notin> copy_area n len" for a
      using ld(5) safe_not_written(2) [OF sp] out [OF that] that by (metis ComplI subsetD)
    fix j k l :: nat assume ind: "j < 512" "k < 512" "l < 512"
    let ?js = "[511, of_nat j, of_nat k, of_nat l] :: u64 list"
    have js: "length ?js = 4" "valid_path ?js" "hd ?js \<notin> other_entries" using ind by (simp_all add: index_word other_entries_def)
    have "boot_lookup u ?js = None" using unused by (simp add: boot_lookup_def in_use_def)
    then have "boot_lookup (uefi ld) ?js = map_of (segment_runs (words u) hdr kernel_size) ?js"
      using look [OF js] by (simp add: map_add_def split: option.splits)
    then show "map_option (\<lambda>(level, v). (level, v AND ADDR_MASK)) (leaf_entry (words (uefi ld)) (pml4 u) 511 j k l) =
        map_option (Pair 1) (map_of (segment_runs (words u) hdr kernel_size) ?js)"
      using last_entry_walk [OF rh ind] ld(3) by simp
  qed (rule rh)
qed

text \<open>What the loop over the segments reads of the file: the words of the loop and the offset of the table.\<close>

definition header_words :: "(u64 \<Rightarrow> u64) \<Rightarrow> u64 \<Rightarrow> u64 set" where
  "header_words m hdr = insert (hdr + 32) (image_words m hdr)"

lemma header_same:
  assumes same: "\<And>a. a \<in> header_words m hdr \<Longrightarrow> w a = m a"
  shows "image_words w hdr = image_words m hdr" "segment_runs w hdr kernel_size = segment_runs m hdr kernel_size"
    "segment_page_total w hdr kernel_size = segment_page_total m hdr kernel_size"
proof -
  have F: "\<forall>a \<in> header_words m hdr. w a = m a" "image_words m hdr \<subseteq> header_words m hdr"
    using same by (auto simp: header_words_def)
  have t: "image_table w hdr = image_table m hdr"
    using same by (simp add: image_table_def prog_header_table_offset_def field_def header_words_def)
  have "hdr + 56 \<in> header_words m hdr" by (simp add: header_words_def image_words_def)
  then have num: "prog_header_entry_num w hdr = prog_header_entry_num m hdr"
    using same by (simp add: prog_header_entry_num_def field_def)
  note f = image_fields_same [OF F]
  show "image_words w hdr = image_words m hdr" by (simp add: image_words_def t num)
  have pages: "image_pages w hdr kernel_size (of_nat i) = image_pages m hdr kernel_size (of_nat i)"
    "image_run w hdr kernel_size (of_nat i) = image_run m hdr kernel_size (of_nat i)"
    if "i < unat (prog_header_entry_num m hdr)" for i
    using f [OF that] by (simp_all add: image_run_def image_pages_def t num)
  show "segment_runs w hdr kernel_size = segment_runs m hdr kernel_size"
    unfolding segment_runs_def num by (intro arg_cong [where f = concat] map_cong refl pages) simp
  show "segment_page_total w hdr kernel_size = segment_page_total m hdr kernel_size"
    unfolding segment_page_total_def num by (intro arg_cong [where f = sum_list] map_cong refl arg_cong [where f = unat] pages) simp
qed

text \<open>The two steps on the memory the bootloader starts from.\<close>

lemma boot_space_core:
  assumes "source_descriptor reg descs = Some (Inr src)" and "dest_index (NumberOfPages src) descs = Some x"
    and "n = PhysicalStart (descs ! x)" and "d = PhysicalStart src" and "len = unat (push_bit 12 (NumberOfPages src))"
    and "boot_ready n d len (words st) reg c"
    and "header_words (words st) hdr \<inter> copy_area n len = {}"
    and "\<forall>t \<in> upper_tables (words st) reg.
      unat (old_addr_to_new_map n d t) + 4096 * (1 + 3 * segment_page_total (words st) hdr kernel_size) \<le> unat n + len"
    and "\<forall>p \<in> set (segment_runs (words st) hdr kernel_size). hd (fst p) = 511"
  obtains u where "init_virtual_mapping wide reg MAPPING_TYPE_MAP_ALL descs base st = Some (EFI_SUCCESS,
      descs[x := (descs ! x)\<lparr>desc_type := 0x10\<rparr>], OFFSETS_TO_ADDR (of_nat (511 - c)) 0 0 0, pml4 u, u)"
    "pml4 u = old_addr_to_new_map n d reg" "mapped_space n len (words st) reg c u" "regions_ok n d len" "c \<le> 255"
    "image_words (words u) hdr \<inter> copy_area n len = {}"
    "3 * segment_page_total (words u) hdr kernel_size \<le> unat (available_mapping_page_count u)"
    "\<forall>p \<in> set (segment_runs (words u) hdr kernel_size). hd (fst p) = 511"
    "segment_runs (words u) hdr kernel_size = segment_runs (words st) hdr kernel_size"
proof -
  note ready = assms(6) [unfolded assms(3-5)]
  obtain u where u: "init_virtual_mapping wide reg MAPPING_TYPE_MAP_ALL descs base st = Some (EFI_SUCCESS,
      descs[x := (descs ! x)\<lparr>desc_type := 0x10\<rparr>], OFFSETS_TO_ADDR (of_nat (511 - c)) 0 0 0, pml4 u, u)"
    "pml4 u = old_addr_to_new_map n d reg" and sp: "mapped_space n len (words st) reg c u" and
    high: "\<exists>t \<in> upper_tables (words st) reg. unat (next_available_mapping_page u) = unat (old_addr_to_new_map n d t) + 4096"
    unfolding assms(3-5) by (rule boot_init_core [OF assms(1,2) ready]) blast
  have rc: "regions_ok n d len" "c \<le> 255" using assms(6) by (simp_all add: boot_ready_def)
  have outside: "\<And>a. a \<notin> copy_area n len \<Longrightarrow> words u a = words st a" using sp by (simp add: space_defs)
  have keep: "\<And>a. a \<in> header_words (words st) hdr \<Longrightarrow> words u a = words st a" using outside assms(7) by blast
  note same = header_same [where m = "words st" and w = "words u" and hdr = hdr, OF keep, simplified]
  have image: "image_words (words u) hdr \<inter> copy_area n len = {}" unfolding same(1) using assms(7) by (auto simp: header_words_def)
  have "unat (next_available_mapping_page u) + 4096 * unat (available_mapping_page_count u) = unat n + len"
    using sp by (simp add: space_defs)
  then have room: "3 * segment_page_total (words u) hdr kernel_size \<le> unat (available_mapping_page_count u)"
    using high assms(8) unfolding same(3) by auto
  show ?thesis by (rule that [OF u sp rc image room _ same(2)]) (use assms(9) in \<open>simp only: same(2)\<close>)
qed

text \<open>The tables under the last entry are pages that were free after \<open>init_virtual_mapping\<close>.\<close>

lemma new_tables:
  assumes sp: "mapped_space n len m root c u" and r: "regions_ok n d len"
    and ready: "tables_ready (- written_words u) 0 (rest_hidden v)" and same: "pml4 v = pml4 u"
    and w: "walk_from (words v) (pml4 v) (511 # is) = Some p" "length is \<le> 2" "valid_path is"
  obtains i where "unat (snd (get_mapping_pointers_and_count u)) \<le> i" "4096 * i < len" "p = n + push_bit 12 (of_nat i)"
proof -
  let ?next = "next_available_mapping_page u"
  have js: "length (511 # is) \<le> 4" "valid_path (511 # is)" "hd (511 # is) \<notin> other_entries" using w(2,3) by (simp_all add: other_entries_def)
  have t: "tree (words (rest_hidden v)) (pml4 u)" using ready same by (simp add: tables_ready_def rest_hidden_def)
  have hidden: "walk_from (words (rest_hidden v)) (pml4 u) (511 # is) = Some p"
    using boot_lookup_hide [OF ready [unfolded rest_hidden_def] refl js] w(1) by (simp add: boot_lookup_def same rest_hidden_def)
  then have "p \<in> tables (words (rest_hidden v)) (pml4 u)" using w(2,3) by (intro tablesI [OF hidden]) simp_all
  then have "apart (- written_words u) p" using ready same by (simp add: tables_ready_def rest_hidden_def)
  then have "\<forall>a \<in> - written_words u. (0 :: u64) < 512 \<longrightarrow> a \<noteq> p + 8 * 0" unfolding apart_def by blast
  then have "p \<in> written_words u" by auto
  moreover have page: "is_page (pml4 u)" "is_page p" using t walk_page [OF _ hidden] by (simp_all add: tree_def)
  have "p \<noteq> pml4 u + 8 * of_nat i" if "i < 512" for i
  proof
    assume e: "p = pml4 u + 8 * of_nat i"
    then have "p = pml4 u" using table_entry_inj [OF page(2,1) _ that, of 0] by simp
    then have "511 # is = []" using w(2,3) by (intro tree_unique [OF t hidden]) simp_all
    then show False by simp
  qed
  ultimately have b: "unat ?next \<le> unat p" "unat p < unat n + len" "unat n \<le> unat ?next"
    using sp by (auto simp: written_words_def space_defs)
  have base: "mapping_base_address u = n" using sp by (simp add: space_defs)
  have dv: "4096 dvd unat p" "4096 dvd unat n" "4096 dvd unat ?next"
    using is_page_bounds [OF page(2)] r is_page_bounds [of n] sp by (simp_all add: regions_ok_def space_defs)
  obtain i where "unat p - unat n = 4096 * i" using dvd_diff_nat [OF dv(1,2)] by (elim dvdE)
  then have i: "unat p = unat n + 4096 * i" using b(1,3) by linarith
  have "unat (?next - n) = unat ?next - unat n" using b(3) by (simp add: unat_sub word_le_nat_alt)
  then have "unat (snd (get_mapping_pointers_and_count u)) = (unat ?next - unat n) div 4096"
    by (simp add: get_mapping_pointers_and_count_def base unat_drop_bit_div)
  then have "unat (snd (get_mapping_pointers_and_count u)) \<le> i" using b(1) i by (simp add: div_le_mono [of _ "4096 * i" 4096, simplified])
  moreover have "4096 * i < len" using b(2) i by simp
  moreover have "unat (push_bit 12 (of_nat i :: u64)) = 4096 * i"
    using b(2) i r unat_of_nat_u64 [of "4096 * i"] by (simp add: push_bit_eq_mult regions_ok_def mult.commute)
  then have "p = n + push_bit 12 (of_nat i)" 
    using i b(2) r unat_add_no_wrap [of n "push_bit 12 (of_nat i)"] by (simp add: word_unat_eq_iff regions_ok_def)
  ultimately show ?thesis by (rule that)
qed

section \<open>The claims\<close>


text \<open>C2: The address space the kernel starts in. The bootloader moves the tables of the firmware and maps the
  segments of the kernel, with the tables as the firmware has them, the header of the file outside the new region,
  all segments in the last 512 GiB and three pages left in the region for each page of a segment. Then both steps
  succeed; a page the firmware maps is mapped as before, up to the writable bit of its entry, in the lower entries
  of the top table; the window below the last entry maps what the first entries of the firmware map; the last entry
  maps exactly the pages of the segments, each to its frame; and no word outside the region is changed.\<close>

theorem boot_address_space:
  assumes "source_descriptor reg descs = Some (Inr src)" and "dest_index (NumberOfPages src) descs = Some x"
    and "n = PhysicalStart (descs ! x)" and "d = PhysicalStart src" and "len = unat (push_bit 12 (NumberOfPages src))"
    and "boot_ready n d len (words st) reg c" and "\<And>i. \<not> efi_error (left i)"
    and "header_words (words st) hdr \<inter> copy_area n len = {}"
    and "\<forall>t \<in> upper_tables (words st) reg.
      unat (old_addr_to_new_map n d t) + 4096 * (1 + 3 * segment_page_total (words st) hdr kernel_size) \<le> unat n + len"
    and "\<forall>p \<in> set (segment_runs (words st) hdr kernel_size). hd (fst p) = 511"
  shows "\<exists>u ld. init_virtual_mapping wide reg MAPPING_TYPE_MAP_ALL descs base st = Some (EFI_SUCCESS,
      descs[x := (descs ! x)\<lparr>desc_type := 0x10\<rparr>], OFFSETS_TO_ADDR (of_nat (511 - c)) 0 0 0, old_addr_to_new_map n d reg, u) \<and>
    load_kernel efi_error left hdr kernel_size u = (None, ld) \<and> pml4 (uefi ld) = old_addr_to_new_map n d reg \<and>
    (\<forall>i < 511 - c. \<forall>j < 512. \<forall>k < 512. \<forall>l < 512.
       leaf_page (words (uefi ld)) (pml4 (uefi ld)) i j k l = leaf_page (words st) reg i j k l) \<and>
    (\<forall>i < c. \<forall>j < 512. \<forall>k < 512. \<forall>l < 512.
       leaf_page (words (uefi ld)) (pml4 (uefi ld)) (511 - c + i) j k l = leaf_page (words st) reg i j k l) \<and>
    (\<forall>j < 512. \<forall>k < 512. \<forall>l < 512.
       map_option (\<lambda>(level, v). (level, v AND ADDR_MASK)) (leaf_entry (words (uefi ld)) (pml4 (uefi ld)) 511 j k l) =
       map_option (Pair 1) (map_of (segment_runs (words st) hdr kernel_size) [511, of_nat j, of_nat k, of_nat l])) \<and>
    (\<forall>a. a \<notin> copy_area n len \<longrightarrow> words (uefi ld) a = words st a)"
proof -
  obtain u where u: "init_virtual_mapping wide reg MAPPING_TYPE_MAP_ALL descs base st = Some (EFI_SUCCESS,
      descs[x := (descs ! x)\<lparr>desc_type := 0x10\<rparr>], OFFSETS_TO_ADDR (of_nat (511 - c)) 0 0 0, pml4 u, u)"
    "pml4 u = old_addr_to_new_map n d reg" and sp: "mapped_space n len (words st) reg c u" and r: "regions_ok n d len" and c: "c \<le> 255"
    and image: "image_words (words u) hdr \<inter> copy_area n len = {}"
    and room: "3 * segment_page_total (words u) hdr kernel_size \<le> unat (available_mapping_page_count u)"
    and own: "\<forall>p \<in> set (segment_runs (words u) hdr kernel_size). hd (fst p) = 511"
    and same: "segment_runs (words u) hdr kernel_size = segment_runs (words st) hdr kernel_size"
    by (rule boot_space_core [OF assms(1-6,8-10)]) blast
  show ?thesis
  proof (rule kernel_loaded [where efi_error = efi_error and left = left, OF sp r c assms(7) image room own])
    fix ld
    assume ld: "load_kernel efi_error left hdr kernel_size u = (None, ld)" "pml4 (uefi ld) = pml4 u"
      "\<And>i j k l. i < 511 - c \<Longrightarrow> j < 512 \<Longrightarrow> k < 512 \<Longrightarrow> l < 512 \<Longrightarrow> leaf_page (words (uefi ld)) (pml4 u) i j k l = leaf_page (words st) reg i j k l"
      "\<And>i j k l. i < c \<Longrightarrow> j < 512 \<Longrightarrow> k < 512 \<Longrightarrow> l < 512 \<Longrightarrow> leaf_page (words (uefi ld)) (pml4 u) (511 - c + i) j k l = leaf_page (words st) reg i j k l"
      "\<And>j k l. j < 512 \<Longrightarrow> k < 512 \<Longrightarrow> l < 512 \<Longrightarrow>
         map_option (\<lambda>(level, v). (level, v AND ADDR_MASK)) (leaf_entry (words (uefi ld)) (pml4 u) 511 j k l) =
         map_option (Pair 1) (map_of (segment_runs (words u) hdr kernel_size) [511, of_nat j, of_nat k, of_nat l])"
      "\<And>a. a \<notin> copy_area n len \<Longrightarrow> words (uefi ld) a = words st a" "tables_ready (- written_words u) 0 (rest_hidden (uefi ld))"
    show ?thesis unfolding u(1) ld(1) u(2) [symmetric] ld(2) [symmetric]
      by (intro exI [of _ u] exI [of _ ld] conjI allI impI)
        (use u(2) ld in \<open>simp_all add: same\<close>)
  qed
qed


text \<open>A machine on which the claims apply: the tables of \<open>small_tables\<close>, and the file of \<open>small_image\<close> with
  its segment at the start of the last 2 GiB.\<close>

definition boot_memory :: "u64 \<Rightarrow> u64" where
  "boot_memory a = (if a < 0x40000 then (small_image(0x10050 := 0xFFFFFFFF80000000)) a else small_tables a)"

definition boot_regions :: "memory_descriptor list" where
  "boot_regions = [\<lparr>desc_type = 4, PhysicalStart = 0x40000, NumberOfPages = 16, Attribute = 0\<rparr>,
     \<lparr>desc_type = 7, PhysicalStart = 0x80000, NumberOfPages = 16, Attribute = 0\<rparr>]"

lemma boot_memory_entry:
  assumes "p \<in> {0x40000, 0x41000, 0x42000}" "i < 512"
  shows "boot_memory (p + 8 * of_nat i) = small_tables (p + 8 * of_nat i)"
proof -
  have "is_page p" using assms(1) small_table_pages by auto
  then have "unat (p + 8 * of_nat i) = unat p + 8 * i" by (rule table_entry_unat [OF _ assms(2)])
  then have "0x40000 \<le> p + 8 * of_nat i" using assms(1) by (auto simp: word_le_nat_alt)
  then have "\<not> p + 8 * of_nat i < 0x40000" by (simp only: not_less)
  then show ?thesis unfolding boot_memory_def by (simp only: if_False)
qed

text \<open>Any memory with these tables.\<close>

definition holds_tables :: "(u64 \<Rightarrow> u64) \<Rightarrow> bool" where
  "holds_tables m \<longleftrightarrow> (\<forall>p \<in> {0x40000, 0x41000, 0x42000}. \<forall>i < 512. m (p + 8 * of_nat i) = small_tables (p + 8 * of_nat i))"

lemma holds_tables_walk:
  assumes "holds_tables m" "p \<in> {0x40000, 0x41000, 0x42000}" "i < 512"
  shows "in_use m p i = in_use small_tables p i" "next_of m p i = next_of small_tables p i" "tabled m p i = tabled small_tables p i"
  using assms by (auto simp: holds_tables_def in_use_def next_of_def tabled_def)

lemma held_upper:
  assumes "holds_tables m"
  shows "upper_tables m 0x40000 = {0x40000, 0x41000, 0x42000}"
proof -
  note w = holds_tables_walk [OF assms]
  have "{next_of m 0x40000 i |i. i < 512 \<and> in_use m 0x40000 i} = {0x41000}" by (auto simp: w intro: exI [of _ 0])
  moreover have "{next_of m (next_of m 0x40000 i) j |i j. i < 512 \<and> in_use m 0x40000 i \<and> j < 512 \<and> tabled m (next_of m 0x40000 i) j} = {0x42000}"
    by (auto simp: w intro!: exI [of _ 0])
  ultimately show ?thesis by (auto simp: upper_tables_def)
qed

lemma held_ready:
  assumes h: "holds_tables m"
  shows "boot_ready 0x80000 0x40000 0x10000 m 0x40000 1"
proof -
  note w = holds_tables_walk [OF h]
  have e: "m (0x42000 + 8 * of_nat 0) = 0x83" using h unfolding holds_tables_def by force
  have idx: "unat (VA_GET_PML4_INDEX 0x40000) = 0" "unat (VA_GET_PDP_INDEX 0x40000) = 0"
    by (simp_all add: va_index_take_bit drop_bit_eq_div)
  have "regions_ok 0x80000 0x40000 0x10000" using small_table_pages by (simp add: regions_ok_def)
  moreover have "firmware_tables 0x40000 0x10000 m 0x40000"
    using small_table_pages by (auto simp: firmware_tables_def in_region_def w)
  moreover have "last_level_outside 0x80000 0x10000 m 0x40000"
    using e by (auto simp: last_level_outside_def w)
  moreover have "\<forall>t \<in> upper_tables m 0x40000. \<exists>k < 512. in_use m t k"
    unfolding held_upper [OF h] by (auto simp: w intro!: exI [of _ 0])
  ultimately show ?thesis by (auto simp: boot_ready_def idx w)
qed

lemma boot_memory_tables: "holds_tables boot_memory"
  using boot_memory_entry by (simp add: holds_tables_def)

lemmas boot_upper = held_upper [OF boot_memory_tables] and boot_memory_ready = held_ready [OF boot_memory_tables]
  and boot_memory_walk [simp] = holds_tables_walk [OF boot_memory_tables]

lemma boot_image_fields:
  "prog_header_entry_num boot_memory 0x10000 = 1" "image_table boot_memory 0x10000 = 0x10040"
  "entry_offset boot_memory 0x10040 0 = 0x1000" "entry_vaddr boot_memory 0x10040 0 = 0xFFFFFFFF80000000"
  "image_pages boot_memory 0x10000 0x2800 0 = 2"
proof -
  show f: "prog_header_entry_num boot_memory 0x10000 = 1" by code_simp
  show g: "image_table boot_memory 0x10000 = 0x10040" by code_simp
  show h: "entry_offset boot_memory 0x10040 0 = 0x1000" by code_simp
  show k: "entry_vaddr boot_memory 0x10040 0 = 0xFFFFFFFF80000000" by code_simp
  show "image_pages boot_memory 0x10000 0x2800 0 = 2"
    by (simp add: image_pages_def f g h k segment_size_def segment_pages_def Let_def)
qed

lemma boot_image_runs:
  "segment_runs boot_memory 0x10000 0x2800 = page_run 0x11000 0xFFFFFFFF80000000 2"
  "segment_page_total boot_memory 0x10000 0x2800 = 2"
  "header_words boot_memory 0x10000 = {0x10020, 0x10038, 0x10048, 0x10050}"
  by (auto simp: segment_runs_def segment_page_total_def image_run_def header_words_def image_words_def boot_image_fields lessThan_Suc)

lemma boot_image_paths: "va_path 0xFFFFFFFF80000000 = [511, 510, 0, 0]" "va_path 0xFFFFFFFF80001000 = [511, 510, 0, 1]"
  by code_simp+

lemma boot_image_pages: "page_run 0x11000 0xFFFFFFFF80000000 2 = [([511, 510, 0, 0], 0x11000), ([511, 510, 0, 1], 0x12000)]"
  by (simp add: page_run_def boot_image_paths upt_rec ADDR_MASK_def)

lemma boot_regions_fields:
  "source_descriptor 0x40000 boot_regions = Some (Inr (boot_regions ! 0))" "dest_index (NumberOfPages (boot_regions ! 0)) boot_regions = Some 1"
  "PhysicalStart (boot_regions ! 0) = 0x40000" "PhysicalStart (boot_regions ! 1) = 0x80000"
  "unat (push_bit 12 (NumberOfPages (boot_regions ! 0))) = 0x10000"
  by (simp_all add: boot_regions_def source_descriptor_def dest_index_def dest_fits_def push_bit_eq_mult upt_rec)

lemma boot_words: "words (with_image boot_memory) = boot_memory"
  by (simp add: with_image_def)

lemma boot_demo_fits:
  "header_words boot_memory 0x10000 \<inter> copy_area 0x80000 0x10000 = {}"
  "\<forall>t \<in> upper_tables boot_memory 0x40000.
    unat (old_addr_to_new_map 0x80000 0x40000 t) + 4096 * (1 + 3 * segment_page_total boot_memory 0x10000 0x2800) \<le> unat (0x80000 :: u64) + 0x10000"
  "\<forall>p \<in> set (segment_runs boot_memory 0x10000 0x2800). hd (fst p) = 511"
  "\<And>i :: nat. \<not> bit ((\<lambda>_. 0) i :: u64) 63"
  unfolding boot_upper by (simp_all add: boot_image_runs boot_image_pages copy_area_def old_addr_to_new_map_def)


theorem boot_address_space_witness:
  "\<exists>u ld. init_virtual_mapping 0 0x40000 MAPPING_TYPE_MAP_ALL boot_regions 0 (with_image boot_memory) = Some (EFI_SUCCESS,
      boot_regions[1 := (boot_regions ! 1)\<lparr>desc_type := 0x10\<rparr>], 0xFFFFFF0000000000, 0x80000, u) \<and>
    load_kernel (\<lambda>s. bit s 63) (\<lambda>_. 0) 0x10000 0x2800 u = (None, ld) \<and>
    leaf_page (words (uefi ld)) 0x80000 0 0 0 0 = Some (2, 0x83) \<and> leaf_page (words (uefi ld)) 0x80000 510 0 0 0 = Some (2, 0x83) \<and>
    map_option (\<lambda>(level, v). (level, v AND ADDR_MASK)) (leaf_entry (words (uefi ld)) 0x80000 511 510 0 1) = Some (1, 0x12000) \<and>
    leaf_entry (words (uefi ld)) 0x80000 511 510 0 2 = None"
proof -
  have base: "OFFSETS_TO_ADDR (of_nat (511 - 1)) 0 0 0 = 0xFFFFFF0000000000" by code_simp
  have root: "old_addr_to_new_map 0x80000 0x40000 0x40000 = 0x80000" by (simp add: old_addr_to_new_map_def)
  have leaf: "leaf_page boot_memory 0x40000 0 0 0 0 = Some (2, 0x83)"
    using boot_memory_entry [of "0x42000" 0] boot_memory_entry [of "0x41000" 0] by (simp add: leaf_page_def leaf_entry_def Let_def WRITABLE_FLAG_def)
  obtain u ld where run: "init_virtual_mapping 0 0x40000 MAPPING_TYPE_MAP_ALL boot_regions 0 (with_image boot_memory) = Some (EFI_SUCCESS,
      boot_regions[1 := (boot_regions ! 1)\<lparr>desc_type := 0x10\<rparr>], 0xFFFFFF0000000000, 0x80000, u)"
      "load_kernel (\<lambda>s. bit s 63) (\<lambda>_. 0) 0x10000 0x2800 u = (None, ld)" "pml4 (uefi ld) = 0x80000" and
    low: "\<forall>i < 511 - 1. \<forall>j < 512. \<forall>k < 512. \<forall>l < 512.
      leaf_page (words (uefi ld)) (pml4 (uefi ld)) i j k l = leaf_page boot_memory 0x40000 i j k l" and
    win: "\<forall>i < 1. \<forall>j < 512. \<forall>k < 512. \<forall>l < 512.
      leaf_page (words (uefi ld)) (pml4 (uefi ld)) (511 - 1 + i) j k l = leaf_page boot_memory 0x40000 i j k l" and
    kern: "\<forall>j < 512. \<forall>k < 512. \<forall>l < 512.
       map_option (\<lambda>(level, v). (level, v AND ADDR_MASK)) (leaf_entry (words (uefi ld)) (pml4 (uefi ld)) 511 j k l) =
       map_option (Pair 1) (map_of (segment_runs boot_memory 0x10000 0x2800) [511, of_nat j, of_nat k, of_nat l])"
    using boot_address_space [OF boot_regions_fields(1,2) boot_regions_fields(4) [symmetric] boot_regions_fields(3) [symmetric]
        boot_regions_fields(5) [symmetric], where st = "with_image boot_memory" and c = 1 and wide = 0 and base = 0 and efi_error = "\<lambda>s. bit s 63" and left = "\<lambda>_. 0",
        unfolded boot_words base root, OF boot_memory_ready boot_demo_fits(4) boot_demo_fits(1-3)]
    by (elim exE conjE)
  have "leaf_page (words (uefi ld)) 0x80000 0 0 0 0 = Some (2, 0x83)" using low [rule_format, of 0 0 0 0] by (simp add: run leaf)
  moreover have "leaf_page (words (uefi ld)) 0x80000 510 0 0 0 = Some (2, 0x83)" using win [rule_format, of 0 0 0 0] by (simp add: run leaf)
  moreover have "map_option (\<lambda>(level, v). (level, v AND ADDR_MASK)) (leaf_entry (words (uefi ld)) 0x80000 511 510 0 1) = Some (1, 0x12000)"
    using kern [rule_format, of 510 0 1] by (simp add: run boot_image_runs boot_image_pages)
  moreover have "leaf_entry (words (uefi ld)) 0x80000 511 510 0 2 = None"
    using kern [rule_format, of 510 0 2] by (simp add: run boot_image_runs boot_image_pages)
  ultimately show ?thesis using run(1,2) by blast
qed

end
