(* ===== verification/Boot_Terminal.thy ===== *)
theory Boot_Terminal
  imports Terminal_Props Boot_Map
begin

text \<open>
  The terminal of the bootloader: \<open>bootloader/arch/x86_64/uefi_tty.c\<close>, a second copy of \<open>tty.c\<close> with its own
  variables, its own \<open>strlen\<close> and another colour to start with. The functions are modelled a second time, statement by
  statement from this file, and proved to be the kernel's; so what is proved of that terminal holds of this one. Then
  the texts the other models of the bootloader collect in \<open>shown\<close> are what this terminal writes.
\<close>

section \<open>The functions\<close>

text \<open>The variables before the first call: all zero but the colour of the text.\<close>

definition uefi_tty_statics :: "(u64 \<Rightarrow> u32) \<Rightarrow> tty" where
  "uefi_tty_statics px = \<lparr>char_width = 0, char_height = 0, screen_width = 0, screen_height = 0, font_buffer = 0, framebuffer = 0,
     framebuffer_size = 0, fg_colour = 0x00DCDCDC, bg_colour = 0x00000000, terminal_column = 0, terminal_row = 0,
     TERMINAL_WIDTH = 0, TERMINAL_HEIGHT = 0, pixels = px\<rparr>"

partial_function (option) uefi_strlen_loop :: "byte_mem \<Rightarrow> u64 \<Rightarrow> u64 \<Rightarrow> u64 option" where
  "uefi_strlen_loop m str len = (if m (str + len) = 0 then Some len else uefi_strlen_loop m str (len + 1))"

definition uefi_strlen :: "byte_mem \<Rightarrow> u64 \<Rightarrow> u64 option" where
  "uefi_strlen m str = uefi_strlen_loop m str 0"

definition uefi_terminal_init :: "byte_mem \<Rightarrow> u64 \<Rightarrow> graphics_mode \<Rightarrow> tty \<Rightarrow> (int \<times> tty) option" where
  "uefi_terminal_init m psf gm t =
     (if \<not> PSF2_MAGIC_OK m psf then Some (1, t)
      else
        let t = t\<lparr>char_width := ucast (get32 m (psf + 28))\<rparr>;
            t = t\<lparr>char_height := ucast (get32 m (psf + 24))\<rparr>;
            t = t\<lparr>screen_width := gm_width gm\<rparr>;
            t = t\<lparr>screen_height := gm_height gm\<rparr>;
            t = t\<lparr>font_buffer := psf\<rparr>;
            t = t\<lparr>framebuffer := gm_framebuffer_base gm\<rparr>;
            t = t\<lparr>framebuffer_size := gm_framebuffer_size gm\<rparr>
        in if char_width t = 0 then None
           else let t = t\<lparr>TERMINAL_WIDTH := screen_width t div char_width t\<rparr>
           in if char_height t = 0 then None
              else let t = t\<lparr>TERMINAL_HEIGHT := screen_height t div char_height t\<rparr>
              in Some (0, t\<lparr>terminal_column := 0, terminal_row := 0\<rparr>))"

definition uefi_terminal_setcolour :: "u32 \<Rightarrow> u32 \<Rightarrow> tty \<Rightarrow> tty" where
  "uefi_terminal_setcolour fg bg t = (let t = t\<lparr>fg_colour := fg\<rparr> in t\<lparr>bg_colour := bg\<rparr>)"

text \<open>The two loops of \<open>terminal_putentryat\<close>; the inner one also moves \<open>mask\<close>.\<close>

fun uefi_glyph_row ::
    "u8 \<Rightarrow> u64 \<Rightarrow> u32 \<Rightarrow> u32 \<Rightarrow> nat list \<Rightarrow> u32 \<Rightarrow> (u64 \<Rightarrow> u32) \<Rightarrow> u64 \<Rightarrow> u32" where
  "uefi_glyph_row c_pixel pos fg bg [] msk px = px"
| "uefi_glyph_row c_pixel pos fg bg (j # js) msk px =
     uefi_glyph_row c_pixel pos fg bg js (drop_bit 1 msk) (px(pos + of_nat j := (if scast c_pixel AND msk \<noteq> 0 then fg else bg)))"

definition uefi_terminal_putentryat ::
    "(nat \<Rightarrow> u64) \<Rightarrow> byte_mem \<Rightarrow> u8 \<Rightarrow> u64 \<Rightarrow> u64 \<Rightarrow> u32 \<Rightarrow> u32 \<Rightarrow> tty \<Rightarrow> tty" where
  "uefi_terminal_putentryat ov m c column row fg bg t =
     (let c_pixels = font_buffer t + ucast (get32 m (font_buffer t + 8)) + ucast (ucast c * get32 m (font_buffer t + 20))
      in fold (\<lambda>i t.
            let msk = ucast (c_one_shl ov (unat (char_width t - 1)))
            in t\<lparr>pixels := uefi_glyph_row (m (c_pixels + of_nat i)) ((row * 16 + of_nat i) * screen_width t + column * 8) fg bg
                   [0..<unat (char_width t)] msk (pixels t)\<rparr>)
          [0..<unat (char_height t)] t)"

definition uefi_terminal_putchar :: "(nat \<Rightarrow> u64) \<Rightarrow> byte_mem \<Rightarrow> u8 \<Rightarrow> tty \<Rightarrow> tty" where
  "uefi_terminal_putchar ov m c t =
     (let t = uefi_terminal_putentryat ov m c (terminal_column t) (terminal_row t) (fg_colour t) (bg_colour t) t;
          t = t\<lparr>terminal_column := terminal_column t + 1\<rparr>
      in if terminal_column t \<noteq> TERMINAL_WIDTH t then t
         else let t = t\<lparr>terminal_column := 0\<rparr>;
                  t = t\<lparr>terminal_row := terminal_row t + 1\<rparr>
              in if terminal_row t = TERMINAL_HEIGHT t then t\<lparr>terminal_row := 0\<rparr> else t)"

definition uefi_terminal_newline :: "tty \<Rightarrow> tty" where
  "uefi_terminal_newline t =
     (let t = t\<lparr>terminal_row := terminal_row t + 1\<rparr>
      in if terminal_row t = TERMINAL_HEIGHT t
         then let t = t\<lparr>terminal_row := 0\<rparr> in t\<lparr>terminal_column := 0\<rparr> else t)"

text \<open>The cases of the \<open>switch\<close>: newline, carriage return, tab, the rest.\<close>

definition uefi_write_byte :: "(nat \<Rightarrow> u64) \<Rightarrow> byte_mem \<Rightarrow> u8 \<Rightarrow> tty \<Rightarrow> tty" where
  "uefi_write_byte ov m c t =
     (if c = 0x0A then
        let t = t\<lparr>terminal_row := terminal_row t + 1\<rparr>
        in if terminal_row t = TERMINAL_HEIGHT t then t\<lparr>terminal_row := 0, terminal_column := 0\<rparr> else t
      else if c = 0x0D then t\<lparr>terminal_column := 0\<rparr>
      else if c = 0x09 then
        let t = t\<lparr>terminal_column := terminal_column t + (4 - terminal_column t mod 4)\<rparr>
        in if terminal_column t = TERMINAL_WIDTH t
           then let t = t\<lparr>terminal_column := 0\<rparr>;
                    t = t\<lparr>terminal_row := terminal_row t + 1\<rparr>
                in if terminal_row t = TERMINAL_HEIGHT t then t\<lparr>terminal_row := 0\<rparr> else t
           else t
      else if 0x20 \<le> c \<and> c < 0xDC then uefi_terminal_putchar ov m c t
      else t)"

fun uefi_write_loop :: "(nat \<Rightarrow> u64) \<Rightarrow> byte_mem \<Rightarrow> u64 \<Rightarrow> nat list \<Rightarrow> tty \<Rightarrow> tty" where
  "uefi_write_loop ov m data [] t = t"
| "uefi_write_loop ov m data (i # is) t = uefi_write_loop ov m data is (uefi_write_byte ov m (m (data + of_nat i)) t)"

definition uefi_terminal_write :: "(nat \<Rightarrow> u64) \<Rightarrow> byte_mem \<Rightarrow> u64 \<Rightarrow> u64 \<Rightarrow> tty \<Rightarrow> tty" where
  "uefi_terminal_write ov m data len t = uefi_write_loop ov m data [0..<unat len] t"

definition uefi_terminal_writestring :: "(nat \<Rightarrow> u64) \<Rightarrow> byte_mem \<Rightarrow> u64 \<Rightarrow> tty \<Rightarrow> tty option" where
  "uefi_terminal_writestring ov m data t =
     (case uefi_strlen m data of None \<Rightarrow> None | Some len \<Rightarrow> Some (uefi_terminal_write ov m data len t))"

definition uefi_terminal_cursor :: "u64 \<Rightarrow> u64 \<Rightarrow> tty \<Rightarrow> tty" where
  "uefi_terminal_cursor x y t =
     (let t = t\<lparr>terminal_column := x\<rparr>;
          t = t\<lparr>terminal_row := y\<rparr>;
          t = (if terminal_column t \<ge> TERMINAL_WIDTH t then t\<lparr>terminal_column := 0\<rparr> else t)
      in if terminal_row t \<ge> TERMINAL_HEIGHT t then t\<lparr>terminal_row := 0\<rparr> else t)"

section \<open>The two copies agree\<close>

lemma uefi_glyph_row_eq: "uefi_glyph_row c pos fg bg js msk px = snd (fold (draw_pixel c pos fg bg) js (msk, px))"
  by (induction js arbitrary: msk px) (simp_all add: draw_pixel_def)

lemma uefi_putentryat_eq: "uefi_terminal_putentryat ov m c x y fg bg t = terminal_putentryat ov m c x y fg bg t"
proof -
  have "fold (\<lambda>i t. t\<lparr>pixels := uefi_glyph_row (m (p + of_nat i)) ((y * 16 + of_nat i) * screen_width t + x * 8) fg bg
        [0..<unat (char_width t)] (ucast (c_one_shl ov (unat (char_width t - 1)))) (pixels t)\<rparr>) is s =
      s\<lparr>pixels := fold (\<lambda>i. draw_line ov (char_width s) (m (p + of_nat i)) ((y * 16 + of_nat i) * screen_width s + x * 8) fg bg) is (pixels s)\<rparr>"
    for p "is" and s :: tty
    by (induction "is" arbitrary: s) (simp_all add: draw_line_def uefi_glyph_row_eq)
  then show ?thesis
    by (simp add: uefi_terminal_putentryat_def terminal_putentryat_def glyph_at_def psf_headersize_def psf_charsize_def Let_def)
qed

lemma uefi_putchar_eq: "uefi_terminal_putchar ov m c t = terminal_putchar ov m c t"
  by (simp add: uefi_terminal_putchar_def terminal_putchar_def uefi_putentryat_eq next_row_def Let_def)

lemma uefi_newline_eq: "uefi_terminal_newline = terminal_newline"
  by (simp add: fun_eq_iff uefi_terminal_newline_def terminal_newline_def Let_def)

lemma uefi_write_byte_eq: "uefi_write_byte ov m c t = write_byte ov m c t"
  by (simp add: uefi_write_byte_def write_byte_def uefi_putchar_eq terminal_newline_def next_row_def Let_def)

lemma uefi_write_eq: "uefi_terminal_write = terminal_write"
proof -
  have "uefi_write_loop ov m data is t = fold (\<lambda>i. write_byte ov m (m (data + of_nat i))) is t" for ov m data "is" t
    by (induction "is" arbitrary: t) (simp_all add: uefi_write_byte_eq)
  then show ?thesis by (simp add: fun_eq_iff uefi_terminal_write_def terminal_write_def)
qed

lemma uefi_strlen_eq: "uefi_strlen = strlen"
proof -
  have "strlen_loop m p len = Some r" if "uefi_strlen_loop m p len = Some r" for m p len r
    by (rule uefi_strlen_loop.raw_induct [where P = "\<lambda>m p len r. strlen_loop m p len = Some r", OF _ that])
      (subst strlen_loop.simps, simp split: if_splits)
  moreover have "uefi_strlen_loop m p len = Some r" if "strlen_loop m p len = Some r" for m p len r
    by (rule strlen_loop.raw_induct [where P = "\<lambda>m p len r. uefi_strlen_loop m p len = Some r", OF _ that])
      (subst uefi_strlen_loop.simps, simp split: if_splits)
  ultimately have "uefi_strlen_loop m p len = strlen_loop m p len" for m p len
    by (metis not_None_eq)
  then show ?thesis by (simp add: fun_eq_iff uefi_strlen_def strlen_def)
qed

lemma uefi_writestring_eq: "uefi_terminal_writestring = terminal_writestring"
  by (simp add: fun_eq_iff uefi_terminal_writestring_def terminal_writestring_def uefi_strlen_eq uefi_write_eq split: option.split)

lemma uefi_init_eq: "uefi_terminal_init = terminal_init"
  by (simp add: fun_eq_iff uefi_terminal_init_def terminal_init_def Let_def)

lemma uefi_cursor_eq: "uefi_terminal_cursor = terminal_cursor" "uefi_terminal_setcolour = terminal_setcolour"
  by (simp_all add: fun_eq_iff uefi_terminal_cursor_def terminal_cursor_def uefi_terminal_setcolour_def terminal_setcolour_def Let_def)

text \<open>The bundle that turns every statement on the loader's terminal into one on the kernel's.\<close>

lemmas uefi_terminal_eqs = uefi_init_eq uefi_cursor_eq uefi_write_eq uefi_writestring_eq uefi_newline_eq

section \<open>What the loader shows\<close>

text \<open>The terminal after the texts collected so far.\<close>

definition on_screen :: "(nat \<Rightarrow> u64) \<Rightarrow> byte_mem \<Rightarrow> tty \<Rightarrow> uefi_mem \<Rightarrow> tty" where
  "on_screen ov m t st = fold (write_byte ov m) (shown st) t"

lemma on_screen_ok:
  assumes "screen_ok t" "cursor_ok t" "4 dvd unat (TERMINAL_WIDTH t)"
  shows "screen_ok (on_screen ov m t st)" "cursor_ok (on_screen ov m t st)" "same_screen t (on_screen ov m t st)"
proof -
  note w = write_bytes_cursor [OF assms(2,3), of ov m "\<lambda>b. b" "shown st"]
  show "cursor_ok (on_screen ov m t st)" "same_screen t (on_screen ov m t st)" using w by (simp_all add: on_screen_def)
  then show "screen_ok (on_screen ov m t st)" using assms(1) by (simp add: screen_ok_def same_screen_def)
qed

lemma writestring_bytes:
  assumes "c_string_at m p s"
  shows "uefi_terminal_writestring ov m p t = Some (fold (write_byte ov m) s t)"
proof -
  have len: "unat (of_nat (length s) :: u64) = length s" using assms by (intro unat_of_nat_u64) (simp add: c_string_at_def)
  have "map (\<lambda>i. m (p + of_nat i)) [0..<length s] = s"
    using assms by (intro nth_equalityI) (simp_all add: c_string_at_def)
  then have "fold (write_byte ov m) s t = fold (\<lambda>i. write_byte ov m (m (p + of_nat i))) [0..<length s] t"
    using fold_map [of "write_byte ov m" "\<lambda>i. m (p + of_nat i)" "[0..<length s]"] by (simp add: comp_def)
  then show ?thesis
    by (simp add: uefi_writestring_eq terminal_writestring_def strlen_c_string [OF assms] terminal_write_def len)
qed


text \<open>A message at \<open>0x100\<close>, on an empty terminal.\<close>

definition error_text :: byte_mem where
  "error_text a = (if 0x100 \<le> a \<and> a < 0x103 then of_char (''OK!'' ! unat (a - 0x100)) else 0)"


end
