(* ===== verification/Boot_Firmware.thy ===== *)
theory Boot_Firmware
  imports Boot_Init Bytes
begin

text \<open>
  The bootloader's calls of the firmware: the text output of
  \<open>bootloader/arch/x86_64/uefi_print.c\<close> and the file access of
  \<open>bootloader/arch/x86_64/uefi_file.c\<close>.

  The firmware is not part of the program, and neither are its headers: what it does in a call, which
  statuses are errors, the numbers of the statuses and the layout of its structures are the fields of
  \<open>firmware\<close>. A call is a value of \<open>call\<close>, with the arguments that vary; every call made is kept, in order. The
  firmware sees memory and may change it. \<open>None\<close> is a function that does not come back, or that
  goes through a NULL pointer or past a buffer.
\<close>

section \<open>The firmware\<close>

datatype protocol = SimpleFileSystemProtocol | GraphicsOutputProtocol

datatype call =
    SetWatchdogTimer
  | ConOut_SetMode u64
  | ClearScreen
  | OutputString "u16 list"
  | ConIn_Reset
  | ReadKeyStroke
  | LocateHandleBuffer protocol
  | HandleProtocol u64 protocol
  | OpenVolume u64
  | Open u64 "u16 list" u64
  | Close u64
  | GetInfo u64 u64 u64
  | Read u64 u64 u64
  | Write u64 u64 u64
  | AllocatePool u64
  | FreePool u64
  | AllocatePages u64
  | FreePages u64 u64
  | QueryMode u64 u64 u64
  | GOP_SetMode u64 u64
  | GetMemoryMap u64 u64
  | ExitBootServices u64 u64

text \<open>What a call gives back: the status, and what it stores through its pointer arguments, if it does.\<close>

record answer =
  ret :: u64
  out1 :: "u64 option"
  out2 :: "u64 option"
  out3 :: "u64 option"

record 'f firmware =
  serve :: "call \<Rightarrow> byte_mem \<Rightarrow> 'f \<Rightarrow> answer \<times> byte_mem \<times> 'f"
  EFI_ERROR :: "u64 \<Rightarrow> bool"
  efi_code :: "efi_status \<Rightarrow> u64"
  EFI_FILE_MODE_READ :: u64
  EFI_FILE_MODE_WRITE :: u64
  EFI_FILE_MODE_CREATE :: u64
  sizeof_file_info :: u64
  FileSize :: "byte_mem \<Rightarrow> u64 \<Rightarrow> u64"
  MaxMode :: "byte_mem \<Rightarrow> u64 \<Rightarrow> u32"
  FrameBufferBase :: "byte_mem \<Rightarrow> u64 \<Rightarrow> u64"
  FrameBufferSize :: "byte_mem \<Rightarrow> u64 \<Rightarrow> u64"
  HorizontalResolution :: "byte_mem \<Rightarrow> u64 \<Rightarrow> u32"
  VerticalResolution :: "byte_mem \<Rightarrow> u64 \<Rightarrow> u32"
  PixelsPerScanLine :: "byte_mem \<Rightarrow> u64 \<Rightarrow> u32"
  descriptor_at :: "byte_mem \<Rightarrow> u64 \<Rightarrow> memory_descriptor"

text \<open>The one fact about the statuses the code relies on: of those it names, one is not an error.\<close>

definition efi_documented :: "'f firmware \<Rightarrow> bool" where
  "efi_documented E \<longleftrightarrow> (\<forall>status. EFI_ERROR E (efi_code E status) \<longleftrightarrow> status \<noteq> EFI_SUCCESS)"

record 'f env =
  fw :: 'f
  ram :: byte_mem
  calls :: "call list"

definition request :: "'f firmware \<Rightarrow> call \<Rightarrow> 'f env \<Rightarrow> answer \<times> 'f env" where
  "request E c s =
     (let (a, m, f) = serve E c (ram s) (fw s)
      in (a, \<lparr>fw = f, ram = m, calls = calls s @ [c]\<rparr>))"

text \<open>A call of which only the status matters.\<close>

definition invoke :: "'f firmware \<Rightarrow> call \<Rightarrow> 'f env \<Rightarrow> u64 \<times> 'f env" where
  "invoke E c s = (let (a, s) = request E c s in (ret a, s))"

lemma calls_request [simp]: "calls (snd (request E c s)) = calls s @ [c]"
  by (simp add: request_def split: prod.split)

lemma invoke_request: "invoke E c s = (ret (fst (request E c s)), snd (request E c s))"
  by (simp add: invoke_def split: prod.split)

lemma calls_invoke [simp]: "calls (snd (invoke E c s)) = calls s @ [c]"
  by (simp add: invoke_request)

text \<open>A variable whose address was passed, after the call.\<close>

definition stored :: "u64 option \<Rightarrow> u64 \<Rightarrow> u64" where
  "stored out_value old = (case out_value of None \<Rightarrow> old | Some v \<Rightarrow> v)"

text \<open>The macro \<open>ERR\<close> of \<open>common.h\<close> in a function that returns a status only.\<close>

definition ERR :: "'f firmware \<Rightarrow> u64 \<times> 'f env \<Rightarrow> ('f env \<Rightarrow> u64 \<times> 'f env) \<Rightarrow> u64 \<times> 'f env" where
  "ERR E result rest = (let (status, s) = result in if EFI_ERROR E status then (status, s) else rest s)"

section \<open>Text output\<close>

definition text16 :: "string \<Rightarrow> u16 list" where
  "text16 = map of_char"

definition CRLF :: "u16 list" where
  "CRLF = [0x0A, 0x0D]"

definition print :: "'f firmware \<Rightarrow> u16 list \<Rightarrow> 'f env \<Rightarrow> u64 \<times> 'f env" where
  "print E msg s = invoke E (OutputString msg) s"

definition println :: "'f firmware \<Rightarrow> u16 list \<Rightarrow> 'f env \<Rightarrow> u64 \<times> 'f env" where
  "println E msg s = ERR E (invoke E (OutputString msg) s) (invoke E (OutputString CRLF))"

text \<open>The static buffers are written in full before they are shown, so their old contents do not matter.\<close>

definition print_hex64 :: "'f firmware \<Rightarrow> u16 list \<Rightarrow> u64 \<Rightarrow> 'f env \<Rightarrow> u64 \<times> 'f env" where
  "print_hex64 E msg val s =
     (let hex64outstr = map ucast (hex_fill (rev [0..<16]) val (replicate 16 0x30))
      in ERR E (invoke E (OutputString msg) s) (invoke E (OutputString hex64outstr)))"

definition print_hex8 :: "'f firmware \<Rightarrow> u16 list \<Rightarrow> u8 \<Rightarrow> 'f env \<Rightarrow> u64 \<times> 'f env" where
  "print_hex8 E msg val s =
     (let hex8outstr = map ucast (hex_fill (rev [0..<2]) (scast val) (replicate 2 0x30))
      in ERR E (invoke E (OutputString msg) s) (invoke E (OutputString hex8outstr)))"

text \<open>\<open>println_char_wchar_buf\<close> has 1024 places, the last one needed for the NUL. The text ends at the
  first NUL; a \<open>char\<close> is signed.\<close>

definition println_char :: "'f firmware \<Rightarrow> u64 \<Rightarrow> u64 \<Rightarrow> 'f env \<Rightarrow> (u64 \<times> 'f env) option" where
  "println_char E msg len s =
     (if 1024 \<le> len then None
      else let buf = map (\<lambda>i. scast (ram s (msg + of_nat i)) :: u16) [0..<unat len]
           in Some (ERR E (invoke E (OutputString (takeWhile (\<lambda>c. c \<noteq> 0) buf)) s) (invoke E (OutputString CRLF))))"

text \<open>Eight bytes a line, whatever the length. The status of the line break is not taken.\<close>

definition hexdump_line :: "'f firmware \<Rightarrow> u64 \<Rightarrow> u64 \<Rightarrow> 'f env \<Rightarrow> u64 \<times> 'f env" where
  "hexdump_line E msg i s =
     (let byte = (\<lambda>k s. print_hex8 E (if k = 0 then [] else text16 '' '') (ram s (msg + i + k)) s)
      in ERR E (byte 0 s) (\<lambda>s. ERR E (byte 1 s) (\<lambda>s. ERR E (byte 2 s) (\<lambda>s. ERR E (byte 3 s)
         (\<lambda>s. ERR E (byte 4 s) (\<lambda>s. ERR E (byte 5 s) (\<lambda>s. ERR E (byte 6 s) (\<lambda>s.
           let (status, s) = byte 7 s
           in if EFI_ERROR E status then (status, s)
              else (status, snd (invoke E (OutputString CRLF) s))))))))))"

partial_function (option) hexdump_loop ::
    "'f firmware \<Rightarrow> u64 \<Rightarrow> u64 \<Rightarrow> u64 \<Rightarrow> u64 \<Rightarrow> 'f env \<Rightarrow> (u64 \<times> 'f env) option" where
  "hexdump_loop E msg len i status s =
     (if i < len
      then let (status, s) = hexdump_line E msg i s
           in if EFI_ERROR E status then Some (status, s) else hexdump_loop E msg len (i + 8) status s
      else Some (status, s))"

text \<open>\<open>un\<close> is what the variable \<open>status\<close> holds before it is set.\<close>

definition hexdump :: "'f firmware \<Rightarrow> u64 \<Rightarrow> u64 \<Rightarrow> u64 \<Rightarrow> 'f env \<Rightarrow> (u64 \<times> 'f env) option" where
  "hexdump E un msg len s = hexdump_loop E msg len 0 un s"

partial_function (option) str16len_loop :: "byte_mem \<Rightarrow> u64 \<Rightarrow> u64 \<Rightarrow> u64 option" where
  "str16len_loop m msg len = (if get16 m (msg + 2 * len) \<noteq> 0 then str16len_loop m msg (len + 1) else Some len)"

definition str16len :: "byte_mem \<Rightarrow> u64 \<Rightarrow> u64 option" where
  "str16len m msg = str16len_loop m msg 0"

section \<open>Files\<close>

text \<open>\<open>handle->Close(handle)\<close>: the function is read from the structure, so not through NULL.\<close>

definition file_close :: "'f firmware \<Rightarrow> u64 \<Rightarrow> 'f env \<Rightarrow> (u64 \<times> 'f env) option" where
  "file_close E file_handle s = (if file_handle = 0 then None else Some (invoke E (Close file_handle) s))"

definition file_write :: "'f firmware \<Rightarrow> u64 \<Rightarrow> u64 \<Rightarrow> u64 \<Rightarrow> 'f env \<Rightarrow> (u64 \<times> 'f env) option" where
  "file_write E file_handle len buf s =
     (if file_handle = 0 then None else Some (invoke E (Write file_handle len buf) s))"

text \<open>The results are the status, the handle the caller's variable holds afterwards, and the state.\<close>

definition open_in :: "'f firmware \<Rightarrow> u64 \<Rightarrow> u64 \<Rightarrow> u16 list \<Rightarrow> u64 \<Rightarrow> 'f env \<Rightarrow> (u64 \<times> u64 \<times> 'f env) option" where
  "open_in E root file_handle filename open_mode s =
     (if root = 0 then None
      else let (a, s) = request E (Open root filename open_mode) s
           in Some (ret a, stored (out1 a) file_handle, s))"

definition file_open_ex ::
    "'f firmware \<Rightarrow> u64 \<Rightarrow> u64 \<Rightarrow> u16 list \<Rightarrow> u64 \<Rightarrow> 'f env \<Rightarrow> (u64 \<times> u64 \<times> 'f env) option" where
  "file_open_ex E root_handle file_handle filename open_mode s =
     open_in E root_handle file_handle filename open_mode s"

text \<open>The loop over the volumes. The result \<open>Some status\<close> is a \<open>return\<close> or the \<open>break\<close>; \<open>None\<close> inside
  is the end of the list.\<close>

fun file_open_loop ::
    "'f firmware \<Rightarrow> u64 \<Rightarrow> u16 list \<Rightarrow> u64 \<Rightarrow> nat list \<Rightarrow> u64 \<Rightarrow> 'f env \<Rightarrow> (u64 \<times> u64 \<times> 'f env) option" where
  "file_open_loop E handles filename open_mode [] file_handle s = Some (efi_code E EFI_NOT_FOUND, file_handle, s)"
| "file_open_loop E handles filename open_mode (i # is) file_handle s =
     (let (a, s) = request E (HandleProtocol (get64 (ram s) (handles + 8 * of_nat i)) SimpleFileSystemProtocol) s;
          fs = stored (out1 a) 0
      in if EFI_ERROR E (ret a) then Some (ret a, file_handle, s)
         else if fs = 0 then None
         else
           let (a, s) = request E (OpenVolume fs) s;
               root = stored (out1 a) 0
           in if EFI_ERROR E (ret a) then Some (ret a, file_handle, s)
              else do {
                (opened, file_handle, s) \<leftarrow> open_in E root file_handle filename open_mode s;
                (status, s) \<leftarrow> file_close E root s;
                (if EFI_ERROR E status then Some (status, file_handle, s)
                 else if \<not> EFI_ERROR E opened then Some (efi_code E EFI_SUCCESS, file_handle, s)
                 else file_open_loop E handles filename open_mode is file_handle s) })"

definition file_open ::
    "'f firmware \<Rightarrow> u64 \<Rightarrow> u16 list \<Rightarrow> u64 \<Rightarrow> 'f env \<Rightarrow> (u64 \<times> u64 \<times> 'f env) option" where
  "file_open E file_handle filename open_mode s =
     (let (a, s) = request E (LocateHandleBuffer SimpleFileSystemProtocol) s
      in if EFI_ERROR E (ret a) then Some (ret a, file_handle, s)
         else file_open_loop E (stored (out2 a) 0) filename open_mode [0..<unat (stored (out1 a) 0)] file_handle s)"

text \<open>A file with its buffer: what the three pointer arguments of \<open>file_read\<close> receive.\<close>

record file_data =
  file_contents :: u64
  file_size :: u64
  file_pages :: u64

text \<open>The information on the file: status, \<open>finfo\<close>, \<open>need_free_finfo\<close>.\<close>

definition file_info :: "'f firmware \<Rightarrow> u64 \<Rightarrow> 'f env \<Rightarrow> u64 \<times> u64 \<times> bool \<times> 'f env" where
  "file_info E file_handle s =
     (let (a, s) = request E (GetInfo file_handle (sizeof_file_info E) 0) s;
          finfosize = stored (out1 a) (sizeof_file_info E)
      in if ret a = efi_code E EFI_BUFFER_TOO_SMALL
         then
           let (a, s) = request E (AllocatePool finfosize) s;
               finfo = stored (out1 a) 0
           in if EFI_ERROR E (ret a) then (ret a, finfo, False, s)
              else
                let (status, s) = invoke E (GetInfo file_handle finfosize finfo) s
                in (status, finfo, \<not> EFI_ERROR E status, s)
         else (ret a, 0, False, s))"

definition file_read ::
    "'f firmware \<Rightarrow> u64 \<Rightarrow> file_data \<Rightarrow> 'f env \<Rightarrow> (u64 \<times> file_data \<times> 'f env) option" where
  "file_read E file_handle d s =
     (if file_handle = 0 then None
      else
        let (status, finfo, need_free_finfo, s) = file_info E file_handle s
        in if EFI_ERROR E status then Some (status, d, s)
           else if finfo = 0 then None
           else
             let d = d\<lparr>file_size := FileSize E (ram s) finfo\<rparr>;
                 d = d\<lparr>file_pages := file_size d div 0x1000 + 1\<rparr>;
                 (a, s) = request E (AllocatePages (file_pages d)) s;
                 d = d\<lparr>file_contents := stored (out1 a) (file_contents d)\<rparr>
             in if EFI_ERROR E (ret a) then Some (ret a, d, s)
                else
                  let (a, s) = request E (Read file_handle (file_size d) (file_contents d)) s;
                      d = d\<lparr>file_size := stored (out1 a) (file_size d)\<rparr>
                  in if EFI_ERROR E (ret a) then Some (ret a, d, s)
                     else let s = (if need_free_finfo then snd (invoke E (FreePool finfo) s) else s)
                          in Some (efi_code E EFI_SUCCESS, d, s))"

section \<open>The log file\<close>

text \<open>Not called. \<open>size\<close> counts bytes, and \<open>char_buf[size]\<close> is the 16-bit element of that number. The
  variables of the caller hold \<open>un\<close> and \<open>d\<close> before they are set.\<close>

definition append_text :: "u64 \<Rightarrow> u64 \<Rightarrow> u64 \<Rightarrow> u64 \<Rightarrow> byte_mem \<Rightarrow> u64 \<times> byte_mem" where
  "append_text buf msg len len0 m =
     fold (\<lambda>i (len, m). (len + 1, put16 (buf + 2 * len) (get16 m (msg + 2 * of_nat i)) m)) [0..<unat len] (len0, m)"

definition echo_to_logfile ::
    "'f firmware \<Rightarrow> u64 \<Rightarrow> file_data \<Rightarrow> u64 \<Rightarrow> u64 \<Rightarrow> 'f env \<Rightarrow> (u64 \<times> 'f env) option" where
  "echo_to_logfile E un d msg len s =
     do { (status, file_handle, s) \<leftarrow> file_open E un (text16 ''b.txt'')
            (EFI_FILE_MODE_READ E OR EFI_FILE_MODE_WRITE E OR EFI_FILE_MODE_CREATE E) s;
          (if EFI_ERROR E status then Some (status, s) else do {
            (status, d, s) \<leftarrow> file_read E file_handle d s;
            (if EFI_ERROR E status then Some (status, s) else do {
              let (end_size, m) = append_text (file_contents d) msg len (file_size d) (ram s);
              (status, s) \<leftarrow> file_write E file_handle end_size (file_contents d) (s\<lparr>ram := m\<rparr>);
              (if EFI_ERROR E status then Some (status, s) else file_close E file_handle s) }) }) }"

end
