(* ===== verification/Boot_File_Props.thy ===== *)
theory Boot_File_Props
  imports Boot_Firmware
begin

text \<open>
  The files of the bootloader: which calls \<open>file_open\<close> and \<open>file_read\<close> make, in which order, and what
  they leave in the caller's variables.
\<close>

section \<open>Opening\<close>

text \<open>A volume that was looked at to the end: its handle, its file system and its root.\<close>

type_synonym visit = "u64 \<times> u64 \<times> u64"

fun visit_calls :: "u16 list \<Rightarrow> u64 \<Rightarrow> visit \<Rightarrow> call list" where
  "visit_calls name mode (h, fs, root) =
     [HandleProtocol h SimpleFileSystemProtocol, OpenVolume fs, Open root name mode, Close root]"

text \<open>What is left of a visit that was broken off: no root is open.\<close>

definition broken_off :: "call list \<Rightarrow> bool" where
  "broken_off cs \<longleftrightarrow> cs = [] \<or> (\<exists>h. cs = [HandleProtocol h SimpleFileSystemProtocol]) \<or>
     (\<exists>h fs. cs = [HandleProtocol h SimpleFileSystemProtocol, OpenVolume fs])"

lemma open_in_call:
  assumes "open_in E root f name mode s = Some (status, f', s')"
  shows "calls s' = calls s @ [Open root name mode] \<and> root \<noteq> 0"
  using assms by (auto simp: open_in_def split_beta split: if_splits)

lemma file_close_call:
  assumes "file_close E f s = Some (status, s')"
  shows "calls s' = calls s @ [Close f] \<and> f \<noteq> 0"
  using assms by (auto simp: file_close_def invoke_request split: if_splits)

text \<open>The handle \<open>f'\<close> is the one an \<open>Open\<close> without error left, with which the calls end.\<close>

definition opened_last :: "'f firmware \<Rightarrow> u16 list \<Rightarrow> u64 \<Rightarrow> u64 \<Rightarrow> 'f env \<Rightarrow> bool" where
  "opened_last E name mode f' s' \<longleftrightarrow>
     (\<exists>t root old. calls s' = calls t @ [Open root name mode, Close root] \<and>
        \<not> EFI_ERROR E (ret (fst (request E (Open root name mode) t))) \<and>
        f' = stored (out1 (fst (request E (Open root name mode) t))) old)"

text \<open>One turn of the loop: it is broken off, its root cannot be closed, the file is found, or it goes on.\<close>

lemma file_open_turn:
  assumes "file_open_loop E handles name mode (i # is) f s = Some (status, f', s')"
  obtains
    (broken) rest where "calls s' = calls s @ rest" "broken_off rest" "EFI_ERROR E status"
  | (unclosed) v where "calls s' = calls s @ visit_calls name mode v" "EFI_ERROR E status"
  | (found) v where "calls s' = calls s @ visit_calls name mode v" "status = efi_code E EFI_SUCCESS" "opened_last E name mode f' s'"
  | (onward) v f1 s4 where "calls s4 = calls s @ visit_calls name mode v"
      "file_open_loop E handles name mode is f1 s4 = Some (status, f', s')"
proof -
  define h where "h = get64 (ram s) (handles + 8 * of_nat i)"
  define c1 where "c1 = HandleProtocol h SimpleFileSystemProtocol"
  obtain a1 s1 where r1: "request E c1 s = (a1, s1)" by fastforce
  define fs where "fs = stored (out1 a1) 0"
  obtain a2 s2 where r2: "request E (OpenVolume fs) s1 = (a2, s2)" by fastforce
  define root where "root = stored (out1 a2) 0"
  have c: "calls s1 = calls s @ [c1]" "calls s2 = calls s @ [c1, OpenVolume fs]"
    using calls_request [of E c1 s] calls_request [of E "OpenVolume fs" s1] by (simp_all add: r1 r2)
  note run = assms [simplified, folded h_def, folded c1_def, unfolded r1 Let_def prod.case, folded fs_def,
      unfolded r2 Let_def prod.case, folded root_def]
  consider (no_system) "EFI_ERROR E (ret a1)" | (no_root) "\<not> EFI_ERROR E (ret a1)" "EFI_ERROR E (ret a2)"
    | (visited) "\<not> EFI_ERROR E (ret a1)" "\<not> EFI_ERROR E (ret a2)" by blast
  then show ?thesis
  proof cases
    case no_system
    then show ?thesis using run c c1_def by (intro broken [of "[c1]"]) (simp_all add: broken_off_def)
  next
    case no_root
    then show ?thesis using run c c1_def by (intro broken [of "[c1, OpenVolume fs]"]) (simp_all add: broken_off_def split: if_splits)
  next
    case visited
    then obtain opened f1 s3 closed s4 where
      o: "open_in E root f name mode s2 = Some (opened, f1, s3)" and cl: "file_close E root s3 = Some (closed, s4)" and
      tail: "(if EFI_ERROR E closed then Some (closed, f1, s4)
         else if \<not> EFI_ERROR E opened then Some (efi_code E EFI_SUCCESS, f1, s4)
         else file_open_loop E handles name mode is f1 s4) = Some (status, f', s')"
      using run by (auto simp: bind_eq_Some_conv split: if_splits)
    have v: "calls s4 = calls s @ visit_calls name mode (h, fs, root)" "calls s4 = calls s2 @ [Open root name mode, Close root]"
      using open_in_call [OF o] file_close_call [OF cl] c by (simp_all add: c1_def)
    have "opened_last E name mode f1 s4" if "\<not> EFI_ERROR E opened"
      unfolding opened_last_def using o that v(2)
      by (intro exI [of _ s2] exI [of _ root] exI [of _ f]) (auto simp: open_in_def split: if_splits prod.splits)
    then show ?thesis using tail v(1) unclosed found onward by (metis (no_types, lifting) option.inject prod.inject)
  qed
qed

lemma file_open_loop_calls:
  assumes "file_open_loop E handles name mode is f s = Some (status, f', s')"
  shows "\<exists>vs rest. calls s' = calls s @ concat (map (visit_calls name mode) vs) @ rest \<and> broken_off rest \<and>
    length vs \<le> length is \<and>
    (EFI_ERROR E status \<or> status = efi_code E EFI_NOT_FOUND \<and> rest = [] \<and> length vs = length is \<or>
     status = efi_code E EFI_SUCCESS \<and> rest = [] \<and> vs \<noteq> [] \<and> opened_last E name mode f' s')"
  using assms
proof (induction "is" arbitrary: f s)
  case Nil
  then have "calls s' = calls s @ concat (map (visit_calls name mode) []) @ []" "status = efi_code E EFI_NOT_FOUND" by simp_all
  then show ?case by (intro exI [of _ "[]"]) (simp add: broken_off_def)
next
  case (Cons i "is")
  from Cons.prems show ?case
  proof (cases rule: file_open_turn)
    case (broken rest)
    then show ?thesis by (intro exI [of _ "[]"] exI [of _ rest]) simp
  next
    case (unclosed v)
    then show ?thesis by (intro exI [of _ "[v]"] exI [of _ "[]"]) (simp add: broken_off_def)
  next
    case (found v)
    then show ?thesis by (intro exI [of _ "[v]"] exI [of _ "[]"]) (simp add: broken_off_def)
  next
    case (onward v f1 s4)
    from Cons.IH [OF onward(2)] obtain vs rest where
      "calls s' = calls s4 @ concat (map (visit_calls name mode) vs) @ rest" "broken_off rest" "length vs \<le> length is"
      "EFI_ERROR E status \<or> status = efi_code E EFI_NOT_FOUND \<and> rest = [] \<and> length vs = length is \<or>
       status = efi_code E EFI_SUCCESS \<and> rest = [] \<and> vs \<noteq> [] \<and> opened_last E name mode f' s'"
      by blast
    then show ?thesis using onward(1) by (intro exI [of _ "v # vs"] exI [of _ rest]) auto
  qed
qed

lemma file_open_calls:
  assumes run: "file_open E f name mode s = Some (status, f', s')"
  shows "\<exists>vs rest. calls s' = calls s @ LocateHandleBuffer SimpleFileSystemProtocol # concat (map (visit_calls name mode) vs) @ rest \<and>
    broken_off rest \<and>
    (EFI_ERROR E status \<or>
     status = efi_code E EFI_NOT_FOUND \<and> rest = [] \<and>
       length vs = unat (stored (out1 (fst (request E (LocateHandleBuffer SimpleFileSystemProtocol) s))) 0) \<or>
     status = efi_code E EFI_SUCCESS \<and> rest = [] \<and> vs \<noteq> [] \<and> opened_last E name mode f' s')"
proof -
  let ?c = "LocateHandleBuffer SimpleFileSystemProtocol"
  obtain a t where r: "request E ?c s = (a, t)" by fastforce
  have ct: "calls t = calls s @ [?c]" using r calls_request [of E ?c s] by simp
  show ?thesis
  proof (cases "EFI_ERROR E (ret a)")
    case True
    then have "status = ret a" "s' = t" using run r by (simp_all add: file_open_def)
    then show ?thesis using True ct by (intro exI [of _ "[]"] exI [of _ "[]"]) (simp add: broken_off_def)
  next
    case False
    then have "file_open_loop E (stored (out2 a) 0) name mode [0..<unat (stored (out1 a) 0)] f t = Some (status, f', s')"
      using run r by (simp add: file_open_def)
    from file_open_loop_calls [OF this] obtain vs rest where
      "calls s' = calls t @ concat (map (visit_calls name mode) vs) @ rest" "broken_off rest"
      "EFI_ERROR E status \<or> status = efi_code E EFI_NOT_FOUND \<and> rest = [] \<and> length vs = unat (stored (out1 a) 0) \<or>
       status = efi_code E EFI_SUCCESS \<and> rest = [] \<and> vs \<noteq> [] \<and> opened_last E name mode f' s'" by auto
    then show ?thesis using ct r by (intro exI [of _ vs] exI [of _ rest]) simp
  qed
qed

section \<open>Reading\<close>

text \<open>A file that was read: the calls, with the pages the buffer has.\<close>

lemma file_info_calls:
  assumes "file_info E f s = (status, finfo, need, t)" and "\<not> EFI_ERROR E status" and "finfo \<noteq> 0"
  shows "need \<and> (\<exists>n. calls t = calls s @ [GetInfo f (sizeof_file_info E) 0, AllocatePool n, GetInfo f n finfo])"
  using assms by (auto simp: file_info_def invoke_request split_beta Let_def split: if_splits)

lemma file_pages_cover:
  "unat n < 4096 * unat (n div 0x1000 + 1) \<and> (n div 0x1000 + 1 \<le> 8 \<longleftrightarrow> n < 0x8000)" for n :: u64
proof -
  have d: "unat (n div 0x1000) = unat n div 4096" by (simp add: unat_div)
  have "unat n < 2 ^ 64" using unsigned_less [of n, where 'a = nat] by simp
  then have q: "unat n div 4096 < 2 ^ 52" by (simp add: less_mult_imp_div_less)
  have "unat (n div 0x1000 + 1) = unat n div 4096 + 1"
    by (subst unat_add_no_wrap) (simp_all only: d, use q in simp_all)
  then show ?thesis by (simp add: word_le_nat_alt word_less_nat_alt) linarith
qed

text \<open>The firmware does not report more bytes than it was asked for.\<close>

definition reads_fit :: "'f firmware \<Rightarrow> bool" where
  "reads_fit E \<longleftrightarrow> (\<forall>h n b m f0. stored (out1 (fst (serve E (Read h n b) m f0))) n \<le> n)"

lemma file_read_calls:
  assumes run: "file_read E f d s = Some (status, d', s')" and ok: "\<not> EFI_ERROR E status"
  shows "\<exists>len n finfo u. status = efi_code E EFI_SUCCESS \<and> file_pages d' = len div 0x1000 + 1 \<and>
    calls s' = calls s @ [GetInfo f (sizeof_file_info E) 0, AllocatePool n, GetInfo f n finfo,
      AllocatePages (file_pages d'), Read f len (file_contents d'), FreePool finfo] \<and>
    file_size d' = stored (out1 (fst (request E (Read f len (file_contents d')) u))) len"
proof -
  obtain st finfo need s1 where i: "file_info E f s = (st, finfo, need, s1)" by (cases "file_info E f s")
  have r: "f \<noteq> 0" "\<not> EFI_ERROR E st" "finfo \<noteq> 0"
    using run ok i by (auto simp: file_read_def split: if_splits)
  from file_info_calls [OF i r(2,3)] obtain n where
    n: need "calls s1 = calls s @ [GetInfo f (sizeof_file_info E) 0, AllocatePool n, GetInfo f n finfo]" by blast
  define len where "len = FileSize E (ram s1) finfo"
  obtain a s2 where q: "request E (AllocatePages (len div 0x1000 + 1)) s1 = (a, s2)" by fastforce
  define buf where "buf = stored (out1 a) (file_contents d)"
  obtain b s3 where q': "request E (Read f len buf) s2 = (b, s3)" by fastforce
  have c2: "calls s2 = calls s1 @ [AllocatePages (len div 0x1000 + 1)]" using calls_request [of E "AllocatePages (len div 0x1000 + 1)" s1] q by simp
  have c3: "calls s3 = calls s2 @ [Read f len buf]" using calls_request [of E "Read f len buf" s2] q' by simp
  have "\<not> EFI_ERROR E (ret a)" "\<not> EFI_ERROR E (ret b)" and
    res: "status = efi_code E EFI_SUCCESS" "d' = \<lparr>file_contents = buf, file_size = stored (out1 b) len, file_pages = len div 0x1000 + 1\<rparr>"
      "s' = snd (invoke E (FreePool finfo) s3)"
    using run ok r n(1) q q' by (auto simp: file_read_def i Let_def len_def [symmetric] buf_def [symmetric] split: if_splits)
  then show ?thesis using n(2) c2 c3 q'
    by (intro exI [of _ len] exI [of _ n] exI [of _ finfo] exI [of _ s2]) simp
qed

end
