(* ===== verification/Boot_Main.thy ===== *)
theory Boot_Main
  imports Boot_Firmware Boot_Load Terminal
begin

text \<open>
  \<open>efi_main\<close> of \<open>bootloader/arch/x86_64/uefi_boot.c\<close>: from the start of the loader to the call of the
  kernel, with the label \<open>end\<close> that every error before that jumps to.

  The function is cut where its comments cut it; each part takes the rest as its argument \<open>rest\<close>, so that a
  \<open>goto end\<close> or a \<open>return\<close> is a part that does not go on to \<open>rest\<close>. Up to \<open>ExitBootServices\<close> memory is
  byte memory and shared with the firmware; after it, it is the word memory of the mapper.
\<close>

section \<open>Results\<close>

record boot_info =
  bt_mem_table_pointer :: u64
  bt_mem_desc_size :: u64
  bt_mem_desc_count :: u64
  bt_mapping_base :: u64
  bt_font_pointer :: u64
  bt_kernel_start_pointer :: u64
  bt_kernel_page_count :: u64
  bt_pml4_pointer :: u64
  bt_used_mapping_page_count :: u64
  bt_width :: u64
  bt_height :: u64
  bt_px_per_scan :: u64
  bt_framebuffer_base :: u64
  bt_framebuffer_size :: u64

text \<open>A return to the firmware, a return after \<open>ExitBootServices\<close>, or the call of the kernel at its entry
  point with the table and the memory map it points to. When the kernel returns, so does \<open>efi_main\<close>.\<close>

datatype 'f outcome =
    Returned u64 "'f env"
  | Map_failed u64 boot_info uefi_mem "'f env"
  | Entered u64 boot_info "memory_descriptor list" uefi_mem "'f env"

record folders =
  boot_folder_handle :: u64
  resource_folder_handle :: u64

record statics =
  memmap_buf :: u64
  psf_buf :: u64

section \<open>Errors\<close>

definition report :: "'f firmware \<Rightarrow> u64 \<Rightarrow> 'f env \<Rightarrow> 'f env" where
  "report E status s = snd (print E CRLF (snd (print_hex64 E (text16 ''Error: 0x'') status s)))"

partial_function (option) read_key_loop :: "'f firmware \<Rightarrow> 'f env \<Rightarrow> (u64 \<times> 'f env) option" where
  "read_key_loop E s =
     (let (status, s) = invoke E ReadKeyStroke s
      in if status = efi_code E EFI_NOT_READY then read_key_loop E s else Some (status, s))"

declare read_key_loop.simps [code]

text \<open>The macro \<open>ERR\<close> below the label jumps back to it.\<close>

partial_function (option) end_label :: "'f firmware \<Rightarrow> folders \<Rightarrow> 'f env \<Rightarrow> (u64 \<times> 'f env) option" where
  "end_label E h s =
     do { (status, s) \<leftarrow> file_close E (boot_folder_handle h) s;
          (if EFI_ERROR E status then end_label E h (report E status s) else do {
            (status, s) \<leftarrow> file_close E (resource_folder_handle h) s;
            (if EFI_ERROR E status then end_label E h (report E status s) else do {
              let (status, s) = print E (text16 ''Application End!'' @ CRLF) s;
              (if EFI_ERROR E status then end_label E h (report E status s) else do {
                (status, s) \<leftarrow> read_key_loop E s;
                (if EFI_ERROR E status then end_label E h (report E status s)
                 else Some (efi_code E EFI_SUCCESS, s)) }) }) }) }"

declare end_label.simps [code]

text \<open>The macro \<open>ERR\<close> as \<open>uefi_boot.c\<close> redefines it.\<close>

definition check :: "'f firmware \<Rightarrow> folders \<Rightarrow> u64 \<times> 'f env \<Rightarrow> ('f env \<Rightarrow> 'f outcome option) \<Rightarrow> 'f outcome option" where
  "check E h result rest =
     (let (status, s) = result
      in if EFI_ERROR E status then map_option (\<lambda>(r, s). Returned r s) (end_label E h (report E status s))
         else rest s)"

text \<open>A message, then a \<open>return\<close>.\<close>

definition refuse :: "'f firmware \<Rightarrow> folders \<Rightarrow> string \<Rightarrow> efi_status \<Rightarrow> 'f env \<Rightarrow> 'f outcome option" where
  "refuse E h msg code s =
     check E h (print E (text16 msg @ CRLF) s) (\<lambda>s. Some (Returned (efi_code E code) s))"

definition tell :: "'f firmware \<Rightarrow> string \<Rightarrow> 'f env \<Rightarrow> 'f env" where
  "tell E msg s = snd (print E (text16 msg @ CRLF) s)"

section \<open>Start\<close>

text \<open>The test for 64-bit mode moves a constant through a register and cannot fail.\<close>

definition start :: "'f firmware \<Rightarrow> folders \<Rightarrow> ('f env \<Rightarrow> 'f outcome option) \<Rightarrow> 'f env \<Rightarrow> 'f outcome option" where
  "start E h rest s =
     check E h (invoke E SetWatchdogTimer s) (\<lambda>s.
     check E h (invoke E (ConOut_SetMode 2) s) (\<lambda>s.
     check E h (invoke E ClearScreen s) (\<lambda>s.
     check E h (print E (text16 ''Hello, UEFI World!'' @ CRLF) s) (\<lambda>s.
     check E h (invoke E ConIn_Reset s) rest))))"

section \<open>Files\<close>

text \<open>The two halves of every file: it is opened in a folder; it is read and closed.\<close>

definition open_file ::
    "'f firmware \<Rightarrow> folders \<Rightarrow> u64 \<Rightarrow> u64 \<Rightarrow> string \<Rightarrow> (u64 \<Rightarrow> 'f env \<Rightarrow> 'f outcome option) \<Rightarrow> 'f env \<Rightarrow> 'f outcome option" where
  "open_file E h folder un name rest s =
     do { (status, file, s) \<leftarrow> file_open_ex E folder un (text16 name) (EFI_FILE_MODE_READ E) s;
          check E h (status, s) (rest file) }"

definition read_file ::
    "'f firmware \<Rightarrow> folders \<Rightarrow> u64 \<Rightarrow> file_data \<Rightarrow> (file_data \<Rightarrow> 'f env \<Rightarrow> 'f outcome option) \<Rightarrow> 'f env \<Rightarrow> 'f outcome option" where
  "read_file E h file d rest s =
     do { (status, d, s) \<leftarrow> file_read E file d s;
          check E h (status, s) (\<lambda>s. do { closed \<leftarrow> file_close E file s; check E h closed (rest d) }) }"

text \<open>What the variables of \<open>efi_main\<close> that it does not initialise hold.\<close>

record garbage =
  junk_handle :: u64
  junk_file :: file_data

text \<open>The configuration file is shown and not used. Each of the first two steps can fail after it has
  changed a folder handle, and \<open>end\<close> sees that.\<close>

definition use_config ::
    "'f firmware \<Rightarrow> folders \<Rightarrow> (folders \<Rightarrow> 'f env \<Rightarrow> 'f outcome option) \<Rightarrow> file_data \<Rightarrow> 'f env \<Rightarrow> 'f outcome option" where
  "use_config E h rest d s =
     do { printed \<leftarrow> println_char E (file_contents d) (file_size d) s;
          check E h printed (\<lambda>s.
          check E h (invoke E (FreePages (file_contents d) (file_pages d)) s) (rest h)) }"

definition open_config ::
    "'f firmware \<Rightarrow> garbage \<Rightarrow> (folders \<Rightarrow> 'f env \<Rightarrow> 'f outcome option) \<Rightarrow> 'f env \<Rightarrow> 'f outcome option" where
  "open_config E g rest s =
     do { (status, boot, s) \<leftarrow> file_open E 0 (text16 ''boot'') (EFI_FILE_MODE_READ E) s;
          let h = \<lparr>boot_folder_handle = boot, resource_folder_handle = 0\<rparr>;
          check E h (status, s) (\<lambda>s. do {
            let s = tell E ''Opened /boot'' s;
            (status, resource, s) \<leftarrow> file_open_ex E boot 0 (text16 ''resources'') (EFI_FILE_MODE_READ E) s;
            let h = \<lparr>boot_folder_handle = boot, resource_folder_handle = resource\<rparr>;
            check E h (status, s) (\<lambda>s.
            let s = tell E ''Opened /boot/resources'' s
            in open_file E h resource 0 ''boot.cfg'' (\<lambda>config s.
            let s = tell E ''Opened /boot/resources/boot.cfg'' s
            in read_file E h config (junk_file g) (use_config E h rest) s) s) }) }"

definition use_font ::
    "'f firmware \<Rightarrow> statics \<Rightarrow> folders \<Rightarrow> ('f env \<Rightarrow> 'f outcome option) \<Rightarrow> file_data \<Rightarrow> 'f env \<Rightarrow> 'f outcome option" where
  "use_font E L h rest d s =
     (if \<not> PSF2_MAGIC_OK (ram s) (file_contents d) then refuse E h ''Invalid PSF2 file, exiting!'' EFI_INVALID_PARAMETER s
      else if 0x8000 div 0x1000 < file_pages d
      then Some (Returned (efi_code E EFI_BUFFER_TOO_SMALL) (tell E ''PSF file is too large (>32768 bytes)'' s))
      else
        let s = s\<lparr>ram := boot_memcpy (ram s) (psf_buf L) (file_contents d) (file_size d)\<rparr>
        in if \<not> PSF2_MAGIC_OK (ram s) (psf_buf L) then refuse E h ''Copy failed!'' EFI_INVALID_PARAMETER s
           else check E h (invoke E (FreePages (file_contents d) (file_pages d)) s)
                  (\<lambda>s. rest (tell E ''Done font!'' s)))"

definition load_font ::
    "'f firmware \<Rightarrow> statics \<Rightarrow> garbage \<Rightarrow> folders \<Rightarrow> ('f env \<Rightarrow> 'f outcome option) \<Rightarrow> 'f env \<Rightarrow> 'f outcome option" where
  "load_font E L g h rest s =
     open_file E h (resource_folder_handle h) (junk_handle g) ''aply16.psf'' (\<lambda>font.
     read_file E h font (junk_file g) (use_font E L h rest)) s"

text \<open>The image is read through the words at its address (see \<open>field\<close>).\<close>

abbreviation file_image :: "'f env \<Rightarrow> u64 \<Rightarrow> u64" where
  "file_image s \<equiv> get64 (ram s)"

definition use_kernel ::
    "'f firmware \<Rightarrow> folders \<Rightarrow> (file_data \<Rightarrow> 'f env \<Rightarrow> 'f outcome option) \<Rightarrow> file_data \<Rightarrow> 'f env \<Rightarrow> 'f outcome option" where
  "use_kernel E h rest d s =
     (let elf_header = file_contents d
      in if \<not> ELF_MAGIC_OK (file_image s) elf_header then refuse E h ''Invalid ELF file, exiting!'' EFI_INVALID_PARAMETER s
         else if elf_class (file_image s) elf_header \<noteq> 0x02
         then refuse E h ''Invalid ELF64 file (elf_header->ident.class), exiting!'' EFI_INVALID_PARAMETER s
         else if elf_machine (file_image s) elf_header \<noteq> 0x3E
         then refuse E h ''Invalid ELF64 file (elf_header->machine), exiting!'' EFI_INVALID_PARAMETER s
         else rest d (tell E ''Done kernel!'' s))"

definition open_kernel ::
    "'f firmware \<Rightarrow> garbage \<Rightarrow> folders \<Rightarrow> (file_data \<Rightarrow> 'f env \<Rightarrow> 'f outcome option) \<Rightarrow> 'f env \<Rightarrow> 'f outcome option" where
  "open_kernel E g h rest s =
     open_file E h (boot_folder_handle h) (junk_handle g) ''betelgeuse.kernel'' (\<lambda>file.
     read_file E h file (junk_file g) (use_kernel E h rest)) s"

section \<open>The graphics mode\<close>

record mode_search =
  res_1280x720 :: u64
  mode_size :: u64
  mode_info :: u64
  table :: boot_info

definition no_mode :: "'f firmware \<Rightarrow> u64 \<Rightarrow> 'f env \<Rightarrow> u64" where
  "no_mode E gop s = ucast (MaxMode E (ram s) gop + 1)"

text \<open>A mode whose description is at \<open>p\<close>: those 0x500 pixels wide are shown and noted.\<close>

definition show_mode :: "'f firmware \<Rightarrow> u64 \<Rightarrow> u64 \<Rightarrow> 'f env \<Rightarrow> 'f env" where
  "show_mode E i p s =
     (let s = snd (print_hex64 E (text16 ''Mode index: 0x'') i s);
          s = snd (print_hex64 E (text16 '', Width: 0x'') (ucast (HorizontalResolution E (ram s) p)) s);
          s = snd (print_hex64 E (text16 '', Height: 0x'') (ucast (VerticalResolution E (ram s) p)) s)
      in snd (print E CRLF s))"

definition look_at_mode :: "'f firmware \<Rightarrow> u64 \<Rightarrow> u64 \<Rightarrow> mode_search \<Rightarrow> 'f env \<Rightarrow> mode_search \<times> 'f env" where
  "look_at_mode E i p q s =
     (if HorizontalResolution E (ram s) p = 0x500
      then
        let s = show_mode E i p s;
            q = (if VerticalResolution E (ram s) p = 0x320 then q\<lparr>res_1280x720 := i\<rparr> else q)
        in (q\<lparr>table := (table q)\<lparr>bt_width := 0x500, bt_height := 0x320,
                                  bt_px_per_scan := ucast (PixelsPerScanLine E (ram s) p)\<rparr>\<rparr>, s)
      else (q, s))"

definition use_mode :: "'f firmware \<Rightarrow> u64 \<Rightarrow> mode_search \<Rightarrow> 'f env \<Rightarrow> (u64 \<times> mode_search \<times> 'f env) option" where
  "use_mode E i q s =
     (if mode_info q = 0 then None
      else
        let p = mode_info q;
            (q, s) = look_at_mode E i p q s;
            (status, s) = invoke E (FreePool p) s
        in Some (status, q\<lparr>mode_size := 0\<rparr>, s))"

definition ask_mode :: "'f firmware \<Rightarrow> u64 \<Rightarrow> u64 \<Rightarrow> mode_search \<Rightarrow> 'f env \<Rightarrow> u64 \<times> mode_search \<times> 'f env" where
  "ask_mode E gop i q s =
     (let (a, s) = request E (QueryMode gop i (mode_size q)) s
      in (ret a, q\<lparr>mode_size := stored (out1 a) (mode_size q), mode_info := stored (out2 a) (mode_info q)\<rparr>, s))"

definition query_mode ::
    "'f firmware \<Rightarrow> u64 \<Rightarrow> u64 \<Rightarrow> mode_search \<Rightarrow> 'f env \<Rightarrow> (u64 \<times> mode_search \<times> 'f env) option" where
  "query_mode E gop i q s =
     (let (status, q, s) = ask_mode E gop i q s
      in if status = efi_code E EFI_BUFFER_TOO_SMALL
         then
           let (a, s) = request E (AllocatePool (mode_size q)) s;
               q = q\<lparr>mode_info := stored (out1 a) (mode_info q)\<rparr>
           in if EFI_ERROR E (ret a) then Some (ret a, q, s)
              else let (status, q, s) = ask_mode E gop i q s
                   in if EFI_ERROR E status then Some (status, q, s) else use_mode E i q s
         else if EFI_ERROR E status then Some (status, q, s) else use_mode E i q s)"

lemma unat_ucast_u32: "unat (ucast (w :: u32) :: u64) < 2 ^ 32"
proof -
  have "unat w < 2 ^ 32" using unsigned_less [of w, where 'a = nat] by simp
  then show ?thesis by (simp add: unsigned_ucast_eq take_bit_nat_eq_self)
qed

text \<open>The number of modes is read again in every turn.\<close>

function search_modes ::
    "'f firmware \<Rightarrow> u64 \<Rightarrow> u64 \<Rightarrow> mode_search \<Rightarrow> 'f env \<Rightarrow> (u64 \<times> mode_search \<times> 'f env) option" where
  "search_modes E gop i q s =
     (if i < ucast (MaxMode E (ram s) gop)
      then do { (status, q, s) \<leftarrow> query_mode E gop i q s;
                (if EFI_ERROR E status then Some (status, q, s) else search_modes E gop (i + 1) q s) }
      else Some (efi_code E EFI_SUCCESS, q, s))"
  by pat_completeness auto

termination
proof (relation "measure (\<lambda>(E, gop, i, q, s). 2 ^ 32 - unat i)", goal_cases)
  case (2 E gop i q s x a b)
  have "unat i < unat (ucast (MaxMode E (ram s) gop) :: u64)" using 2(1) by (simp add: word_less_nat_alt)
  also have "\<dots> < 2 ^ 32" by (rule unat_ucast_u32)
  finally have i: "unat i < 2 ^ 32" .
  then have "unat (i + 1) = unat i + 1" by (subst unat_add_no_wrap) simp_all
  then show ?case using i by simp
qed simp

declare search_modes.simps [simp del]

definition set_mode ::
    "'f firmware \<Rightarrow> folders \<Rightarrow> u64 \<Rightarrow> u64 \<Rightarrow> (boot_info \<Rightarrow> 'f env \<Rightarrow> 'f outcome option) \<Rightarrow> mode_search \<Rightarrow>
     'f env \<Rightarrow> 'f outcome option" where
  "set_mode E h gop elf_header rest q s =
     (if res_1280x720 q = no_mode E gop s
      then Some (Returned (efi_code E EFI_UNSUPPORTED)
             (snd (print E (text16 ''Error: 1280x720 resolution not supported!'') s)))
      else
        let s = snd (invoke E (GOP_SetMode gop (res_1280x720 q)) s)
        in check E h (invoke E (ConOut_SetMode 2) s) (\<lambda>s.
           check E h (invoke E ClearScreen s) (\<lambda>s.
           let s = tell E ''Changed resolution!'' s;
               bt = (table q)\<lparr>bt_framebuffer_base := FrameBufferBase E (ram s) gop,
                              bt_framebuffer_size := FrameBufferSize E (ram s) gop\<rparr>
           in check E h (print_hex64 E (text16 ''Framebuffer base: 0x'') (bt_framebuffer_base bt) s) (\<lambda>s.
              let s = snd (print E CRLF s)
              in check E h (print_hex64 E (text16 ''Kernel entry address: 0x'')
                              (field 64 (file_image s) elf_header 24) s) (\<lambda>s.
              let s = snd (print E CRLF s)
              in check E h (invoke E ClearScreen s) (rest bt))))))"

definition set_graphics ::
    "'f firmware \<Rightarrow> folders \<Rightarrow> boot_info \<Rightarrow> u64 \<Rightarrow> (boot_info \<Rightarrow> 'f env \<Rightarrow> 'f outcome option) \<Rightarrow>
     'f env \<Rightarrow> 'f outcome option" where
  "set_graphics E h bt elf_header rest s =
     (let (a, s) = request E (LocateHandleBuffer GraphicsOutputProtocol) s;
          gop_handles = stored (out2 a) 0
      in check E h (ret a, s) (\<lambda>s.
      let (a, s) = request E (HandleProtocol (get64 (ram s) (gop_handles + 8)) GraphicsOutputProtocol) s;
          gop = stored (out1 a) 0
      in check E h (ret a, s) (\<lambda>s.
      if gop = 0 then None
      else
        let s = tell E ''Done find graphics protocol!'' s
        in do { (status, q, s) \<leftarrow> search_modes E gop 0
                  \<lparr>res_1280x720 = no_mode E gop s, mode_size = 0, mode_info = 0, table = bt\<rparr> s;
                check E h (status, s) (set_mode E h gop elf_header rest q) })))"

section \<open>Handing over\<close>

text \<open>\<open>desc_count\<close> descriptors, \<open>desc_size\<close> bytes apart.\<close>

definition memory_map :: "'f firmware \<Rightarrow> statics \<Rightarrow> u64 \<Rightarrow> u64 \<Rightarrow> byte_mem \<Rightarrow> memory_descriptor list" where
  "memory_map E L desc_size desc_count m =
     map (\<lambda>i. descriptor_at E m (memmap_buf L + of_nat i * desc_size)) [0..<unat desc_count]"

text \<open>Memory as the mapper sees it; its variables are still zero.\<close>

definition enter :: "'f env \<Rightarrow> uefi_mem" where
  "enter s = \<lparr>words = get64 (ram s), pml4 = 0, next_available_mapping_page = 0, available_mapping_page_count = 0,
     mapping_base_address = 0, shown = []\<rparr>"

text \<open>What the processor and the compiler add: cr3, \<open>510 << 39\<close>, and what the loop over the segments takes
  for the status of \<open>map_pages\<close>.\<close>

record processor =
  cr3_value :: u64
  wide_shift :: u64
  map_pages_left :: "u64 \<Rightarrow> u64"

definition start_kernel ::
    "'f firmware \<Rightarrow> processor \<Rightarrow> u64 \<Rightarrow> u64 \<Rightarrow> boot_info \<Rightarrow> memory_descriptor list \<Rightarrow> uefi_mem \<Rightarrow> 'f env \<Rightarrow> 'f outcome" where
  "start_kernel E cpu elf_header kernel_size bt descs u s =
     (let (pml4_at, used) = get_mapping_pointers_and_count u;
          bt = bt\<lparr>bt_pml4_pointer := pml4_at, bt_used_mapping_page_count := used\<rparr>;
          (failed, ld) = load_kernel (EFI_ERROR E) (map_pages_left cpu) elf_header kernel_size u;
          bt = bt\<lparr>bt_kernel_start_pointer := kernel_start ld, bt_kernel_page_count := kernel_pages ld\<rparr>
      in case failed of
           Some status \<Rightarrow> Map_failed status bt (uefi ld) s
         | None \<Rightarrow> Entered (field 64 (words (uefi ld)) elf_header 24) bt descs (uefi ld) s)"

definition leave_firmware ::
    "'f firmware \<Rightarrow> statics \<Rightarrow> processor \<Rightarrow> u64 \<Rightarrow> folders \<Rightarrow> file_data \<Rightarrow> boot_info \<Rightarrow> u64 \<Rightarrow> u64 \<Rightarrow> u64 \<Rightarrow>
     'f env \<Rightarrow> 'f outcome option" where
  "leave_firmware E L cpu handle h image_file bt map_size map_key desc_size s =
     (if desc_size = 0 then None
      else
        let desc_count = map_size div desc_size;
            bt = bt\<lparr>bt_mem_table_pointer := memmap_buf L, bt_mem_desc_size := desc_size,
                    bt_mem_desc_count := desc_count, bt_font_pointer := psf_buf L\<rparr>
        in check E h (invoke E (ExitBootServices handle map_key) s) (\<lambda>s. do {
             (status, descs, base, _, u) \<leftarrow>
               init_virtual_mapping (wide_shift cpu) (cr3_value cpu) MAPPING_TYPE_MAP_ALL
                 (memory_map E L desc_size desc_count (ram s)) (bt_mapping_base bt) (enter s);
             check E h (efi_code E status, s)
               (\<lambda>s. Some (start_kernel E cpu (file_contents image_file) (file_size image_file)
                            (bt\<lparr>bt_mapping_base := base\<rparr>) descs u s)) }))"

definition hand_over ::
    "'f firmware \<Rightarrow> statics \<Rightarrow> processor \<Rightarrow> u64 \<Rightarrow> folders \<Rightarrow> file_data \<Rightarrow> boot_info \<Rightarrow> 'f env \<Rightarrow> 'f outcome option" where
  "hand_over E L cpu handle h image_file bt s =
     (let (a, s) = request E (GetMemoryMap 0x8000 (memmap_buf L)) s;
          rest = leave_firmware E L cpu handle h image_file bt
                   (stored (out1 a) 0x8000) (stored (out2 a) 0) (stored (out3 a) 0)
      in if ret a \<noteq> efi_code E EFI_SUCCESS
         then check E h (print E (text16 ''Failed to retrieve memory map!'' @ CRLF) s)
                (\<lambda>s. check E h (ret a, s) rest)
         else rest s)"

section \<open>efi_main\<close>

text \<open>Up to the opening of the folders their variables are NULL; the boot table is zero.\<close>

definition no_folders :: folders where
  "no_folders = \<lparr>boot_folder_handle = 0, resource_folder_handle = 0\<rparr>"

definition no_table :: boot_info where
  "no_table = \<lparr>bt_mem_table_pointer = 0, bt_mem_desc_size = 0, bt_mem_desc_count = 0, bt_mapping_base = 0,
     bt_font_pointer = 0, bt_kernel_start_pointer = 0, bt_kernel_page_count = 0, bt_pml4_pointer = 0,
     bt_used_mapping_page_count = 0, bt_width = 0, bt_height = 0, bt_px_per_scan = 0,
     bt_framebuffer_base = 0, bt_framebuffer_size = 0\<rparr>"

definition efi_main ::
    "'f firmware \<Rightarrow> statics \<Rightarrow> processor \<Rightarrow> garbage \<Rightarrow> u64 \<Rightarrow> 'f env \<Rightarrow> 'f outcome option" where
  "efi_main E L cpu g handle s =
     start E no_folders
       (open_config E g (\<lambda>h.
        load_font E L g h (open_kernel E g h (\<lambda>image_file.
        set_graphics E h no_table (file_contents image_file)
          (hand_over E L cpu handle h image_file))))) s"

end
