(* ===== verification/Boot_Main_Props.thy ===== *)
theory Boot_Main_Props
  imports Boot_Main Boot_File_Props
begin

text \<open>
  What \<open>efi_main\<close> does in which order: the calls it makes before the kernel, the checks a kernel has
  passed when it is entered, and what happens at the label \<open>end\<close>.
\<close>

section \<open>Calls before the memory map\<close>

definition boot_time :: "call \<Rightarrow> bool" where
  "boot_time c \<longleftrightarrow> (\<forall>h k. c \<noteq> ExitBootServices h k) \<and> (\<forall>n b. c \<noteq> GetMemoryMap n b)"

lemma boot_time_simps [simp]:
  "boot_time SetWatchdogTimer" "boot_time (ConOut_SetMode n)" "boot_time ClearScreen" "boot_time (OutputString t)"
  "boot_time ConIn_Reset" "boot_time ReadKeyStroke" "boot_time (LocateHandleBuffer p)" "boot_time (HandleProtocol a p)"
  "boot_time (OpenVolume a)" "boot_time (Open a t b)" "boot_time (Close a)" "boot_time (GetInfo a b c)"
  "boot_time (Read a b c)" "boot_time (Write a b c)" "boot_time (AllocatePool a)" "boot_time (FreePool a)"
  "boot_time (AllocatePages a)" "boot_time (FreePages a b)" "boot_time (QueryMode a b c)" "boot_time (GOP_SetMode a b)"
  by (simp_all add: boot_time_def)

definition quiet :: "'f env \<Rightarrow> 'f env \<Rightarrow> bool" where
  "quiet s s' \<longleftrightarrow> (\<exists>cs. calls s' = calls s @ cs \<and> (\<forall>c \<in> set cs. boot_time c))"

lemma quiet_refl [simp]: "quiet s s"
  by (simp add: quiet_def)

lemma quiet_trans [trans]: "quiet s t \<Longrightarrow> quiet t u \<Longrightarrow> quiet s u"
  by (auto simp: quiet_def)

lemma quiet_request: "boot_time c \<Longrightarrow> quiet s (snd (request E c s))"
  by (simp add: quiet_def)

lemma quiet_invoke: "boot_time c \<Longrightarrow> quiet s (snd (invoke E c s))"
  by (simp add: quiet_def)

lemma quiet_ERR: "quiet s (snd r) \<Longrightarrow> (\<And>t. quiet t (snd (k t))) \<Longrightarrow> quiet s (snd (ERR E r k))"
  by (auto simp: ERR_def split: prod.splits intro: quiet_trans)

lemma quiet_print: "quiet s (snd (print E msg s))"
  by (simp add: print_def quiet_invoke)

lemma quiet_print_hex64: "quiet s (snd (print_hex64 E msg v s))"
  unfolding print_hex64_def Let_def by (intro quiet_ERR quiet_invoke boot_time_simps)

lemma quiet_tell: "quiet s (tell E msg s)"
  by (simp add: tell_def quiet_print)

lemma quiet_println_char: "println_char E a n s = Some r \<Longrightarrow> quiet s (snd r)"
  by (auto simp: println_char_def split: if_splits intro!: quiet_ERR quiet_invoke)

lemma quiet_file_close: "file_close E f s = Some r \<Longrightarrow> quiet s (snd r)"
  by (auto simp: file_close_def quiet_invoke split: if_splits)

lemma quiet_open_in: "open_in E root f name mode s = Some (status, f', s') \<Longrightarrow> quiet s s'"
  using quiet_request [of "Open root name mode" s E]
  by (auto simp: open_in_def split: if_splits prod.splits)

lemmas quiet_file_open_ex = quiet_open_in [folded file_open_ex_def]

lemma quiet_visits: "broken_off rest \<Longrightarrow> c \<in> set (concat (map (visit_calls name mode) vs) @ rest) \<Longrightarrow> boot_time c"
  by (auto simp: broken_off_def)

lemma quiet_file_open: "file_open E f name mode s = Some (status, f', s') \<Longrightarrow> quiet s s'"
  using file_open_calls [of E f name mode s status f' s'] quiet_visits
  by (fastforce simp: quiet_def)

lemma quiet_file_info: "file_info E f s = (status, finfo, need, t) \<Longrightarrow> quiet s t"
  by (auto simp: file_info_def invoke_request split_beta Let_def quiet_def split: if_splits)

lemma quiet_file_read: "file_read E f d s = Some (status, d', s') \<Longrightarrow> quiet s s'"
proof -
  obtain st finfo need s1 where i: "file_info E f s = (st, finfo, need, s1)" by (cases "file_info E f s")
  have q: "quiet s s1" by (rule quiet_file_info [OF i])
  have step: "quiet s t \<Longrightarrow> quiet s (snd (request E (AllocatePages a) t))" "quiet s t \<Longrightarrow> quiet s (snd (request E (Read a b c) t))"
    "quiet s t \<Longrightarrow> quiet s (snd (request E (FreePool a) t))" for t a b c
    by (auto intro: quiet_trans quiet_request boot_time_simps)
  assume "file_read E f d s = Some (status, d', s')"
  then show ?thesis using q
    by (auto simp: file_read_def i invoke_request split_beta Let_def split: if_splits intro: step)
qed

lemmas quiet_rules = quiet_request quiet_invoke quiet_print quiet_print_hex64 quiet_tell

section \<open>Reaching the kernel\<close>

text \<open>The label \<open>end\<close> does not lead to the kernel, so a part that does went on to the rest.\<close>

lemma check_entered:
  assumes "check E h r rest = Some (Entered e bt ds u s')"
  shows "\<not> EFI_ERROR E (fst r) \<and> rest (snd r) = Some (Entered e bt ds u s')"
  using assms by (auto simp: check_def split: if_splits prod.splits)

lemma check_quiet:
  assumes "check E h r rest = Some (Entered e bt ds u s')" and "quiet s (snd r)"
  obtains t where "quiet s t" "rest t = Some (Entered e bt ds u s')"
  using assms check_entered by blast

lemma refuse_entered [simp]: "refuse E h msg code s \<noteq> Some (Entered e bt ds u s')"
  by (auto simp: refuse_def dest: check_entered)

lemma start_entered:
  assumes "start E h rest s = Some (Entered e bt ds u s')"
  shows "\<exists>t. quiet s t \<and> rest t = Some (Entered e bt ds u s')"
proof -
  note steps = assms [unfolded start_def, THEN check_entered, THEN conjunct2, THEN check_entered, THEN conjunct2,
      THEN check_entered, THEN conjunct2, THEN check_entered, THEN conjunct2, THEN check_entered, THEN conjunct2]
  show ?thesis
    by (rule exI, rule conjI [rotated], rule steps) (intro quiet_trans [OF _ quiet_invoke] quiet_trans [OF _ quiet_print] quiet_refl boot_time_simps)
qed

lemma open_file_entered:
  assumes "open_file E h folder un name rest s = Some (Entered e bt ds u s')"
  shows "\<exists>file t. quiet s t \<and> rest file t = Some (Entered e bt ds u s')"
  using assms quiet_file_open_ex
  by (auto simp: open_file_def bind_eq_Some_conv dest!: check_entered) blast

lemma read_file_entered:
  assumes "read_file E h file d rest s = Some (Entered e bt ds u s')"
  shows "\<exists>d' t. quiet s t \<and> rest d' t = Some (Entered e bt ds u s')"
  using assms
  by (fastforce simp: read_file_def bind_eq_Some_conv dest!: check_entered dest: quiet_file_read quiet_file_close intro: quiet_trans)

lemma quiet_ram [simp]: "quiet s (t\<lparr>ram := m\<rparr>) \<longleftrightarrow> quiet s t" "quiet (s\<lparr>ram := m\<rparr>) t \<longleftrightarrow> quiet s t"
  by (simp_all add: quiet_def)

lemma open_config_entered:
  assumes run: "open_config E g rest s = Some (Entered e bt ds u s')"
  shows "\<exists>h t. quiet s t \<and> rest h t = Some (Entered e bt ds u s')"
proof -
  obtain st boot s1 where o: "file_open E 0 (text16 ''boot'') (EFI_FILE_MODE_READ E) s = Some (st, boot, s1)"
    using run by (auto simp: open_config_def bind_eq_Some_conv)
  let ?s2 = "tell E ''Opened /boot'' s1"
  note r1 = run [unfolded open_config_def o bind.bind_lunit prod.case Let_def, THEN check_entered, THEN conjunct2, unfolded snd_conv]
  obtain st' resource s3 where
    o': "file_open_ex E boot 0 (text16 ''resources'') (EFI_FILE_MODE_READ E) ?s2 = Some (st', resource, s3)"
    using r1 by (auto simp: bind_eq_Some_conv)
  let ?h = "\<lparr>boot_folder_handle = boot, resource_folder_handle = resource\<rparr>"
  let ?s4 = "tell E ''Opened /boot/resources'' s3"
  note r2 = r1 [unfolded o' bind.bind_lunit prod.case, THEN check_entered, THEN conjunct2, unfolded snd_conv]
  from open_file_entered [OF r2] obtain config s5 where
    q5: "quiet ?s4 s5" and r3: "read_file E ?h config (junk_file g) (use_config E ?h rest)
               (tell E ''Opened /boot/resources/boot.cfg'' s5) = Some (Entered e bt ds u s')" by blast
  from read_file_entered [OF r3] obtain d s6 where
    q6: "quiet (tell E ''Opened /boot/resources/boot.cfg'' s5) s6" and
    r4: "use_config E ?h rest d s6 = Some (Entered e bt ds u s')" by blast
  obtain printed where p: "println_char E (file_contents d) (file_size d) s6 = Some printed"
    and r5: "check E ?h printed (\<lambda>s. check E ?h (invoke E (FreePages (file_contents d) (file_pages d)) s) (rest ?h)) =
      Some (Entered e bt ds u s')" using r4 by (auto simp only: use_config_def bind_eq_Some_conv)
  let ?t = "snd (invoke E (FreePages (file_contents d) (file_pages d)) (snd printed))"
  have "rest ?h ?t = Some (Entered e bt ds u s')" using r5 by (auto dest!: check_entered)
  moreover have "quiet s ?t"
  proof -
    have "quiet s s1" by (rule quiet_file_open [OF o])
    also have "quiet s1 ?s2" by (rule quiet_tell)
    also have "quiet ?s2 s3" by (rule quiet_file_open_ex [OF o'])
    also have "quiet s3 ?s4" by (rule quiet_tell)
    also note q5
    also have "quiet s5 (tell E ''Opened /boot/resources/boot.cfg'' s5)" by (rule quiet_tell)
    also note q6
    also have "quiet s6 (snd printed)" by (rule quiet_println_char [OF p])
    also have "quiet (snd printed) ?t" by (intro quiet_invoke boot_time_simps)
    finally show ?thesis .
  qed
  ultimately show ?thesis by blast
qed

lemma load_font_entered:
  assumes run: "load_font E L g h rest s = Some (Entered e bt ds u s')"
  shows "\<exists>t1 t. quiet s t1 \<and> PSF2_MAGIC_OK (ram t1) (psf_buf L) \<and> quiet t1 t \<and> rest t = Some (Entered e bt ds u s')"
proof -
  from open_file_entered [OF run [unfolded load_font_def]] obtain font s1 where
    q1: "quiet s s1" and r1: "read_file E h font (junk_file g) (use_font E L h rest) s1 = Some (Entered e bt ds u s')" by blast
  from read_file_entered [OF r1] obtain d s2 where q2: "quiet s1 s2" and
    r2: "use_font E L h rest d s2 = Some (Entered e bt ds u s')" by blast
  let ?t1 = "s2\<lparr>ram := boot_memcpy (ram s2) (psf_buf L) (file_contents d) (file_size d)\<rparr>"
  let ?t2 = "snd (invoke E (FreePages (file_contents d) (file_pages d)) ?t1)"
  have magic: "PSF2_MAGIC_OK (ram ?t1) (psf_buf L)" and
    "check E h (invoke E (FreePages (file_contents d) (file_pages d)) ?t1) (\<lambda>s. rest (tell E ''Done font!'' s)) = Some (Entered e bt ds u s')"
    using r2 by (simp_all add: use_font_def Let_def split: if_splits)
  from check_entered [OF this(2)] have r3: "rest (tell E ''Done font!'' ?t2) = Some (Entered e bt ds u s')" by simp
  have "quiet ?t1 ?t2" by (intro quiet_invoke boot_time_simps)
  also have "quiet ?t2 (tell E ''Done font!'' ?t2)" by (rule quiet_tell)
  finally have "quiet ?t1 (tell E ''Done font!'' ?t2)" .
  moreover have "quiet s ?t1" using quiet_trans [OF q1 q2] by simp
  ultimately show ?thesis using magic r3 by blast
qed

lemma open_kernel_entered:
  assumes run: "open_kernel E g h rest s = Some (Entered e bt ds u s')"
  shows "\<exists>d t1 t. quiet s t1 \<and> check_kernel (file_image t1) (file_contents d) = EFI_SUCCESS \<and> quiet t1 t \<and>
    rest d t = Some (Entered e bt ds u s')"
proof -
  from open_file_entered [OF run [unfolded open_kernel_def]] obtain f s1 where
    q1: "quiet s s1" and r1: "read_file E h f (junk_file g) (use_kernel E h rest) s1 = Some (Entered e bt ds u s')" by blast
  from read_file_entered [OF r1] obtain d s2 where q2: "quiet s1 s2" and
    r2: "use_kernel E h rest d s2 = Some (Entered e bt ds u s')" by blast
  have "check_kernel (file_image s2) (file_contents d) = EFI_SUCCESS" "rest d (tell E ''Done kernel!'' s2) = Some (Entered e bt ds u s')"
    using r2 by (simp_all add: use_kernel_def check_kernel_def Let_def split: if_splits)
  then show ?thesis using quiet_trans [OF q1 q2] quiet_tell [of s2 E "''Done kernel!''"] by blast
qed

section \<open>The graphics mode\<close>

text \<open>What the search has found so far: nothing, or a mode of 0x500 by 0x320.\<close>

definition search_inv :: "u64 \<Rightarrow> mode_search \<Rightarrow> bool" where
  "search_inv none q \<longleftrightarrow> res_1280x720 q = none \<or> bt_width (table q) = 0x500 \<and> bt_height (table q) = 0x320"

lemma quiet_show_mode: "quiet s (show_mode E i p s)"
  unfolding show_mode_def Let_def
  by (rule quiet_trans [OF quiet_trans [OF quiet_trans [OF quiet_print_hex64 quiet_print_hex64] quiet_print_hex64] quiet_print])

lemma look_at_mode_keeps:
  "quiet s (snd (look_at_mode E i p q s)) \<and> (search_inv none q \<longrightarrow> search_inv none (fst (look_at_mode E i p q s)))"
  by (simp add: look_at_mode_def Let_def search_inv_def quiet_show_mode)

lemma use_mode_keeps:
  assumes "use_mode E i q s = Some (status, q', s')"
  shows "quiet s s' \<and> (search_inv none q \<longrightarrow> search_inv none q')"
proof -
  obtain q1 s1 where l: "look_at_mode E i (mode_info q) q s = (q1, s1)" by fastforce
  have k: "quiet s s1" "search_inv none q \<longrightarrow> search_inv none q1" using look_at_mode_keeps [of s E i "mode_info q" q none] l by simp_all
  have "s' = snd (invoke E (FreePool (mode_info q)) s1)" "q' = q1\<lparr>mode_size := 0\<rparr>"
    using assms l by (auto simp: use_mode_def Let_def split_beta split: if_splits)
  then show ?thesis using k quiet_trans [OF k(1) quiet_invoke] by (simp add: search_inv_def)
qed

lemma ask_mode_keeps:
  assumes "ask_mode E gop i q s = (status, q', s')"
  shows "quiet s s' \<and> search_inv none q' = search_inv none q"
  using assms quiet_request [of "QueryMode gop i (mode_size q)" s E]
  by (auto simp: ask_mode_def split_beta search_inv_def)

lemma query_mode_keeps:
  assumes "query_mode E gop i q s = Some (status, q', s')"
  shows "quiet s s' \<and> (search_inv none q \<longrightarrow> search_inv none q')"
proof -
  obtain st1 q1 s1 where a: "ask_mode E gop i q s = (st1, q1, s1)" by (cases "ask_mode E gop i q s")
  obtain m s2 where r: "request E (AllocatePool (mode_size q1)) s1 = (m, s2)" by fastforce
  define q2 where "q2 = q1\<lparr>mode_info := stored (out1 m) (mode_info q1)\<rparr>"
  obtain st3 q3 s3 where b: "ask_mode E gop i q2 s2 = (st3, q3, s3)" by (cases "ask_mode E gop i q2 s2")
  have k1: "quiet s s1" "search_inv none q1 = search_inv none q" using ask_mode_keeps [OF a] by auto
  have "quiet s1 s2" using quiet_request [of "AllocatePool (mode_size q1)" s1 E] r by simp
  then have k2: "quiet s s2" "search_inv none q2 = search_inv none q"
    using k1 quiet_trans by (blast, simp add: q2_def search_inv_def)
  have k3: "quiet s s3" "search_inv none q3 = search_inv none q"
    using ask_mode_keeps [OF b, of none] k2 quiet_trans [of s s2 s3] by auto
  have u: "quiet s s' \<and> (search_inv none q \<longrightarrow> search_inv none q')"
    if "use_mode E i r t = Some (status, q', s')" "quiet s t" "search_inv none r = search_inv none q" for r t
    using use_mode_keeps [OF that(1), of none] that(2,3) quiet_trans by blast
  note run = assms [unfolded query_mode_def a prod.case Let_def r, folded q2_def, unfolded b prod.case]
  consider "use_mode E i q3 s3 = Some (status, q', s')" | "use_mode E i q1 s1 = Some (status, q', s')"
    | "q' = q1" "s' = s1" | "q' = q2" "s' = s2" | "q' = q3" "s' = s3"
    using run by (auto split: if_splits)
  then show ?thesis by cases (use k1 k2 k3 u in blast)+
qed

lemma search_modes_keeps:
  assumes "search_modes E gop i q s = Some (status, q', s')"
  shows "quiet s s' \<and> (search_inv none q \<longrightarrow> search_inv none q')"
  using assms
proof (induction E gop i q s rule: search_modes.induct)
  case (1 E gop i q s)
  show ?case
  proof (cases "i < ucast (MaxMode E (ram s) gop)")
    case True
    then obtain st1 q1 s1 where m: "query_mode E gop i q s = Some (st1, q1, s1)" and
      k: "(if EFI_ERROR E st1 then Some (st1, q1, s1) else search_modes E gop (i + 1) q1 s1) = Some (status, q', s')"
      using 1(2) by (subst (asm) search_modes.simps) (auto simp: bind_eq_Some_conv)
    show ?thesis
    proof (cases "EFI_ERROR E st1")
      case e: False
      have "quiet s1 s' \<and> (search_inv none q1 \<longrightarrow> search_inv none q')"
        using 1(1) [OF True m refl refl e] k e by simp
      then show ?thesis using query_mode_keeps [OF m, of none] quiet_trans by blast
    qed (use k query_mode_keeps [OF m, of none] in auto)
  next
    case False
    then show ?thesis using 1(2) by (subst (asm) search_modes.simps) auto
  qed
qed

text \<open>The number of modes of the graphics output does not change.\<close>

definition fixed_modes :: "'f firmware \<Rightarrow> bool" where
  "fixed_modes E \<longleftrightarrow> (\<forall>gop m m'. MaxMode E m gop = MaxMode E m' gop)"

lemma set_mode_entered:
  assumes run: "set_mode E h gop elf_header rest q s = Some (Entered e bt ds u s')"
  shows "res_1280x720 q \<noteq> no_mode E gop s \<and> (\<exists>base len t. quiet s t \<and>
    rest ((table q)\<lparr>bt_framebuffer_base := base, bt_framebuffer_size := len\<rparr>) t = Some (Entered e bt ds u s'))"
proof -
  let ?s1 = "snd (invoke E (GOP_SetMode gop (res_1280x720 q)) s)"
  let ?s2 = "snd (invoke E (ConOut_SetMode 2) ?s1)"
  let ?s3 = "snd (invoke E ClearScreen ?s2)"
  let ?s4 = "tell E ''Changed resolution!'' ?s3"
  let ?bt = "(table q)\<lparr>bt_framebuffer_base := FrameBufferBase E (ram ?s4) gop,
    bt_framebuffer_size := FrameBufferSize E (ram ?s4) gop\<rparr>"
  have n: "res_1280x720 q \<noteq> no_mode E gop s" using run by (auto simp only: set_mode_def split: if_splits)
  note r1 = run [unfolded set_mode_def Let_def if_not_P [OF n], THEN check_entered, THEN conjunct2, THEN check_entered, THEN conjunct2]
  let ?s5 = "snd (print E CRLF (snd (print_hex64 E (text16 ''Framebuffer base: 0x'') (bt_framebuffer_base ?bt) ?s4)))"
  note r2 = r1 [THEN check_entered, THEN conjunct2, THEN check_entered, THEN conjunct2]
  let ?s6 = "snd (print E CRLF (snd (print_hex64 E (text16 ''Kernel entry address: 0x'') (field 64 (file_image ?s5) elf_header 24) ?s5)))"
  note r3 = r2 [THEN check_entered, THEN conjunct2]
  have "quiet s ?s1" by (simp add: quiet_invoke)
  also have "quiet ?s1 ?s2" by (simp add: quiet_invoke)
  also have "quiet ?s2 ?s3" by (simp add: quiet_invoke)
  also have "quiet ?s3 ?s4" by (rule quiet_tell)
  also have "quiet ?s4 ?s5" by (rule quiet_trans [OF quiet_print_hex64 quiet_print])
  also have "quiet ?s5 ?s6" by (rule quiet_trans [OF quiet_print_hex64 quiet_print])
  also have "quiet ?s6 (snd (invoke E ClearScreen ?s6))" by (simp add: quiet_invoke)
  finally show ?thesis using n r3 by blast
qed

lemma set_graphics_entered:
  assumes run: "set_graphics E h bt0 elf_header rest s = Some (Entered e bt ds u s')" and fixed: "fixed_modes E"
  shows "\<exists>bt1 t. quiet s t \<and> bt_width bt1 = 0x500 \<and> bt_height bt1 = 0x320 \<and> rest bt1 t = Some (Entered e bt ds u s')"
proof -
  let ?c1 = "LocateHandleBuffer GraphicsOutputProtocol"
  obtain a s1 where r1: "request E ?c1 s = (a, s1)" by fastforce
  define c2 where "c2 = HandleProtocol (get64 (ram s1) (stored (out2 a) 0 + 8)) GraphicsOutputProtocol"
  obtain b s2 where r2: "request E c2 s1 = (b, s2)" by fastforce
  define gop where "gop = stored (out1 b) 0"
  let ?s3 = "tell E ''Done find graphics protocol!'' s2"
  let ?none = "no_mode E gop ?s3"
  let ?q0 = "\<lparr>res_1280x720 = ?none, mode_size = 0, mode_info = 0, table = bt0\<rparr>"
  note step1 = run [unfolded set_graphics_def r1 Let_def prod.case, THEN check_entered, THEN conjunct2, unfolded snd_conv]
  note step2 = step1 [folded c2_def, unfolded r2 prod.case, THEN check_entered, THEN conjunct2, unfolded snd_conv, folded gop_def]
  obtain st q s4 where m: "search_modes E gop 0 ?q0 ?s3 = Some (st, q, s4)" and
    r4: "check E h (st, s4) (set_mode E h gop elf_header rest q) = Some (Entered e bt ds u s')"
    using step2 by (auto simp: bind_eq_Some_conv split: if_splits)
  have "set_mode E h gop elf_header rest q s4 = Some (Entered e bt ds u s')" using check_entered [OF r4] by simp
  from set_mode_entered [OF this] obtain base len t where
    n: "res_1280x720 q \<noteq> no_mode E gop s4" and q5: "quiet s4 t" and
    r5: "rest ((table q)\<lparr>bt_framebuffer_base := base, bt_framebuffer_size := len\<rparr>) t = Some (Entered e bt ds u s')" by blast
  have keep: "quiet ?s3 s4" "search_inv ?none q" using search_modes_keeps [OF m, of ?none] by (auto simp: search_inv_def)
  have "no_mode E gop s4 = ?none" using fixed unfolding fixed_modes_def no_mode_def by metis
  then have "bt_width (table q) = 0x500 \<and> bt_height (table q) = 0x320" using n keep(2) by (simp add: search_inv_def)
  moreover have "quiet s t"
  proof -
    have "quiet s s1" using quiet_request [of ?c1 s E] r1 by simp
    also have "quiet s1 s2" using quiet_request [of c2 s1 E] r2 c2_def by simp
    also have "quiet s2 ?s3" by (rule quiet_tell)
    also note keep(1)
    also note q5
    finally show ?thesis .
  qed
  ultimately show ?thesis using r5
    by (intro exI [of _ "(table q)\<lparr>bt_framebuffer_base := base, bt_framebuffer_size := len\<rparr>"] exI [of _ t]) simp
qed

section \<open>Handing over\<close>

lemma start_kernel_entered:
  assumes "start_kernel E cpu elf_header kernel_size bt0 ds0 u0 t = Entered e bt ds u s'"
  shows "\<exists>ld. load_kernel (EFI_ERROR E) (map_pages_left cpu) elf_header kernel_size u0 = (None, ld) \<and> u = uefi ld \<and>
    e = field 64 (words u) elf_header 24 \<and> ds = ds0 \<and> s' = t \<and>
    bt = bt0\<lparr>bt_pml4_pointer := pml4 u0,
      bt_used_mapping_page_count := drop_bit 12 (next_available_mapping_page u0 - mapping_base_address u0),
      bt_kernel_start_pointer := kernel_start ld, bt_kernel_page_count := kernel_pages ld\<rparr>"
  using assms by (auto simp: start_kernel_def get_mapping_pointers_and_count_def Let_def split: prod.splits option.splits)

text \<open>What is known when the kernel is entered: how the firmware was left, and what was built.\<close>

definition built ::
    "'f firmware \<Rightarrow> statics \<Rightarrow> processor \<Rightarrow> file_data \<Rightarrow> u64 \<Rightarrow> u64 \<Rightarrow> u64 \<Rightarrow> boot_info \<Rightarrow>
     memory_descriptor list \<Rightarrow> uefi_mem \<Rightarrow> 'f env \<Rightarrow> bool" where
  "built E L cpu img map_size desc_size entry bt descs u s' \<longleftrightarrow>
     (\<exists>u0 ld reg base0.
        init_virtual_mapping (wide_shift cpu) (cr3_value cpu) MAPPING_TYPE_MAP_ALL
          (memory_map E L desc_size (map_size div desc_size) (ram s')) base0 (enter s') =
          Some (EFI_SUCCESS, descs, bt_mapping_base bt, reg, u0) \<and>
        load_kernel (EFI_ERROR E) (map_pages_left cpu) (file_contents img) (file_size img) u0 = (None, ld) \<and>
        u = uefi ld \<and> entry = field 64 (words u) (file_contents img) 24 \<and>
        bt_pml4_pointer bt = pml4 u0 \<and> bt_kernel_start_pointer bt = kernel_start ld \<and>
        bt_kernel_page_count bt = kernel_pages ld \<and> bt_mem_table_pointer bt = memmap_buf L \<and>
        bt_mem_desc_size bt = desc_size \<and> bt_mem_desc_count bt = map_size div desc_size \<and>
        bt_font_pointer bt = psf_buf L \<and> bt_width bt = 0x500 \<and> bt_height bt = 0x320)"

lemma leave_firmware_entered:
  assumes run: "leave_firmware E L cpu handle h img bt0 map_size map_key desc_size s = Some (Entered e bt ds u s')"
    and wh: "bt_width bt0 = 0x500" "bt_height bt0 = 0x320" and doc: "efi_documented E"
  shows "\<not> EFI_ERROR E (fst (invoke E (ExitBootServices handle map_key) s)) \<and>
    s' = snd (invoke E (ExitBootServices handle map_key) s) \<and>
    built E L cpu img map_size desc_size e bt ds u s'"
proof -
  let ?r = "invoke E (ExitBootServices handle map_key) s" and ?count = "map_size div desc_size"
  define bt1 where "bt1 = bt0\<lparr>bt_mem_table_pointer := memmap_buf L, bt_mem_desc_size := desc_size,
    bt_mem_desc_count := ?count, bt_font_pointer := psf_buf L\<rparr>"
  have d: "desc_size \<noteq> 0" using run by (auto simp: leave_firmware_def)
  note r1 = run [unfolded leave_firmware_def if_not_P [OF d] Let_def, folded bt1_def, THEN check_entered]
  obtain status descs base reg u0 where
    i: "init_virtual_mapping (wide_shift cpu) (cr3_value cpu) MAPPING_TYPE_MAP_ALL
          (memory_map E L desc_size ?count (ram (snd ?r))) (bt_mapping_base bt1) (enter (snd ?r)) =
          Some (status, descs, base, reg, u0)" and
    c: "check E h (efi_code E status, snd ?r)
      (\<lambda>s. Some (start_kernel E cpu (file_contents img) (file_size img) (bt1\<lparr>bt_mapping_base := base\<rparr>) descs u0 s)) =
      Some (Entered e bt ds u s')"
    using r1 [THEN conjunct2] by (auto simp: bind_eq_Some_conv)
  have k: "\<not> EFI_ERROR E (efi_code E status)"
    "start_kernel E cpu (file_contents img) (file_size img) (bt1\<lparr>bt_mapping_base := base\<rparr>) descs u0 (snd ?r) = Entered e bt ds u s'"
    using check_entered [OF c] by simp_all
  have st: "status = EFI_SUCCESS" using k(1) doc by (simp add: efi_documented_def)
  from start_kernel_entered [OF k(2)] obtain ld where
    ld: "load_kernel (EFI_ERROR E) (map_pages_left cpu) (file_contents img) (file_size img) u0 = (None, ld)"
    "u = uefi ld" "e = field 64 (words u) (file_contents img) 24" "ds = descs" "s' = snd ?r" and
    bt: "bt = bt1\<lparr>bt_mapping_base := base, bt_pml4_pointer := pml4 u0,
      bt_used_mapping_page_count := drop_bit 12 (next_available_mapping_page u0 - mapping_base_address u0),
      bt_kernel_start_pointer := kernel_start ld, bt_kernel_page_count := kernel_pages ld\<rparr>" by blast
  have "built E L cpu img map_size desc_size e bt ds u s'"
    unfolding built_def
    by (intro exI [of _ u0] exI [of _ ld] exI [of _ reg] exI [of _ "bt_mapping_base bt1"])
      (use i st ld wh in \<open>simp add: bt bt1_def\<close>)
  then show ?thesis using r1 [THEN conjunct1] ld(5) by blast
qed

text \<open>How the firmware is left: the map is taken, and nothing but a message comes before the exit with its key.\<close>

definition left_firmware :: "'f firmware \<Rightarrow> statics \<Rightarrow> u64 \<Rightarrow> 'f env \<Rightarrow> 'f env \<Rightarrow> answer \<Rightarrow> bool" where
  "left_firmware E L handle sm s' a \<longleftrightarrow>
     a = fst (request E (GetMemoryMap 0x8000 (memmap_buf L)) sm) \<and> \<not> EFI_ERROR E (ret a) \<and>
     calls s' = calls sm @ GetMemoryMap 0x8000 (memmap_buf L) #
       (if ret a = efi_code E EFI_SUCCESS then [] else [OutputString (text16 ''Failed to retrieve memory map!'' @ CRLF)]) @
       [ExitBootServices handle (stored (out2 a) 0)]"

lemma hand_over_entered:
  assumes run: "hand_over E L cpu handle h img bt0 s = Some (Entered e bt ds u s')"
    and wh: "bt_width bt0 = 0x500" "bt_height bt0 = 0x320" and doc: "efi_documented E"
  shows "\<exists>a. left_firmware E L handle s s' a \<and>
    built E L cpu img (stored (out1 a) 0x8000) (stored (out3 a) 0) e bt ds u s'"
proof -
  let ?c = "GetMemoryMap 0x8000 (memmap_buf L)"
  let ?msg = "text16 ''Failed to retrieve memory map!'' @ CRLF"
  obtain a s1 where r: "request E ?c s = (a, s1)" by fastforce
  define t where "t = (if ret a = efi_code E EFI_SUCCESS then s1 else snd (print E ?msg s1))"
  let ?rest = "leave_firmware E L cpu handle h img bt0 (stored (out1 a) 0x8000) (stored (out2 a) 0) (stored (out3 a) 0)"
  have c1: "calls s1 = calls s @ [?c]" using calls_request [of E ?c s] r by simp
  have t: "\<not> EFI_ERROR E (ret a) \<and> ?rest t = Some (Entered e bt ds u s')"
  proof (cases "ret a = efi_code E EFI_SUCCESS")
    case False
    have "check E h (print E ?msg s1) (\<lambda>s. check E h (ret a, s) ?rest) = Some (Entered e bt ds u s')"
      using run False by (simp add: hand_over_def r)
    from check_entered [OF check_entered [OF this, THEN conjunct2]] show ?thesis using False by (simp add: t_def)
  qed (use run doc in \<open>simp add: hand_over_def r t_def efi_documented_def\<close>)
  have "calls s' = calls t @ [ExitBootServices handle (stored (out2 a) 0)]"
    using leave_firmware_entered [OF t [THEN conjunct2] wh doc] by simp
  then have "left_firmware E L handle s s' a"
    using t c1 r by (auto simp: left_firmware_def t_def print_def)
  then show ?thesis using leave_firmware_entered [OF t [THEN conjunct2] wh doc] by blast
qed

section \<open>The whole way\<close>

lemma efi_main_entered:
  assumes run: "efi_main E L cpu g handle s = Some (Entered e bt ds u s')"
    and fixed: "fixed_modes E" and doc: "efi_documented E"
  shows "\<exists>img sf sk sm a. quiet s sf \<and> PSF2_MAGIC_OK (ram sf) (psf_buf L) \<and> quiet sf sk \<and>
    check_kernel (file_image sk) (file_contents img) = EFI_SUCCESS \<and> quiet sk sm \<and> left_firmware E L handle sm s' a \<and>
    built E L cpu img (stored (out1 a) 0x8000) (stored (out3 a) 0) e bt ds u s'"
proof -
  from start_entered [OF run [unfolded efi_main_def]] obtain s1 where q1: "quiet s s1" and
    "open_config E g (\<lambda>h. load_font E L g h (open_kernel E g h (\<lambda>image_file.
       set_graphics E h no_table (file_contents image_file) (hand_over E L cpu handle h image_file)))) s1 =
     Some (Entered e bt ds u s')" by blast
  from open_config_entered [OF this(2)] obtain h s2 where q2: "quiet s1 s2" and
    "load_font E L g h (open_kernel E g h (\<lambda>image_file.
       set_graphics E h no_table (file_contents image_file) (hand_over E L cpu handle h image_file))) s2 =
     Some (Entered e bt ds u s')" by blast
  from load_font_entered [OF this(2)] obtain sf s3 where
    q3: "quiet s2 sf" and magic: "PSF2_MAGIC_OK (ram sf) (psf_buf L)" and q4: "quiet sf s3" and
    "open_kernel E g h (\<lambda>image_file. set_graphics E h no_table (file_contents image_file)
       (hand_over E L cpu handle h image_file)) s3 = Some (Entered e bt ds u s')" by blast
  from open_kernel_entered [OF this(4)] obtain img sk s4 where
    q5: "quiet s3 sk" and elf: "check_kernel (file_image sk) (file_contents img) = EFI_SUCCESS" and q6: "quiet sk s4" and
    "set_graphics E h no_table (file_contents img) (hand_over E L cpu handle h img) s4 = Some (Entered e bt ds u s')" by blast
  from set_graphics_entered [OF this(4) fixed] obtain bt1 sm where
    q7: "quiet s4 sm" and wh: "bt_width bt1 = 0x500" "bt_height bt1 = 0x320" and
    r: "hand_over E L cpu handle h img bt1 sm = Some (Entered e bt ds u s')" by blast
  from hand_over_entered [OF r wh doc] obtain a where
    "left_firmware E L handle sm s' a" "built E L cpu img (stored (out1 a) 0x8000) (stored (out3 a) 0) e bt ds u s'" by blast
  then show ?thesis
    using quiet_trans [OF q1 quiet_trans [OF q2 q3]] magic quiet_trans [OF q4 q5] elf quiet_trans [OF q6 q7]
    by (intro exI [of _ img] exI [of _ sf] exI [of _ sk] exI [of _ sm] exI [of _ a]) blast
qed

end
