(* ===== verification/Boot_Demo.thy ===== *)
theory Boot_Demo
  imports Boot_Main_Props Boot_Kernel_Space
begin

text \<open>
  A small firmware on which the bootloader starts a kernel. It is what the witnesses of the
  claims on \<open>efi_main\<close> and on the file functions run on.
\<close>

section \<open>A machine that starts the kernel\<close>

text \<open>One disk and one graphics mode. The kernel file has no segments; the tables of the firmware are empty.\<close>

definition reply :: "u64 option \<Rightarrow> u64 option \<Rightarrow> u64 option \<Rightarrow> answer" where
  "reply a b c = \<lparr>ret = 0, out1 = a, out2 = b, out3 = c\<rparr>"

fun demo_code :: "efi_status \<Rightarrow> u64" where
  "demo_code EFI_SUCCESS = 0"
| "demo_code EFI_BUFFER_TOO_SMALL = 0x8000000000000005"
| "demo_code EFI_NOT_READY = 0x8000000000000006"
| "demo_code EFI_UNSUPPORTED = 0x8000000000000003"
| "demo_code EFI_INVALID_PARAMETER = 0x8000000000000002"
| "demo_code EFI_NOT_FOUND = 0x800000000000000e"

fun demo_read :: "u64 \<Rightarrow> u64 \<Rightarrow> byte_mem \<Rightarrow> byte_mem" where
  "demo_read h b m =
     (if h = 0x401 then m(b := 0x72, b + 1 := 0xb5, b + 2 := 0x4a, b + 3 := 0x86)
      else if h = 0x402 then m(b := 0x7F, b + 1 := 0x45, b + 2 := 0x4c, b + 3 := 0x46, b + 4 := 2, b + 18 := 0x3E)
      else m)"

fun demo_serve :: "call \<Rightarrow> byte_mem \<Rightarrow> unit \<Rightarrow> answer \<times> byte_mem \<times> unit" where
  "demo_serve (LocateHandleBuffer p) m f = (reply (Some 1) (Some 0x100) None, m, f)"
| "demo_serve (HandleProtocol h p) m f = (reply (Some 0x200) None None, m, f)"
| "demo_serve (OpenVolume h) m f = (reply (Some 0x300) None None, m, f)"
| "demo_serve (Open h name mode) m f =
     (reply (Some (if name = text16 ''aply16.psf'' then 0x401 else if name = text16 ''betelgeuse.kernel'' then 0x402 else 0x400)) None None, m, f)"
| "demo_serve (GetInfo h n b) m f =
     ((if b = 0 then \<lparr>ret = demo_code EFI_BUFFER_TOO_SMALL, out1 = Some 96, out2 = None, out3 = None\<rparr> else reply None None None), m, f)"
| "demo_serve (AllocatePool n) m f = (reply (Some 0x500) None None, m, f)"
| "demo_serve (AllocatePages n) m f = (reply (Some 0x10000) None None, m, f)"
| "demo_serve (Read h n b) m f = (reply None None None, demo_read h b m, f)"
| "demo_serve (QueryMode g i n) m f = (reply (Some 36) (Some 0x600) None, m, f)"
| "demo_serve (GetMemoryMap n b) m f = (reply (Some 96) (Some 7) (Some 48), m, f)"
| "demo_serve c m f = (reply None None None, m, f)"

definition demo :: "unit firmware" where
  "demo = \<lparr>serve = demo_serve, EFI_ERROR = (\<lambda>x. bit x 63), efi_code = demo_code, EFI_FILE_MODE_READ = 1,
     EFI_FILE_MODE_WRITE = 2, EFI_FILE_MODE_CREATE = 0x8000000000000000, sizeof_file_info = 88, FileSize = (\<lambda>m p. 4),
     MaxMode = (\<lambda>m g. 1), FrameBufferBase = (\<lambda>m g. 0x80000000), FrameBufferSize = (\<lambda>m g. 0x400000),
     HorizontalResolution = (\<lambda>m p. 0x500), VerticalResolution = (\<lambda>m p. 0x320), PixelsPerScanLine = (\<lambda>m p. 0x500),
     descriptor_at = (\<lambda>m p. boot_regions ! (if p = 0x20000 then 0 else 1))\<rparr>"

definition demo_env :: "byte_mem \<Rightarrow> call list \<Rightarrow> unit env" where
  "demo_env m cs = \<lparr>fw = (), ram = m, calls = cs\<rparr>"

definition demo_statics :: statics where "demo_statics = \<lparr>memmap_buf = 0x20000, psf_buf = 0x30000\<rparr>"
definition demo_cpu :: processor where "demo_cpu = \<lparr>cr3_value = 0x40000, wide_shift = 0, map_pages_left = (\<lambda>_. 0)\<rparr>"
definition demo_garbage :: garbage where
  "demo_garbage = \<lparr>junk_handle = 0, junk_file = \<lparr>file_contents = 0, file_size = 0, file_pages = 0\<rparr>\<rparr>"

lemma demo_fields [simp]:
  "ram (demo_env m cs) = m" "calls (demo_env m cs) = cs" "(demo_env m cs)\<lparr>ram := m'\<rparr> = demo_env m' cs"
  "efi_code demo = demo_code" "EFI_ERROR demo 0 = False" "EFI_ERROR demo (demo_code st) \<longleftrightarrow> st \<noteq> EFI_SUCCESS"
  "FileSize demo m p = 4" "MaxMode demo m p = 1" "HorizontalResolution demo m p = 0x500" "VerticalResolution demo m p = 0x320"
  "sizeof_file_info demo = 88"
  by (cases st; simp add: demo_env_def demo_def)+

lemma demo_request [simp]:
  "request demo c (demo_env m cs) =
    (fst (demo_serve c m ()), demo_env (fst (snd (demo_serve c m ()))) (cs @ [c]))"
  by (simp add: request_def demo_env_def demo_def split_beta)

lemma demo_invoke [simp]:
  "invoke demo c (demo_env m cs) =
    (ret (fst (demo_serve c m ())), demo_env (fst (snd (demo_serve c m ()))) (cs @ [c]))"
  by (simp add: invoke_request)

lemma reply_simps [simp]: "ret (reply a b c) = 0" "out1 (reply a b c) = a" "out2 (reply a b c) = b" "out3 (reply a b c) = c"
  by (simp_all add: reply_def)

lemma stored_simps [simp]: "stored None x = x" "stored (Some y) x = y"
  by (simp_all add: stored_def)

lemma demo_text [simp]:
  "print demo msg (demo_env m cs) = (0, demo_env m (cs @ [OutputString msg]))"
  "tell demo str (demo_env m cs) = demo_env m (cs @ [OutputString (text16 str @ CRLF)])"
  "print_hex64 demo msg v (demo_env m cs) =
     (0, demo_env m (cs @ [OutputString msg, OutputString (map ucast (hex_fill (rev [0..<16]) v (replicate 16 0x30)))]))"
  by (simp_all add: print_def tell_def print_hex64_def ERR_def Let_def)

lemma demo_check [simp]: "check demo h (0, s) rest = rest s"
  by (simp add: check_def)

definition demo_loaded :: file_data where
  "demo_loaded = \<lparr>file_contents = 0x10000, file_size = 4, file_pages = 1\<rparr>"

lemma demo_loaded [simp]: "file_contents demo_loaded = 0x10000" "file_size demo_loaded = 4" "file_pages demo_loaded = 1"
  by (simp_all add: demo_loaded_def)

definition read_calls :: "u64 \<Rightarrow> call list" where
  "read_calls f = [GetInfo f 88 0, AllocatePool 96, GetInfo f 96 0x500, AllocatePages 1, Read f 4 0x10000, FreePool 0x500, Close f]"

lemma demo_read_file [simp]:
  assumes "f \<noteq> 0"
  shows "read_file demo h f d rest (demo_env m cs) =
    rest demo_loaded (demo_env (demo_read f 0x10000 m) (cs @ read_calls f))"
  using assms
  by (cases d) (simp add: read_file_def file_read_def file_info_def file_close_def demo_loaded_def read_calls_def del: demo_read.simps)

definition demo_handle :: "string \<Rightarrow> u64" where
  "demo_handle name = (if text16 name = text16 ''aply16.psf'' then 0x401 else if text16 name = text16 ''betelgeuse.kernel'' then 0x402 else 0x400)"

lemma demo_handle [simp]:
  "demo_handle ''boot'' = 0x400" "demo_handle ''resources'' = 0x400" "demo_handle ''boot.cfg'' = 0x400"
  "demo_handle ''aply16.psf'' = 0x401" "demo_handle ''betelgeuse.kernel'' = 0x402"
  by (simp_all add: demo_handle_def text16_def)

lemma demo_open [simp]:
  "demo_serve (Open h (text16 name) mode) m f = (reply (Some (demo_handle name)) None None, m, f)"
  by (simp add: demo_handle_def)

declare demo_serve.simps(4) [simp del]

lemma demo_open_file [simp]:
  assumes "folder \<noteq> 0"
  shows "open_file demo h folder un name rest (demo_env m cs) =
    rest (demo_handle name) (demo_env m (cs @ [Open folder (text16 name) (EFI_FILE_MODE_READ demo)]))"
  using assms by (simp add: open_file_def file_open_ex_def open_in_def)

definition start_calls :: "call list" where
  "start_calls = [SetWatchdogTimer, ConOut_SetMode 2, ClearScreen, OutputString (text16 ''Hello, UEFI World!'' @ CRLF), ConIn_Reset]"

lemma demo_start [simp]: "start demo h rest (demo_env m cs) = rest (demo_env m (cs @ start_calls))"
  by (simp add: start_def start_calls_def)

definition demo_folders :: folders where
  "demo_folders = \<lparr>boot_folder_handle = 0x400, resource_folder_handle = 0x400\<rparr>"

lemma demo_config: "\<exists>cs'. open_config demo demo_garbage rest (demo_env (\<lambda>_. 0) cs) = rest demo_folders (demo_env (\<lambda>_. 0) cs')"
  by (simp add: open_config_def file_open_def open_in_def file_open_ex_def file_close_def use_config_def println_char_def ERR_def
      demo_folders_def [symmetric]) (rule exI, rule refl)

definition demo_memory :: byte_mem where
  "demo_memory = boot_memcpy (demo_read 0x401 0x10000 (\<lambda>_. 0)) 0x30000 0x10000 4"

lemma demo_psf: "PSF2_MAGIC_OK demo_memory 0x30000"
  by (simp add: demo_memory_def boot_memcpy_def copy_byte_def PSF2_MAGIC_OK_def upt_rec)

lemma demo_font: "\<exists>cs'. load_font demo demo_statics demo_garbage demo_folders rest (demo_env (\<lambda>_. 0) cs) = rest (demo_env demo_memory cs')"
  using demo_psf
  by (simp add: load_font_def use_font_def demo_folders_def demo_statics_def PSF2_MAGIC_OK_def demo_memory_def) (rule exI, rule refl)

definition demo_image :: byte_mem where
  "demo_image = demo_read 0x402 0x10000 demo_memory"

lemma demo_elf: "ELF_MAGIC_OK (get64 demo_image) 0x10000" "elf_class (get64 demo_image) 0x10000 = 2"
  "elf_machine (get64 demo_image) 0x10000 = 0x3E"
  by code_simp+

lemma demo_kernel: "\<exists>cs'. open_kernel demo demo_garbage demo_folders rest (demo_env demo_memory cs) = rest demo_loaded (demo_env demo_image cs')"
  using demo_elf
  by (simp add: open_kernel_def use_kernel_def demo_folders_def demo_image_def [symmetric] del: demo_read.simps) (rule exI, rule refl)

lemma demo_search:
  "\<exists>q cs'. search_modes demo g 0 \<lparr>res_1280x720 = 2, mode_size = 0, mode_info = 0, table = bt\<rparr> (demo_env m cs) = Some (0, q, demo_env m cs') \<and>
     res_1280x720 q = 0"
  by (subst search_modes.simps, subst search_modes.simps)
    (simp add: query_mode_def ask_mode_def use_mode_def look_at_mode_def show_mode_def, rule exI, rule refl)

lemma demo_graphics: "\<exists>cs' bt'. set_graphics demo h bt 0x10000 rest (demo_env m cs) = rest bt' (demo_env m cs')"
proof -
  let ?s = "demo_env m (cs @ [LocateHandleBuffer GraphicsOutputProtocol, HandleProtocol (get64 m 0x108) GraphicsOutputProtocol,
    OutputString (text16 ''Done find graphics protocol!'' @ CRLF)])"
  obtain q c1 where q: "search_modes demo 0x200 0 \<lparr>res_1280x720 = 2, mode_size = 0, mode_info = 0, table = bt\<rparr> ?s = Some (0, q, demo_env m c1)"
    "res_1280x720 q = 0" using demo_search by blast
  have n: "no_mode demo g s = 2" for g s by (simp add: no_mode_def)
  have "set_graphics demo h bt 0x10000 rest (demo_env m cs) = set_mode demo h 0x200 0x10000 rest q (demo_env m c1)"
    using q(1) by (simp add: set_graphics_def n)
  moreover have "\<exists>cs' bt'. set_mode demo h 0x200 0x10000 rest q (demo_env m c1) = rest bt' (demo_env m cs')"
    by (simp add: set_mode_def n q(2)) (intro exI, rule refl)
  ultimately show ?thesis by simp
qed

lemma demo_map: "memory_map demo demo_statics 48 2 m = boot_regions"
  by (simp add: memory_map_def demo_statics_def demo_def upt_rec) (simp add: boot_regions_def)

lemma demo_init: "\<exists>ds b r u. init_virtual_mapping w 0x40000 MAPPING_TYPE_MAP_ALL boot_regions b0 st = Some (EFI_SUCCESS, ds, b, r, u)"
  using boot_regions_fields(1,2) by (simp add: init_virtual_mapping_def split_beta Let_def)

lemma load_loop_no_error: "(\<And>i. \<not> bad (left i)) \<Longrightarrow> fst (load_loop bad left hdr tbl len is ld) = None"
  by (induction "is" arbitrary: ld) (simp_all add: Let_def)

lemma demo_hand_over:
  "\<exists>e bt' ds u cs'. hand_over demo demo_statics demo_cpu 1 h demo_loaded bt (demo_env m cs) = Some (Entered e bt' ds u (demo_env m cs'))"
proof -
  let ?cs = "cs @ [GetMemoryMap 0x8000 0x20000, ExitBootServices 1 7]"
  have buf: "memmap_buf demo_statics = 0x20000" "cr3_value demo_cpu = 0x40000" "map_pages_left demo_cpu = (\<lambda>_. 0)"
    by (simp_all add: demo_statics_def demo_cpu_def)
  obtain ds b r u where i: "init_virtual_mapping (wide_shift demo_cpu) 0x40000 MAPPING_TYPE_MAP_ALL boot_regions (bt_mapping_base bt)
      (enter (demo_env m ?cs)) = Some (EFI_SUCCESS, ds, b, r, u)" using demo_init by blast
  have k: "\<exists>e bt' u'. start_kernel demo demo_cpu 0x10000 4 bt1 ds u s = Entered e bt' ds u' s" for bt1 s
  proof -
    obtain ld where "load_kernel (EFI_ERROR demo) (map_pages_left demo_cpu) 0x10000 4 u = (None, ld)"
      using load_loop_no_error [of "EFI_ERROR demo" "map_pages_left demo_cpu"] unfolding load_kernel_def
      by (metis buf(3) demo_fields(5) fst_conv surj_pair)
    then show ?thesis by (simp add: start_kernel_def get_mapping_pointers_and_count_def Let_def)
  qed
  show ?thesis
    using i k by (simp add: hand_over_def leave_firmware_def buf demo_map) blast
qed

lemma demo_enters:
  "\<exists>e bt ds u s'. efi_main demo demo_statics demo_cpu demo_garbage 1 (demo_env (\<lambda>_. 0) []) = Some (Entered e bt ds u s')"
proof -
  let ?g = "\<lambda>h img. set_graphics demo h no_table (file_contents img) (hand_over demo demo_statics demo_cpu 1 h img)"
  let ?k = "\<lambda>h. open_kernel demo demo_garbage h (?g h)"
  obtain c1 where 1: "open_config demo demo_garbage (\<lambda>h. load_font demo demo_statics demo_garbage h (?k h))
      (demo_env (\<lambda>_. 0) start_calls) = load_font demo demo_statics demo_garbage demo_folders (?k demo_folders) (demo_env (\<lambda>_. 0) c1)"
    using demo_config [of "\<lambda>h. load_font demo demo_statics demo_garbage h (?k h)" start_calls] by blast
  obtain c2 where 2: "load_font demo demo_statics demo_garbage demo_folders (?k demo_folders) (demo_env (\<lambda>_. 0) c1) =
      ?k demo_folders (demo_env demo_memory c2)" using demo_font [of "?k demo_folders" c1] by blast
  obtain c3 where 3: "?k demo_folders (demo_env demo_memory c2) = ?g demo_folders demo_loaded (demo_env demo_image c3)"
    using demo_kernel [of "?g demo_folders" c2] by blast
  obtain c4 bt where 4: "?g demo_folders demo_loaded (demo_env demo_image c3) =
      hand_over demo demo_statics demo_cpu 1 demo_folders demo_loaded bt (demo_env demo_image c4)"
    using demo_graphics [of demo_folders no_table "hand_over demo demo_statics demo_cpu 1 demo_folders demo_loaded" demo_image c3] by auto
  have "efi_main demo demo_statics demo_cpu demo_garbage 1 (demo_env (\<lambda>_. 0) []) =
      hand_over demo demo_statics demo_cpu 1 demo_folders demo_loaded bt (demo_env demo_image c4)"
    by (simp only: efi_main_def demo_start append_Nil 1 2 3 4)
  then show ?thesis using demo_hand_over [of demo_folders bt demo_image c4] by auto
qed

lemma demo_documented: "fixed_modes demo" "efi_documented demo"
  by (simp_all add: fixed_modes_def efi_documented_def)

end
