(* ===== verification/Boot_Start.thy ===== *)
theory Boot_Start
  imports Boot_Demo
begin

text \<open>
  What the bootloader does, from the first call of the firmware to the kernel or to the label
  \<open>end\<close>.
\<close>

section \<open>The order of the calls\<close>



section \<open>What is handed over\<close>



section \<open>The label end\<close>

text \<open>The states in which the key is asked for.\<close>

definition polls :: "'f firmware \<Rightarrow> nat \<Rightarrow> 'f env \<Rightarrow> 'f env" where
  "polls E n s = ((\<lambda>s. snd (invoke E ReadKeyStroke s)) ^^ n) s"

lemma polls_simps [simp]: "polls E 0 s = s" "polls E (Suc n) s = polls E n (snd (invoke E ReadKeyStroke s))"
  by (simp_all add: polls_def funpow_Suc_right del: funpow.simps)

lemma calls_polls: "calls (polls E n s) = calls s @ replicate n ReadKeyStroke"
  by (induction n arbitrary: s) (simp_all add: replicate_app_Cons_same)

lemma read_key_returns:
  assumes "\<And>i. i < n \<Longrightarrow> fst (invoke E ReadKeyStroke (polls E i s)) = efi_code E EFI_NOT_READY"
    and "fst (invoke E ReadKeyStroke (polls E n s)) \<noteq> efi_code E EFI_NOT_READY"
  shows "read_key_loop E s = Some (fst (invoke E ReadKeyStroke (polls E n s)), polls E (Suc n) s)"
  using assms
proof (induction n arbitrary: s)
  case 0
  then show ?case by (subst read_key_loop.simps) (simp add: split_beta)
next
  case (Suc n)
  let ?s = "snd (invoke E ReadKeyStroke s)"
  have "read_key_loop E ?s = Some (fst (invoke E ReadKeyStroke (polls E n ?s)), polls E (Suc n) ?s)"
    using Suc.prems(1) [of "Suc i" for i] Suc.prems(2) by (intro Suc.IH) auto
  moreover have "read_key_loop E s = read_key_loop E ?s"
    using Suc.prems(1) [of 0] by (subst read_key_loop.simps) (simp add: split_beta)
  ultimately show ?case by simp
qed

text \<open>The handles are closed and a key is waited for: then \<open>end\<close> returns, whatever it was reached for.\<close>

lemma end_label_returns:
  defines "msg \<equiv> text16 ''Application End!'' @ CRLF"
  fixes E :: "'f firmware" and s1 s2 s3 :: "'f env"
  assumes h: "boot_folder_handle h \<noteq> 0" "resource_folder_handle h \<noteq> 0"
    and s: "invoke E (Close (boot_folder_handle h)) s = (r1, s1)" "invoke E (Close (resource_folder_handle h)) s1 = (r2, s2)"
      "invoke E (OutputString msg) s2 = (r3, s3)"
    and ok: "\<not> EFI_ERROR E r1" "\<not> EFI_ERROR E r2" "\<not> EFI_ERROR E r3"
    and wait: "\<And>i. i < n \<Longrightarrow> fst (invoke E ReadKeyStroke (polls E i s3)) = efi_code E EFI_NOT_READY"
    and key: "fst (invoke E ReadKeyStroke (polls E n s3)) = r4" "r4 \<noteq> efi_code E EFI_NOT_READY" "\<not> EFI_ERROR E r4"
  shows "end_label E h s = Some (efi_code E EFI_SUCCESS, polls E (Suc n) s3)"
proof -
  have "read_key_loop E s3 = Some (r4, polls E (Suc n) s3)"
    using read_key_returns [of n E s3] wait key by simp
  then show ?thesis
    using h s ok key(3) by (subst end_label.simps) (simp add: file_close_def print_def msg_def)
qed

text \<open>Folders with which \<open>end\<close> never returns: one of them NULL, or a first one that cannot be closed.\<close>

definition never_closed :: "'f firmware \<Rightarrow> folders \<Rightarrow> bool" where
  "never_closed E h \<longleftrightarrow> boot_folder_handle h = 0 \<or> resource_folder_handle h = 0 \<or>
     (\<forall>t. EFI_ERROR E (fst (invoke E (Close (boot_folder_handle h)) t)))"

lemma end_label_stuck: "end_label E h s = Some r \<Longrightarrow> \<not> never_closed E h"
proof (rule end_label.raw_induct [where P = "\<lambda>E h s r. \<not> never_closed E h"])
  fix f and E :: "'a firmware" and h s r
  assume IH: "\<And>E h s r. f E h s = Some r \<Longrightarrow> \<not> never_closed E h"
    and body: "do { (status, s) \<leftarrow> file_close E (boot_folder_handle h) s;
          (if EFI_ERROR E status then f E h (report E status s) else do {
            (status, s) \<leftarrow> file_close E (resource_folder_handle h) s;
            (if EFI_ERROR E status then f E h (report E status s) else do {
              let (status, s) = print E (text16 ''Application End!'' @ CRLF) s;
              (if EFI_ERROR E status then f E h (report E status s) else do {
                (status, s) \<leftarrow> read_key_loop E s;
                (if EFI_ERROR E status then f E h (report E status s)
                 else Some (efi_code E EFI_SUCCESS, s)) }) }) }) } = Some r"
  obtain st s1 where cl: "invoke E (Close (boot_folder_handle h)) s = (st, s1)" by fastforce
  show "\<not> never_closed E h"
  proof
    assume never: "never_closed E h"
    have b: "boot_folder_handle h \<noteq> 0"
    proof
      assume "boot_folder_handle h = 0"
      then show False using body by (simp add: file_close_def)
    qed
    show False
    proof (cases "EFI_ERROR E st")
      case True
      then have "f E h (report E st s1) = Some r" using body b cl by (simp add: file_close_def)
      then show ?thesis using IH never by blast
    next
      case False
      then have "resource_folder_handle h = 0" using never b cl by (auto simp: never_closed_def) (metis fst_conv)
      then show ?thesis using body b cl False by (simp add: file_close_def)
    qed
  qed
qed

section \<open>Errors\<close>

lemma check_stuck:
  assumes "never_closed E h"
  shows "check E h r rest = (if EFI_ERROR E (fst r) then None else rest (snd r))"
proof -
  have "end_label E h t = None" for t using end_label_stuck [of E h t] assms by (cases "end_label E h t") auto
  then show ?thesis by (cases r) (simp add: check_def)
qed

fun failing :: "'f firmware \<Rightarrow> call list \<Rightarrow> 'f env \<Rightarrow> bool" where
  "failing E [] s \<longleftrightarrow> False"
| "failing E (c # cs) s \<longleftrightarrow> EFI_ERROR E (fst (invoke E c s)) \<or> failing E cs (snd (invoke E c s))"

lemma start_failing: "failing E start_calls s \<Longrightarrow> never_closed E h \<Longrightarrow> start E h rest s = None"
  by (auto simp: start_def start_calls_def print_def check_stuck)

text \<open>When one of the first five calls fails, \<open>efi_main\<close> does not return: at \<open>end\<close> it closes the
  folders, through handles that are still NULL.\<close>

theorem early_error_hangs:
  assumes "failing E start_calls s"
  shows "efi_main E L cpu g handle s = None"
proof -
  have "never_closed E no_folders" by (simp add: never_closed_def no_folders_def)
  then show ?thesis using assms by (simp add: efi_main_def start_failing)
qed

definition deaf_console :: "unit firmware" where
  "deaf_console = demo\<lparr>serve := (\<lambda>c m f. if c = ClearScreen
     then (\<lparr>ret = demo_code EFI_UNSUPPORTED, out1 = None, out2 = None, out3 = None\<rparr>, m, f) else demo_serve c m f)\<rparr>"

theorem early_error_hangs_witness:
  "efi_main deaf_console demo_statics demo_cpu demo_garbage 1 (demo_env (\<lambda>_. 0) []) = None"
proof (rule early_error_hangs)
  show "failing deaf_console start_calls (demo_env (\<lambda>_. 0) [])"
    by (simp add: start_calls_def invoke_request request_def deaf_console_def demo_env_def demo_def)
qed
text \<open>C20: when the folders are open, can be closed, and a key comes after \<open>n\<close> polls, an error returns to the
  firmware: it is shown, both folders are closed, and the status is \<open>EFI_SUCCESS\<close> all the same.\<close>

theorem error_returns_success:
  fixes E :: "'f firmware" and s0 s1 s2 s3 :: "'f env"
  assumes "EFI_ERROR E status" and "boot_folder_handle h \<noteq> 0" and "resource_folder_handle h \<noteq> 0"
    and "s0 = report E status s"
    and "invoke E (Close (boot_folder_handle h)) s0 = (r1, s1)" and "invoke E (Close (resource_folder_handle h)) s1 = (r2, s2)"
    and "invoke E (OutputString (text16 ''Application End!'' @ CRLF)) s2 = (r3, s3)"
    and "\<not> EFI_ERROR E r1" and "\<not> EFI_ERROR E r2" and "\<not> EFI_ERROR E r3"
    and "\<And>i. i < n \<Longrightarrow> fst (invoke E ReadKeyStroke (polls E i s3)) = efi_code E EFI_NOT_READY"
    and "fst (invoke E ReadKeyStroke (polls E n s3)) = r4" and "r4 \<noteq> efi_code E EFI_NOT_READY" and "\<not> EFI_ERROR E r4"
  shows "\<exists>s'. check E h (status, s) rest = Some (Returned (efi_code E EFI_SUCCESS) s') \<and>
    calls s' = calls s0 @ [Close (boot_folder_handle h), Close (resource_folder_handle h),
      OutputString (text16 ''Application End!'' @ CRLF)] @ replicate (Suc n) ReadKeyStroke"
proof -
  have "end_label E h s0 = Some (efi_code E EFI_SUCCESS, polls E (Suc n) s3)"
    using assms by (intro end_label_returns [where ?s1.0 = s1 and ?s2.0 = s2 and ?r1.0 = r1 and ?r2.0 = r2 and ?r3.0 = r3 and ?r4.0 = r4]) auto
  then have run: "check E h (status, s) rest = Some (Returned (efi_code E EFI_SUCCESS) (polls E (Suc n) s3))"
    using assms(1,4) by (simp add: check_def)
  have "calls s3 = calls s0 @ [Close (boot_folder_handle h), Close (resource_folder_handle h),
      OutputString (text16 ''Application End!'' @ CRLF)]"
    using calls_invoke [of E "Close (boot_folder_handle h)" s0] calls_invoke [of E "Close (resource_folder_handle h)" s1]
      calls_invoke [of E "OutputString (text16 ''Application End!'' @ CRLF)" s2] assms(5-7) by simp
  then have "calls (polls E (Suc n) s3) = calls s0 @ [Close (boot_folder_handle h), Close (resource_folder_handle h),
      OutputString (text16 ''Application End!'' @ CRLF)] @ replicate (Suc n) ReadKeyStroke"
    by (simp only: calls_polls append_assoc)
  then show ?thesis using run by blast
qed

theorem error_returns_success_witness:
  "\<exists>s'. check demo demo_folders (demo_code EFI_NOT_FOUND, demo_env (\<lambda>_. 0) []) (\<lambda>s. None) = Some (Returned 0 s') \<and>
     last (calls s') = ReadKeyStroke"
proof -
  define cs where "cs = [OutputString (text16 ''Error: 0x''),
    OutputString (map ucast (hex_fill (rev [0..<16]) (demo_code EFI_NOT_FOUND) (replicate 16 0x30))), OutputString CRLF]"
  have bad: "EFI_ERROR demo 0x800000000000000e" by (simp add: demo_def)
  have "\<exists>s'. check demo demo_folders (demo_code EFI_NOT_FOUND, demo_env (\<lambda>_. 0) []) (\<lambda>s. None) =
      Some (Returned (efi_code demo EFI_SUCCESS) s') \<and>
    calls s' = calls (demo_env (\<lambda>_. 0) cs) @ [Close (boot_folder_handle demo_folders), Close (resource_folder_handle demo_folders),
      OutputString (text16 ''Application End!'' @ CRLF)] @ replicate (Suc 0) ReadKeyStroke"
    by (rule error_returns_success [where ?r1.0 = 0 and ?r2.0 = 0 and ?r3.0 = 0 and ?r4.0 = 0 and ?n = 0 and
          ?s1.0 = "demo_env (\<lambda>_. 0) (cs @ [Close 0x400])" and ?s2.0 = "demo_env (\<lambda>_. 0) (cs @ [Close 0x400, Close 0x400])" and
          ?s3.0 = "demo_env (\<lambda>_. 0) (cs @ [Close 0x400, Close 0x400, OutputString (text16 ''Application End!'' @ CRLF)])"])
      (simp_all add: demo_folders_def report_def cs_def bad)
  then show ?thesis by auto
qed

section \<open>Files\<close>





section \<open>The graphics mode\<close>

text \<open>A graphics output with the modes \<open>ms\<close> (width, height, pixels per line), described at the addresses \<open>at\<close>.\<close>

definition offers :: "'f firmware \<Rightarrow> u64 \<Rightarrow> (nat \<Rightarrow> u64) \<Rightarrow> (u32 \<times> u32 \<times> u32) list \<Rightarrow> bool" where
  "offers E gop at ms \<longleftrightarrow> efi_documented E \<and> length ms < 2 ^ 32 \<and> (\<forall>m. MaxMode E m gop = of_nat (length ms)) \<and>
     (\<forall>i n m f. i < length ms \<longrightarrow> ret (fst (serve E (QueryMode gop (of_nat i) n) m f)) = efi_code E EFI_SUCCESS \<and>
        out2 (fst (serve E (QueryMode gop (of_nat i) n) m f)) = Some (at i)) \<and>
     (\<forall>i m. i < length ms \<longrightarrow> at i \<noteq> 0 \<and>
        (HorizontalResolution E m (at i), VerticalResolution E m (at i), PixelsPerScanLine E m (at i)) = ms ! i) \<and>
     (\<forall>p m f. ret (fst (serve E (FreePool p) m f)) = efi_code E EFI_SUCCESS)"

text \<open>The last of the first \<open>n\<close> modes with a property.\<close>

definition last_mode :: "(u32 \<times> u32 \<times> u32 \<Rightarrow> bool) \<Rightarrow> (u32 \<times> u32 \<times> u32) list \<Rightarrow> nat \<Rightarrow> nat option" where
  "last_mode P ms n = find (\<lambda>i. P (ms ! i)) (rev [0..<n])"

lemma last_mode_simps [simp]:
  "last_mode P ms 0 = None" "last_mode P ms (Suc n) = (if P (ms ! n) then Some n else last_mode P ms n)"
  by (simp_all add: last_mode_def)

definition wide_mode :: "u32 \<times> u32 \<times> u32 \<Rightarrow> bool" where
  "wide_mode = (\<lambda>(w, h, px). w = 1280)"

definition chosen_mode :: "u32 \<times> u32 \<times> u32 \<Rightarrow> bool" where
  "chosen_mode = (\<lambda>(w, h, px). w = 1280 \<and> h = 800)"

text \<open>After \<open>n\<close> modes.\<close>

definition searched :: "(u32 \<times> u32 \<times> u32) list \<Rightarrow> u64 \<Rightarrow> u64 \<Rightarrow> nat \<Rightarrow> mode_search \<Rightarrow> bool" where
  "searched ms none px n q \<longleftrightarrow>
     res_1280x720 q = (case last_mode chosen_mode ms n of None \<Rightarrow> none | Some i \<Rightarrow> of_nat i) \<and>
     bt_px_per_scan (table q) = (case last_mode wide_mode ms n of None \<Rightarrow> px | Some i \<Rightarrow> ucast (snd (snd (ms ! i))))"

lemma query_mode_offers:
  assumes o: "offers E gop at ms" and n: "n < length ms" and inv: "searched ms none px n q"
  shows "\<exists>q' s'. query_mode E gop (of_nat n) q s = Some (efi_code E EFI_SUCCESS, q', s') \<and> searched ms none px (Suc n) q'"
proof -
  obtain w h l where m: "ms ! n = (w, h, l)" by (cases "ms ! n")
  have at: "at n \<noteq> 0" "HorizontalResolution E k (at n) = w" "VerticalResolution E k (at n) = h" "PixelsPerScanLine E k (at n) = l" for k
    using o n m by (auto simp: offers_def)
  have ok: "\<not> EFI_ERROR E (efi_code E EFI_SUCCESS)" "efi_code E EFI_SUCCESS \<noteq> efi_code E EFI_BUFFER_TOO_SMALL"
    using o by (simp_all add: offers_def efi_documented_def) (metis efi_status.distinct(3))
  obtain r q1 s1 where a: "ask_mode E gop (of_nat n) q s = (r, q1, s1)" by (cases "ask_mode E gop (of_nat n) q s")
  have r: "r = efi_code E EFI_SUCCESS" "mode_info q1 = at n" "searched ms none px n q1"
    using a o n inv by (auto simp: ask_mode_def request_def split_beta offers_def stored_def searched_def)
  obtain q2 s2 where l: "look_at_mode E (of_nat n) (at n) q1 s1 = (q2, s2)" by fastforce
  have inv2: "searched ms none px (Suc n) q2"
    using l r(3) at m by (auto simp: look_at_mode_def Let_def searched_def wide_mode_def chosen_mode_def split: if_splits)
  have "fst (invoke E (FreePool (at n)) s2) = efi_code E EFI_SUCCESS"
    using o by (simp add: offers_def invoke_def request_def split_beta)
  then have "use_mode E (of_nat n) q1 s1 = Some (efi_code E EFI_SUCCESS, q2\<lparr>mode_size := 0\<rparr>, snd (invoke E (FreePool (at n)) s2))"
    using r(2) at(1) l by (simp add: use_mode_def Let_def split_beta)
  moreover have "searched ms none px (Suc n) (q2\<lparr>mode_size := 0\<rparr>)" using inv2 by (simp add: searched_def)
  ultimately show ?thesis using a r(1) ok by (auto simp: query_mode_def)
qed

lemma offers_count: "offers E gop at ms \<Longrightarrow> (ucast (MaxMode E m gop) :: u64) = of_nat (length ms)"
proof -
  assume o: "offers E gop at ms"
  then have "length ms < 2 ^ 32" by (simp add: offers_def)
  then have n: "unat (of_nat (length ms) :: u32) = length ms" by (simp add: unsigned_of_nat take_bit_nat_eq_self)
  have "(ucast w :: u64) = of_nat (unat w)" for w :: u32 by transfer simp
  from this [of "of_nat (length ms)"] show ?thesis using o by (simp only: offers_def n)
qed

lemma search_modes_offers:
  assumes o: "offers E gop at ms" and n: "n \<le> length ms" and inv: "searched ms none px n q"
  shows "\<exists>q' s'. search_modes E gop (of_nat n) q s = Some (efi_code E EFI_SUCCESS, q', s') \<and> searched ms none px (length ms) q'"
  using n inv
proof (induction "length ms - n" arbitrary: n q s)
  case (0)
  then have "n = length ms" by simp
  then show ?case using 0(3) by (subst search_modes.simps) (simp add: offers_count [OF o])
next
  case (Suc k)
  have "(of_nat n :: u64) < of_nat (length ms)"
  proof -
    have l: "n < length ms" "length ms < 2 ^ 32" using o Suc.hyps(2) by (simp_all add: offers_def)
    then show ?thesis by (simp add: word_less_nat_alt unat_of_nat_u64)
  qed
  then have i: "(of_nat n :: u64) < ucast (MaxMode E (ram s) gop)" by (simp add: offers_count [OF o])
  from query_mode_offers [OF o _ Suc.prems(2)] Suc.hyps(2) obtain q1 s1 where
    q: "query_mode E gop (of_nat n) q s = Some (efi_code E EFI_SUCCESS, q1, s1)" "searched ms none px (Suc n) q1" by fastforce
  have ok: "\<not> EFI_ERROR E (efi_code E EFI_SUCCESS)" using o by (simp add: offers_def efi_documented_def)
  from Suc.hyps(1) [of "Suc n" q1 s1] Suc.hyps(2) q(2) obtain q' s' where
    "search_modes E gop (of_nat (Suc n)) q1 s1 = Some (efi_code E EFI_SUCCESS, q', s')" "searched ms none px (length ms) q'" by fastforce
  then show ?case using i q(1) ok by (subst search_modes.simps) (simp add: add.commute)
qed

text \<open>Two modes 1280 pixels wide, of 800 and 1024 lines; the lines of the second have 2048 pixels.\<close>

definition two_modes :: "(u32 \<times> u32 \<times> u32) list" where
  "two_modes = [(1280, 800, 1280), (1280, 1024, 2048)]"

definition mode_at :: "nat \<Rightarrow> u64" where
  "mode_at i = 0x600 + of_nat i"

definition two_mode_screen :: "unit firmware" where
  "two_mode_screen = demo\<lparr>MaxMode := (\<lambda>m g. 2), HorizontalResolution := (\<lambda>m p. 1280),
     VerticalResolution := (\<lambda>m p. if p = 0x600 then 800 else 1024),
     PixelsPerScanLine := (\<lambda>m p. if p = 0x600 then 1280 else 2048),
     serve := (\<lambda>c m f. case c of QueryMode g i n \<Rightarrow> (reply (Some 36) (Some (0x600 + i)) None, m, f) | _ \<Rightarrow> demo_serve c m f)\<rparr>"


end
