(* ===== verification/Boot_Handover.thy ===== *)
theory Boot_Handover
  imports Boot_Start
begin

text \<open>
  The last part of \<open>efi_main\<close> as a whole: the memory map, leaving the firmware, the tables, the segments and the call of
  the kernel. It joins the address space of Boot_Kernel_Space to the memory the firmware leaves.
\<close>

section \<open>The kernel is entered\<close>

text \<open>The three parts of the address space: entries below the window and entries of the window show what the firmware's tables
  show; the last entry maps the pages of the run, and no other.\<close>

definition kernel_space :: "(u64 \<Rightarrow> u64) \<Rightarrow> u64 \<Rightarrow> nat \<Rightarrow> (u64 list \<times> u64) list \<Rightarrow> (u64 \<Rightarrow> u64) \<Rightarrow> u64 \<Rightarrow> bool" where
  "kernel_space m root c run w t \<longleftrightarrow>
     (\<forall>i < 511 - c. \<forall>j < 512. \<forall>k < 512. \<forall>l < 512. leaf_page w t i j k l = leaf_page m root i j k l) \<and>
     (\<forall>i < c. \<forall>j < 512. \<forall>k < 512. \<forall>l < 512. leaf_page w t (511 - c + i) j k l = leaf_page m root i j k l) \<and>
     (\<forall>j < 512. \<forall>k < 512. \<forall>l < 512. map_option (\<lambda>(level, v). (level, v AND ADDR_MASK)) (leaf_entry w t 511 j k l) =
        map_option (Pair 1) (map_of run [511, of_nat j, of_nat k, of_nat l]))"

text \<open>C3: When the firmware gives its memory map and lets go, and the memory it leaves is as the code takes for granted, the
  kernel is entered: at the address in the header of its file, with a boot table that holds the top table and the
  address of the window, and in an address space of the three parts, outside whose region memory is as the firmware
  left it.\<close>

theorem hand_over_enters:
  assumes "request E (GetMemoryMap 0x8000 (memmap_buf L)) s = (a, s1)" and "ret a = efi_code E EFI_SUCCESS" and "out3 a = Some sz" and "sz \<noteq> 0"
    and "invoke E (ExitBootServices handle (stored (out2 a) 0)) s1 = (r, s2)" and "\<not> EFI_ERROR E r" and "efi_documented E"
    and "descs = memory_map E L sz (stored (out1 a) 0x8000 div sz) (ram s2)" and "m = get64 (ram s2)"
    and "source_descriptor (cr3_value cpu) descs = Some (Inr src)" and "dest_index (NumberOfPages src) descs = Some x"
    and "n = PhysicalStart (descs ! x)" and "d = PhysicalStart src" and "len = unat (push_bit 12 (NumberOfPages src))"
    and "boot_ready n d len m (cr3_value cpu) c" and "\<And>i. \<not> EFI_ERROR E (map_pages_left cpu i)"
    and "insert (file_contents img + 24) (header_words m (file_contents img)) \<inter> copy_area n len = {}"
    and "\<forall>t \<in> upper_tables m (cr3_value cpu).
      unat (old_addr_to_new_map n d t) + 4096 * (1 + 3 * segment_page_total m (file_contents img) (file_size img)) \<le> unat n + len"
    and "\<forall>p \<in> set (segment_runs m (file_contents img) (file_size img)). hd (fst p) = 511"
  shows "\<exists>bt' u. hand_over E L cpu handle h img bt s =
      Some (Entered (field 64 m (file_contents img) 24) bt' (descs[x := (descs ! x)\<lparr>desc_type := 0x10\<rparr>]) u s2) \<and>
    bt_pml4_pointer bt' = old_addr_to_new_map n d (cr3_value cpu) \<and> bt_mapping_base bt' = OFFSETS_TO_ADDR (of_nat (511 - c)) 0 0 0 \<and>
    kernel_space m (cr3_value cpu) c (segment_runs m (file_contents img) (file_size img)) (words u) (bt_pml4_pointer bt') \<and>
    (\<forall>a. a \<notin> copy_area n len \<longrightarrow> words u a = m a)"
proof -
  let ?st = "enter s2" and ?hdr = "file_contents img" and ?size = "file_size img"
  have w: "words ?st = m" by (simp add: enter_def assms(9))
  have head: "header_words m ?hdr \<inter> copy_area n len = {}" "?hdr + 24 \<notin> copy_area n len" using assms(17) by auto
  obtain u where u: "init_virtual_mapping (wide_shift cpu) (cr3_value cpu) MAPPING_TYPE_MAP_ALL descs (bt_mapping_base bt) ?st =
      Some (EFI_SUCCESS, descs[x := (descs ! x)\<lparr>desc_type := 0x10\<rparr>], OFFSETS_TO_ADDR (of_nat (511 - c)) 0 0 0, pml4 u, u)"
    "pml4 u = old_addr_to_new_map n d (cr3_value cpu)" and sp: "mapped_space n len m (cr3_value cpu) c u" "regions_ok n d len" "c \<le> 255"
    and image: "image_words (words u) ?hdr \<inter> copy_area n len = {}"
    and room: "3 * segment_page_total (words u) ?hdr ?size \<le> unat (available_mapping_page_count u)"
    and own: "\<forall>p \<in> set (segment_runs (words u) ?hdr ?size). hd (fst p) = 511"
    and same: "segment_runs (words u) ?hdr ?size = segment_runs m ?hdr ?size"
    by (rule boot_space_core [where st = ?st, unfolded w, OF assms(10-15) head(1) assms(18,19)]) blast
  show ?thesis
  proof (rule kernel_loaded [where efi_error = "EFI_ERROR E" and left = "map_pages_left cpu", OF sp assms(16) image room own])
    fix ld
    assume ld: "load_kernel (EFI_ERROR E) (map_pages_left cpu) ?hdr ?size u = (None, ld)" "pml4 (uefi ld) = pml4 u"
      and parts: "\<And>i j k l. i < 511 - c \<Longrightarrow> j < 512 \<Longrightarrow> k < 512 \<Longrightarrow> l < 512 \<Longrightarrow> leaf_page (words (uefi ld)) (pml4 u) i j k l = leaf_page m (cr3_value cpu) i j k l"
      "\<And>i j k l. i < c \<Longrightarrow> j < 512 \<Longrightarrow> k < 512 \<Longrightarrow> l < 512 \<Longrightarrow> leaf_page (words (uefi ld)) (pml4 u) (511 - c + i) j k l = leaf_page m (cr3_value cpu) i j k l"
      "\<And>j k l. j < 512 \<Longrightarrow> k < 512 \<Longrightarrow> l < 512 \<Longrightarrow>
         map_option (\<lambda>(level, v). (level, v AND ADDR_MASK)) (leaf_entry (words (uefi ld)) (pml4 u) 511 j k l) =
         map_option (Pair 1) (map_of (segment_runs (words u) ?hdr ?size) [511, of_nat j, of_nat k, of_nat l])"
      and out: "\<And>a. a \<notin> copy_area n len \<Longrightarrow> words (uefi ld) a = m a" and "tables_ready (- written_words u) 0 (rest_hidden (uefi ld))"
    have entry: "field 64 (words (uefi ld)) ?hdr 24 = field 64 m ?hdr 24" using out [OF head(2)] by (simp add: field_def)
    have space: "kernel_space m (cr3_value cpu) c (segment_runs m ?hdr ?size) (words (uefi ld)) (pml4 u)"
      unfolding kernel_space_def using parts unfolding same by blast
    have ok: "\<not> EFI_ERROR E (efi_code E EFI_SUCCESS)" using assms(7) by (simp add: efi_documented_def)
    have "\<exists>bt'. hand_over E L cpu handle h img bt s =
        Some (Entered (field 64 m ?hdr 24) bt' (descs[x := (descs ! x)\<lparr>desc_type := 0x10\<rparr>]) (uefi ld) s2) \<and>
      bt_pml4_pointer bt' = pml4 u \<and> bt_mapping_base bt' = OFFSETS_TO_ADDR (of_nat (511 - c)) 0 0 0"
      using assms(2-6) u(1) ld(1) ok entry
      by (simp add: hand_over_def assms(1) leave_firmware_def check_def assms(8) [symmetric] start_kernel_def get_mapping_pointers_and_count_def Let_def)
    then show ?thesis using space out u(2) by metis
  qed
qed

section \<open>A machine\<close>

text \<open>A word memory as bytes.\<close>

definition bytes_of :: "(u64 \<Rightarrow> u64) \<Rightarrow> byte_mem" where
  "bytes_of w a = ucast (drop_bit (8 * unat (a AND 7)) (w (a AND NOT 7)))"

lemma bytes_of_word:
  assumes "a AND 7 = 0" "k < 8"
  shows "bytes_of w (a + of_nat k) = ucast (drop_bit (8 * k) (w a))"
proof -
  have k: "(of_nat k :: u64) AND 7 = of_nat k" "(of_nat k :: u64) AND NOT 7 = 0" "unat (of_nat k :: u64) = k"
  proof -
    have "k \<in> {0, 1, 2, 3, 4, 5, 6, 7}" using assms(2) by auto
    then show "(of_nat k :: u64) AND 7 = of_nat k" "(of_nat k :: u64) AND NOT 7 = 0" "unat (of_nat k :: u64) = k"
      by (elim insertE emptyE; simp)+
  qed
  have "a AND of_nat k = (a AND 7) AND of_nat k" using k(1) by (metis and.assoc and.commute)
  then have "a + of_nat k = a OR of_nat k" using assms(1) word_plus_and_or [of a "of_nat k"] by simp
  moreover have "a AND NOT 7 = a"
  proof -
    have "a = (a AND 7) OR (a AND NOT 7)" by (simp flip: bit.conj_disj_distrib)
    then show ?thesis using assms(1) by simp
  qed
  ultimately show ?thesis using assms(1) k by (simp add: bytes_of_def bit.conj_disj_distrib2)
qed

lemma get64_bytes_of:
  assumes "a AND 7 = 0"
  shows "get64 (bytes_of w) a = w a"
proof -
  let ?m = "put32 (a + 4) (ucast (drop_bit 32 (w a))) (put32 a (ucast (w a)) (\<lambda>_. 0))"
  have u: "(ucast (drop_bit n (ucast v :: u32)) :: u8) = ucast (drop_bit n v)" if "n \<le> 24" for n and v :: u64
    using that by (intro bit_word_eqI) (auto simp: bit_simps)
  have v: "(ucast (ucast v :: u32) :: u8) = ucast v" for v :: u64
    by (intro bit_word_eqI) (auto simp: bit_simps)
  have d: "(ucast (drop_bit n (ucast (drop_bit 32 v) :: u32)) :: u8) = ucast (drop_bit (n + 32) v)" if "n \<le> 24" for n and v :: u64
    using that by (intro bit_word_eqI) (auto simp: bit_simps ac_simps)
  note b = bytes_of_word [OF assms, of _ w]
  have "bytes_of w a = ?m a" "bytes_of w (a + 1) = ?m (a + 1)" "bytes_of w (a + 2) = ?m (a + 2)" "bytes_of w (a + 3) = ?m (a + 3)"
    "bytes_of w (a + 4) = ?m (a + 4)" "bytes_of w (a + 5) = ?m (a + 5)" "bytes_of w (a + 6) = ?m (a + 6)" "bytes_of w (a + 7) = ?m (a + 7)"
    using b [of 0] b [of 1] b [of 2] b [of 3] b [of 4] b [of 5] b [of 6] b [of 7] by (simp_all add: put32_at u v d)
  then have "get64 (bytes_of w) a = get64 ?m a" by (simp add: get64_def get32_def get16_def add.assoc)
  then show ?thesis by (simp only: get64_halves)
qed

lemma get64_boot_memory:
  "get64 (bytes_of boot_memory) 0x10018 = 0" "holds_tables (get64 (bytes_of boot_memory))"
  "a \<in> header_words boot_memory 0x10000 \<Longrightarrow> get64 (bytes_of boot_memory) a = boot_memory a"
proof -
  have "boot_memory 0x10018 = 0" by (simp add: boot_memory_def small_image_def)
  then show "get64 (bytes_of boot_memory) 0x10018 = 0" by (simp add: get64_bytes_of)
  have "(p + 8 * of_nat i) AND 7 = 0" if "p \<in> {0x40000, 0x41000, 0x42000}" "i < 512" for p :: u64 and i
  proof -
    have "unat (p + 8 * of_nat i) = unat p + 8 * i" using that small_table_pages by (intro table_entry_unat) auto
    then have "unat (p + 8 * of_nat i) mod 8 = 0" using that(1) by auto
    then have "unat ((p + 8 * of_nat i) mod 8) = 0" by (simp add: unat_mod)
    moreover have "(p + 8 * of_nat i) AND 7 = (p + 8 * of_nat i) mod 8"
      using take_bit_eq_mask [of 3 "p + 8 * of_nat i"] by (simp add: take_bit_eq_mod mask_eq_exp_minus_1)
    ultimately show ?thesis by (simp only: unat_eq_0)
  qed
  then show "holds_tables (get64 (bytes_of boot_memory))"
    using boot_memory_tables by (simp add: holds_tables_def get64_bytes_of)
  assume "a \<in> header_words boot_memory 0x10000"
  then show "get64 (bytes_of boot_memory) a = boot_memory a" by (auto simp: boot_image_runs get64_bytes_of)
qed

definition kernel_file :: file_data where
  "kernel_file = \<lparr>file_contents = 0x10000, file_size = 0x2800, file_pages = 3\<rparr>"

theorem hand_over_enters_witness:
  "\<exists>bt u s2. hand_over demo demo_statics demo_cpu 1 demo_folders kernel_file no_table (demo_env (bytes_of boot_memory) []) =
      Some (Entered 0 bt (boot_regions[1 := (boot_regions ! 1)\<lparr>desc_type := 0x10\<rparr>]) u s2) \<and>
    bt_pml4_pointer bt = 0x80000 \<and> bt_mapping_base bt = 0xFFFFFF0000000000 \<and>
    map_option (\<lambda>(level, v). (level, v AND ADDR_MASK)) (leaf_entry (words u) 0x80000 511 510 0 1) = Some (1, 0x12000)"
proof -
  let ?m = "get64 (bytes_of boot_memory)" and ?r = "reply (Some 96) (Some 7) (Some 48)"
  let ?s1 = "demo_env (bytes_of boot_memory) [GetMemoryMap 0x8000 0x20000]"
  let ?s2 = "demo_env (bytes_of boot_memory) [GetMemoryMap 0x8000 0x20000, ExitBootServices 1 7]"
  note m = get64_boot_memory
  note same = header_same [where m = boot_memory and w = ?m and hdr = "0x10000", OF m(3), simplified]
  have img: "file_contents kernel_file = 0x10000" "file_size kernel_file = 0x2800" by (simp_all add: kernel_file_def)
  have cpu: "cr3_value demo_cpu = 0x40000" "map_pages_left demo_cpu = (\<lambda>_. 0)" "memmap_buf demo_statics = 0x20000"
    by (simp_all add: demo_cpu_def demo_statics_def)
  have base: "OFFSETS_TO_ADDR (of_nat (511 - 1)) 0 0 0 = 0xFFFFFF0000000000" by code_simp
  have root: "old_addr_to_new_map 0x80000 0x40000 0x40000 = 0x80000" by (simp add: old_addr_to_new_map_def)
  have head: "header_words ?m 0x10000 = header_words boot_memory 0x10000" using same(1) by (simp add: header_words_def)
  have c1: "request demo (GetMemoryMap 0x8000 (memmap_buf demo_statics)) (demo_env (bytes_of boot_memory) []) = (?r, ?s1)" by (simp add: cpu)
  have c2: "ret ?r = efi_code demo EFI_SUCCESS" "out3 ?r = Some 48" "(48 :: u64) \<noteq> 0" by simp_all
  have c3: "invoke demo (ExitBootServices 1 (stored (out2 ?r) 0)) ?s1 = (0, ?s2)" "\<not> EFI_ERROR demo 0" by simp_all
  have ds: "boot_regions = memory_map demo demo_statics 48 (stored (out1 ?r) 0x8000 div 48) (ram ?s2)" "?m = get64 (ram ?s2)"
    by (simp_all add: demo_map)
  have apart: "insert (file_contents kernel_file + 24) (header_words ?m (file_contents kernel_file)) \<inter> copy_area 0x80000 0x10000 = {}"
    unfolding img head boot_image_runs by (simp add: copy_area_def)
  have room: "\<forall>t \<in> upper_tables ?m (cr3_value demo_cpu). unat (old_addr_to_new_map 0x80000 0x40000 t) +
      4096 * (1 + 3 * segment_page_total ?m (file_contents kernel_file) (file_size kernel_file)) \<le> unat (0x80000 :: u64) + 0x10000"
    unfolding cpu img held_upper [OF m(2)] same by (simp add: boot_image_runs old_addr_to_new_map_def)
  have own: "\<forall>p \<in> set (segment_runs ?m (file_contents kernel_file) (file_size kernel_file)). hd (fst p) = 511"
    unfolding img same by (simp add: boot_image_runs boot_image_pages)
  have src: "source_descriptor (cr3_value demo_cpu) boot_regions = Some (Inr (boot_regions ! 0))"
    unfolding cpu by (rule boot_regions_fields)
  have ready: "boot_ready 0x80000 0x40000 0x10000 ?m (cr3_value demo_cpu) 1" unfolding cpu by (rule held_ready [OF m(2)])
  have ok: "\<not> EFI_ERROR demo (map_pages_left demo_cpu i)" for i by (simp add: cpu)
  obtain bt u where bt: "hand_over demo demo_statics demo_cpu 1 demo_folders kernel_file no_table (demo_env (bytes_of boot_memory) []) =
      Some (Entered (field 64 ?m (file_contents kernel_file) 24) bt (boot_regions[1 := (boot_regions ! 1)\<lparr>desc_type := 0x10\<rparr>]) u ?s2)"
    "bt_pml4_pointer bt = old_addr_to_new_map 0x80000 0x40000 (cr3_value demo_cpu)"
    "bt_mapping_base bt = OFFSETS_TO_ADDR (of_nat (511 - 1)) 0 0 0" and
    space: "kernel_space ?m (cr3_value demo_cpu) 1 (segment_runs ?m (file_contents kernel_file) (file_size kernel_file)) (words u) (bt_pml4_pointer bt)"
    using hand_over_enters [where cpu = demo_cpu and img = kernel_file and h = demo_folders and bt = no_table,
        OF c1 c2 c3 demo_documented(2) ds src boot_regions_fields(2) boot_regions_fields(4) [symmetric]
        boot_regions_fields(3) [symmetric] boot_regions_fields(5) [symmetric] ready ok apart room own]
    by (elim exE conjE)
  have entry: "field 64 ?m 0x10000 24 = 0" using m(1) by (simp add: field_def)
  have "map_option (\<lambda>(level, v). (level, v AND ADDR_MASK)) (leaf_entry (words u) 0x80000 511 510 0 1) = Some (1, 0x12000)"
    using space bt(2) unfolding kernel_space_def cpu img same root by (auto simp: boot_image_runs boot_image_pages)
  then show ?thesis using bt unfolding cpu img root base entry by blast
qed

end
