(* ===== verification/Spec2Isabelle.thy ===== *)
theory Spec2Isabelle
  imports LibC_String Printf Printf_Numbers Printf_Props Phys_Alloc Virt_Map Virt_Chain Virt_Regions Virt_Props
    Page_Tables Page_Walk Page_Props Page_Alloc Page_Isolation Page_Init Descriptors Serial Terminal Terminal_Props
    Kernel_Main Kernel_Props Boot_Map Boot_Load Boot_Init Boot_Init_Props Boot_Tables Boot_Space Boot_Kernel_Space Boot_Terminal Boot_Firmware Boot_File_Props
    Boot_Main Boot_Main_Props Boot_Start Boot_Handover
begin

text \<open>
  A verification development for Betelgeuse, an x86-64 kernel with its own UEFI bootloader and a small C
  library. It models every C file that is part of the two programs and states what makes each part
  correct; where the code does not do what it means to, the theorem says what it does instead.

  \<^bold>\<open>The program.\<close> The bootloader (\<open>bootloader/arch/x86_64\<close>) runs under the firmware: it reads a font and the kernel
  file, leaves the firmware, copies the firmware's page tables to a region of their own, gives the kernel a
  window on physical memory, maps the segments of the kernel, and calls its entry point with a table
  that says where everything is. The kernel (\<open>kernel\<close>) sets up its page allocator from the memory
  map in that table, then its descriptor tables and its interrupt table, and reports on the way through
  \<open>printf\<close> (\<open>libc\<close>), whose characters go to the terminal on the frame buffer and to the serial port.
  The allocator has three parts: a bitmap of page frames, a list of the regions of virtual
  addresses in use, and the page tables; \<open>page_alloc\<close> and its relatives put the three together.

  \<^bold>\<open>Which theory models what.\<close>
  \<^item> Prelude: integer types, conversions, the expression \<open>1 << n\<close>, return codes; facts on words and loops.
  \<^item> LibC_String: \<open>libc/string\<close> and the bootloader's \<open>memcpy.c\<close>. A pointer is a 64-bit address of a byte store.
  \<^item> Bytes: the fields of a structure in that store.
  \<^item> Printf, Printf_Numbers, Printf_Props: \<open>libc/stdio/printf.c\<close> and \<open>puts.c\<close>. A conversion specification is a \<open>directive\<close>; the
    state is the text written, the count that is returned, the arguments left, and memory (for \<open>%n\<close> and \<open>%s\<close>).
  \<^item> Phys_Alloc: \<open>page_physical_*\<close> of \<open>kernel/kernel/memory.c\<close> on the list of the words of the bitmap.
  \<^item> Virt_Map: \<open>page_virtual_*\<close> of the same file. \<open>virtual_map\<close> is the page of nodes, its first pointer and the bitmap
    of nodes in use; \<open>tripref\<close> is the pointer to a pointer with which the code walks the list. Virt_Chain says which regions
    a map holds, Virt_Regions which addresses, Virt_Props what the operations do to those.
  \<^item> Page_Tables: \<open>kernel/arch/x86_64/paging.c\<close> and the address macros of \<open>kernel/memory.h\<close>. \<open>paging\<close> holds memory as 64-bit words,
    the register cr3, and the state of the frame allocator. Page_Walk has the walk of the processor; Page_Props proves the mapper
    correct against it.
  \<^item> Page_Alloc: \<open>page_alloc*\<close> and \<open>page_free*\<close> on a record \<open>kernel\<close> of mapper and virtual map. Page_Isolation: runs of them.
  \<^item> Page_Init: \<open>page_allocator_init\<close>.
  \<^item> Descriptors: \<open>gdt.c\<close> and the table part of \<open>interrupts.c\<close>, as bytes.
  \<^item> Serial: \<open>serial.c\<close> and \<open>arch_serial.c\<close> over a device. Terminal, Terminal_Props: \<open>tty.c\<close>, the font and the frame buffer included.
  \<^item> Kernel_Main, Kernel_Props: \<open>kernel.c\<close>, \<open>panic.c\<close>, the handlers of \<open>interrupts.c\<close>, \<open>putchar.c\<close>, \<open>abort.c\<close>, \<open>ssp.c\<close>, over all of the above.
  \<^item> Boot_Map: \<open>map_page\<close> and \<open>map_pages\<close> of \<open>uefi_mem.c\<close>. Boot_Init, Boot_Init_Props, Boot_Tables: its \<open>init_virtual_mapping\<close>.
  \<^item> Boot_Space, Boot_Kernel_Space: \<open>init_virtual_mapping\<close> and the loop over the segments, one after the other: the state the
    first leaves for the second, and the address space of the kernel.
  \<^item> Boot_Terminal: \<open>uefi_tty.c\<close>, the loader's terminal, and the texts the other models collect as what it shows.
  \<^item> Boot_Load: the ELF header and the loop over the segments, from \<open>uefi_boot.c\<close> and \<open>uefi_elf.h\<close>.
  \<^item> Boot_Firmware, Boot_File_Props: \<open>uefi_print.c\<close> and \<open>uefi_file.c\<close>. A call of the firmware is a value of \<open>call\<close>; the state keeps all
    calls in order.
  \<^item> Boot_Main, Boot_Main_Props, Boot_Demo, Boot_Start, Boot_Handover: \<open>efi_main\<close> of \<open>uefi_boot.c\<close>, with a firmware on which it runs
    to the kernel; Boot_Handover takes the part from the memory map on as a whole.

  \<^bold>\<open>What the theorems show.\<close> Their claim numbers are those of the list of properties.
  \<^item> Page tables. The mapper of the kernel (C4, C28) and that of the loader (C12, C11) change the translation of exactly the
    pages they are called for, for any memory in which the tables form a tree; the moved tables translate as the old
    ones did (C9). The walk they refer to, \<open>walk_from\<close>, is that of the processor, defined on memory alone.
  \<^item> The address space of the kernel. From the tables of the firmware and the memory map, \<open>init_virtual_mapping\<close> makes a
    state that is well formed for the mapper (C8), and with the loop over the segments an address space of three parts:
    the firmware's translations, the window on them, and the segments (C2). Both have hypotheses on the memory
    before the first step only; C3 takes that memory from the firmware and goes on to the call of the kernel. C39 is
    a consequence that was not meant.
  \<^item> Allocation. The bitmap hands out distinct free frames (C31, C33); the virtual map changes by exactly the page
    (C16, C21, C30); \<open>page_alloc_at\<close> joins them (C5); in any run of allocations and frees no frame has two
    owners and no page table is handed out (C1). C32 is the choice of the bitmap's place.
  \<^item> Text. \<open>printf\<close> writes standard notation (C14, C15); the terminal refines a grid of characters (C10), also
    in the loader (C22); the serial port sends every byte once when it becomes ready (C25, C27); C13 is what a starting
    kernel reports.
  \<^item> Tables of the processor: C23, C24, C26.
  \<^item> The loader: order of the firmware's calls (C6), what has been checked when the kernel is entered (C7), files (C17,
    C18), graphics mode (C19), errors (C20, C29).
  \<^item> The C library: C34, C35. What goes wrong: C36 to C40, and parts of C11, C19, C20, C24, C28 and C29.

  \<^bold>\<open>How proofs are built.\<close> The mapper of the kernel is proved in the locale \<open>frame_allocator\<close> (Phys_Alloc), which extends
  \<open>frame_source\<close> with the contract of the frame allocator; the contract is discharged three times by the code's bitmap:
  \<open>x86\<close>, \<open>x86_low\<close> (only frames an entry can hold) and \<open>reserving\<close> (Page_Isolation; with frames given out, which stay
  apart from the tables). Proofs about lists of regions go through \<open>chain\<close>, those about tables through \<open>tree\<close> and \<open>tables\<close>, those about
  text through \<open>emits\<close>, the effect of writing a string. The loader's mapper is proved on tables without large pages;
  \<open>hide\<close> takes the top entries of the other parts out of the memory, which a run does not notice (Boot_Space), so the proof
  applies to the part of the kernel beside the large pages of the firmware.

  \<^bold>\<open>What is a parameter.\<close> \<open>ov\<close>: the value of an \<open>int\<close> shift by 32 or more (\<open>x86_ov\<close> is that of the processor). \<open>sov\<close>: the same for
  64 bits. \<open>un\<close>, \<open>ur\<close>, \<open>left\<close>, \<open>garbage\<close>: variables that are read before they are set, results of functions that end
  without \<open>return\<close>. \<open>wide\<close>: the constant \<open>510 << 39\<close> of type \<open>int\<close>. \<open>tr\<close>: the translation through which the kernel
  reaches memory, of which \<open>reached\<close> says what the mapper relies on. \<open>inb\<close>, \<open>outb\<close>: the port's device. \<open>literals\<close>: where the linker put the strings.
  \<open>firmware\<close>: what UEFI does in a call, and the numbers and layouts of its headers, which the repository takes
  from a submodule; the hypothesis on it, \<open>efi_documented\<close>, is that \<open>EFI_SUCCESS\<close> is the one status the code names that is no error.

  \<^bold>\<open>Loops.\<close> No fuel is used. A loop whose end depends on its input is a \<open>partial_function\<close> into \<open>option\<close> or has a termination
  proof; \<open>None\<close> is a loop that does not end, a NULL pointer or a read outside a buffer. Every claim that
  a function does its work says that its result is \<open>Some\<close>; that one never returns is proved by fixpoint induction (C27, C38).

  \<^bold>\<open>Limits.\<close> Memory is sequential: no cache, no TLB, no interrupts between steps. Page tables are words and everything else is bytes: the
  loader's memory changes from one to the other in \<open>leave_firmware\<close>, after the last call of the firmware. \<open>walk_from\<close>
  follows four levels; large pages are a matter of \<open>leaf_entry\<close> (C2, C9), as only the firmware makes them.
  C2 and C3 ask for what the code takes for granted of the firmware's memory (\<open>boot_ready\<close>): tables in the region in front of cr3, with no
  table shared between two entries, the entries in use the first ones and at most 255, an entry in use in each table,
  and the region of the copy apart from the tables of the last level.

  \<^bold>\<open>Not modelled.\<close> \<open>guids.c\<close> (constants from the submodule), the assembly files (entry points, \<open>lgdt\<close> and \<open>lidt\<close>, entry of the
  handlers; their arguments are results of the models), the copies of headers under \<open>sysroot\<close>, and \<open>tests/virtual_mem\<close>, a test program
  with stubs. \<open>print_init\<close> stores its argument. \<open>strlen\<close> in \<open>uefi_print.c\<close> is one more
  copy of the function in LibC_String. \<open>ssp_test\<close> and \<open>constructor_test\<close> of \<open>kernel.c\<close> are never called. The test for
  64-bit mode in \<open>efi_main\<close> cannot fail and is left out.
\<close>

end
